(* ===== verification/Avatar_Prelude.thy ===== *)
theory Avatar_Prelude
  imports "HOL-Library.Word"
begin

text \<open>
  Shared vocabulary of the development: the machine integers of the C code as
  fixed-width words, the page constants of \<^verbatim>\<open>src/include/page.h\<close>, the alignment macros of
  \<^verbatim>\<open>src/include/types.h\<close>, and the generic lemmas on words, bits and lists that the
  component theories use. The collection \<open>unat_simps\<close> turns word comparisons into
  comparisons of naturals; \<open>word_bits\<close> holds the bit-level facts.
\<close>

unbundle bit_operations_syntax

type_synonym u8 = "8 word"
type_synonym u16 = "16 word"
type_synonym u32 = "32 word"
type_synonym u64 = "64 word"

named_theorems unat_simps "comparisons and operations of words read as naturals"
named_theorems word_bits "bits of the word operations the code uses"

declare word_less_nat_alt [unat_simps] word_le_nat_alt [unat_simps]
declare unat_div_distrib [unat_simps] unat_mod_distrib [unat_simps]

text \<open>\<^verbatim>\<open>PAGE_SIZE\<close>, \<^verbatim>\<open>ALIGN_UP\<close> and \<^verbatim>\<open>ALIGN_DOWN\<close>, on 64-bit values.\<close>

abbreviation PAGE_SIZE :: u64 where
  "PAGE_SIZE \<equiv> 4096"

definition ALIGN_UP :: "u64 \<Rightarrow> u64 \<Rightarrow> u64" where
  "ALIGN_UP x a = (x + (a - 1)) AND NOT (a - 1)"

definition ALIGN_DOWN :: "u64 \<Rightarrow> u64 \<Rightarrow> u64" where
  "ALIGN_DOWN x a = x AND NOT (a - 1)"

section \<open>Words as naturals\<close>

lemma unat_lt64: "unat (x :: u64) < 18446744073709551616"
  using unsigned_less [of x] by simp

lemma unat_lt32: "unat (x :: u32) < 4294967296"
  using unsigned_less [of x] by simp

lemma unat_lt8: "unat (x :: u8) < 256"
  using unsigned_less [of x] by simp

lemma unat_add64:
  "unat x + unat y < 18446744073709551616 \<Longrightarrow> unat (x + y :: u64) = unat x + unat y"
  using unat_add_lem [of x y] by simp

lemma unat_add_Suc64: "unat x < 18446744073709551615 \<Longrightarrow> unat (x + 1 :: u64) = Suc (unat x)"
  using unat_add64 [of x 1] by simp

lemma unat_mult64:
  "unat x * unat y < 18446744073709551616 \<Longrightarrow> unat (x * y :: u64) = unat x * unat y"
  using unat_mult_lem [of x y] by simp

lemma unat_ucast32 [simp]: "unat (ucast (x :: u32) :: u64) = unat x"
proof -
  have "unat x < 18446744073709551616"
    using unat_lt32 [of x] by (rule less_trans) simp
  then show ?thesis
    by (simp add: unsigned_ucast_eq take_bit_nat_def)
qed

lemma ucast_back [simp]:
  "ucast (ucast (x :: u8) :: u64) = x" "ucast (ucast (y :: u32) :: u64) = y" "ucast (ucast (x :: u8) :: u32) = x"
  by (rule bit_word_eqI, simp add: bit_simps)+

lemma unat_of_nat64: "n < 18446744073709551616 \<Longrightarrow> unat (of_nat n :: u64) = n"
  by (simp add: unat_of_nat)

lemma unat_max64: "unat (- 1 :: u64) = 18446744073709551615"
  by (simp add: unsigned_minus_1_eq_mask mask_eq_exp_minus_1)

section \<open>Page alignment\<close>

lemma and_page_mask: "(x :: u64) AND 4095 = x mod 4096"
proof -
  have "(x :: u64) AND 4095 = take_bit 12 x"
    by (simp add: take_bit_eq_mask mask_eq_exp_minus_1)
  also have "\<dots> = x mod 4096"
    by (simp add: take_bit_eq_mod)
  finally show ?thesis .
qed

lemma unat_and_page_mask: "unat ((x :: u64) AND 4095) = unat x mod 4096"
  by (simp add: and_page_mask unat_mod_distrib)

lemma and_not_page_mask: "(x :: u64) AND NOT 4095 = x - x mod 4096"
proof -
  have "(x AND NOT 4095) + (x AND 4095) = x"
    by (subst disjunctive_add) (auto simp: bit_simps intro: bit_word_eqI)
  then show ?thesis
    by (simp add: and_page_mask eq_diff_eq)
qed

lemma unat_and_not_page_mask: "unat ((x :: u64) AND - 4096) = unat x - unat x mod 4096"
proof -
  have "x mod 4096 \<le> x"
    by (simp add: word_le_nat_alt unat_mod_distrib)
  moreover have "x AND - 4096 = x - x mod 4096"
    using and_not_page_mask [of x] by simp
  ultimately show ?thesis
    by (simp add: unat_sub unat_mod_distrib)
qed

lemma unat_ALIGN_DOWN: "unat (ALIGN_DOWN x PAGE_SIZE) = unat x div 4096 * 4096"
  by (simp add: ALIGN_DOWN_def unat_and_not_page_mask minus_mod_eq_div_mult)

lemma unat_ALIGN_UP:
  assumes "unat x + 4095 < 18446744073709551616"
  shows "unat (ALIGN_UP x PAGE_SIZE) = (unat x + 4095) div 4096 * 4096"
proof -
  have "unat (x + 4095) = unat x + 4095"
    using assms unat_add64 [of x 4095] by simp
  then show ?thesis
    by (simp add: ALIGN_UP_def unat_and_not_page_mask minus_mod_eq_div_mult)
qed

lemma aligned_less_round_up:
  assumes "x mod 4096 = 0"
  shows "x < (e + 4095) div 4096 * 4096 \<longleftrightarrow> x < (e :: nat)"
proof -
  obtain k where k: "x = k * 4096" using assms by (metis add_0_right div_mult_mod_eq)
  have "k < (e + 4095) div 4096 \<longleftrightarrow> k * 4096 < e" by linarith
  then show ?thesis by (simp add: k)
qed

lemma round_down_less_aligned:
  assumes "x mod 4096 = 0"
  shows "s div 4096 * 4096 < x \<longleftrightarrow> s < (x :: nat)"
proof -
  obtain k where k: "x = k * 4096" using assms by (metis add_0_right div_mult_mod_eq)
  have "s div 4096 < k \<longleftrightarrow> s < k * 4096" by linarith
  then show ?thesis by (simp add: k)
qed

section \<open>Intervals\<close>

lemma interval_Suc: "{n..<n + Suc m} = insert n {Suc n..<Suc n + m}"
  by auto

end
