(* ===== verification/Bitmap.thy ===== *)
theory Bitmap
  imports Avatar_Prelude "HOL-Library.Monad_Syntax"
begin

text \<open>
  The bitmap of \<^verbatim>\<open>src/include/bitmap.h\<close> and \<^verbatim>\<open>src/lib/bitmap.c\<close>: a byte buffer and a
  capacity in bits. One definition per C function. A counted loop is recursion on the
  number of iterations left; the two searches whose loop condition is
  \<open>i + count \<le> size\<close> on \<open>size_t\<close> are partial functions (\<open>None\<close>: the loop does not end,
  which the 64-bit wrap-around of \<open>i + count\<close> does not exclude for a capacity close to
  \<open>2 ^ 64\<close>), and are proved to return for every bitmap below \<open>2 ^ 63\<close> bits.

  The abstraction \<open>bm_used\<close> is the set of marked indices. The locale \<open>index_bitmap\<close> is
  the contract the page allocator relies on; it is interpreted here.
\<close>

section \<open>The structure and its operations\<close>

record bitmap_t =
  bits :: "u8 list"
  bm_size :: u64

text \<open>The value \<open>(size_t)-1\<close> by which the searches report failure.\<close>

abbreviation NOT_FOUND :: u64 where
  "NOT_FOUND \<equiv> - 1"

fun clear_bytes :: "u8 list \<Rightarrow> nat \<Rightarrow> nat \<Rightarrow> u8 list" where
  "clear_bytes buffer i 0 = buffer"
| "clear_bytes buffer i (Suc n) = clear_bytes (buffer[i := 0]) (Suc i) n"

definition bitmap_init :: "u8 list \<Rightarrow> u64 \<Rightarrow> bitmap_t" where
  "bitmap_init buffer sz =
     (let bytes = (sz + 7) div 8
      in \<lparr>bits = clear_bytes buffer 0 (unat bytes), bm_size = sz\<rparr>)"

definition bitmap_set :: "bitmap_t \<Rightarrow> u64 \<Rightarrow> bitmap_t" where
  "bitmap_set bm index =
     (if index < bm_size bm
      then bm\<lparr>bits := (bits bm)[unat (index div 8) :=
             bits bm ! unat (index div 8) OR push_bit (unat (index mod 8)) 1]\<rparr>
      else bm)"

fun bitmap_set_loop :: "bitmap_t \<Rightarrow> u64 \<Rightarrow> nat \<Rightarrow> bitmap_t" where
  "bitmap_set_loop bm index 0 = bm"
| "bitmap_set_loop bm index (Suc n) = bitmap_set_loop (bitmap_set bm index) (index + 1) n"

definition bitmap_set_range :: "bitmap_t \<Rightarrow> u64 \<Rightarrow> u64 \<Rightarrow> bitmap_t" where
  "bitmap_set_range bm start count =
     (if start + count > bm_size bm then bm else bitmap_set_loop bm start (unat count))"

definition bitmap_clear :: "bitmap_t \<Rightarrow> u64 \<Rightarrow> bitmap_t" where
  "bitmap_clear bm index =
     (if index < bm_size bm
      then bm\<lparr>bits := (bits bm)[unat (index div 8) :=
             bits bm ! unat (index div 8) AND NOT (push_bit (unat (index mod 8)) 1)]\<rparr>
      else bm)"

fun bitmap_clear_loop :: "bitmap_t \<Rightarrow> u64 \<Rightarrow> nat \<Rightarrow> bitmap_t" where
  "bitmap_clear_loop bm index 0 = bm"
| "bitmap_clear_loop bm index (Suc n) = bitmap_clear_loop (bitmap_clear bm index) (index + 1) n"

definition bitmap_clear_range :: "bitmap_t \<Rightarrow> u64 \<Rightarrow> u64 \<Rightarrow> bitmap_t" where
  "bitmap_clear_range bm start count =
     (if start + count > bm_size bm then bm else bitmap_clear_loop bm start (unat count))"

definition bitmap_test :: "bitmap_t \<Rightarrow> u64 \<Rightarrow> bool" where
  "bitmap_test bm index =
     (if index < bm_size bm
      then bits bm ! unat (index div 8) AND push_bit (unat (index mod 8)) 1 \<noteq> 0
      else False)"

fun first_free_loop :: "bitmap_t \<Rightarrow> u64 \<Rightarrow> nat \<Rightarrow> u64" where
  "first_free_loop bm i 0 = NOT_FOUND"
| "first_free_loop bm i (Suc n) = (if \<not> bitmap_test bm i then i else first_free_loop bm (i + 1) n)"

definition bitmap_find_first_free :: "bitmap_t \<Rightarrow> u64" where
  "bitmap_find_first_free bm = first_free_loop bm 0 (unat (bm_size bm))"

text \<open>
  The inner loop of both contiguous searches: the value of \<open>j\<close> at the first marked bit
  \<open>i + j\<close>, or \<open>count\<close> when there is none. The third argument is the number of
  iterations left.
\<close>

fun scan_run :: "bitmap_t \<Rightarrow> u64 \<Rightarrow> u64 \<Rightarrow> nat \<Rightarrow> u64" where
  "scan_run bm i j 0 = j"
| "scan_run bm i j (Suc n) = (if bitmap_test bm (i + j) then j else scan_run bm i (j + 1) n)"

partial_function (option) find_from_loop :: "bitmap_t \<Rightarrow> u64 \<Rightarrow> u64 \<Rightarrow> u64 option" where
  "find_from_loop bm count i =
     (if i + count \<le> bm_size bm
      then let j = scan_run bm i 0 (unat count)
           in if j = count then Some i else find_from_loop bm count (i + j + 1)
      else Some NOT_FOUND)"

definition bitmap_find_contiguous_free_from :: "bitmap_t \<Rightarrow> u64 \<Rightarrow> u64 \<Rightarrow> u64 option" where
  "bitmap_find_contiguous_free_from bm count start =
     (if count = 0 \<or> count > bm_size bm then Some NOT_FOUND
      else if start + count > bm_size bm then Some NOT_FOUND
      else find_from_loop bm count start)"

declare find_from_loop.simps [code]

partial_function (option) find_loop :: "bitmap_t \<Rightarrow> u64 \<Rightarrow> u64 \<Rightarrow> u64 option" where
  "find_loop bm count i =
     (if i + count \<le> bm_size bm
      then if scan_run bm i 0 (unat count) = count then Some i else find_loop bm count (i + 1)
      else Some NOT_FOUND)"

declare find_loop.simps [code]

definition bitmap_find_contiguous_free :: "bitmap_t \<Rightarrow> u64 \<Rightarrow> u64 option" where
  "bitmap_find_contiguous_free bm count =
     (if count = 0 \<or> count > bm_size bm then Some NOT_FOUND else find_loop bm count 0)"

section \<open>Abstraction: the set of marked indices\<close>

definition bm_wf :: "bitmap_t \<Rightarrow> bool" where
  "bm_wf bm \<longleftrightarrow> unat (bm_size bm) \<le> 8 * length (bits bm) \<and> unat (bm_size bm) < 2 ^ 63"

definition bm_used :: "bitmap_t \<Rightarrow> nat set" where
  "bm_used bm = {n. n < unat (bm_size bm) \<and> bit (bits bm ! (n div 8)) (n mod 8)}"

text \<open>\<open>free_run bm s c\<close>: the \<open>c\<close> bits from \<open>s\<close> on lie in the bitmap and are unmarked.\<close>

definition free_run :: "bitmap_t \<Rightarrow> nat \<Rightarrow> nat \<Rightarrow> bool" where
  "free_run bm s c \<longleftrightarrow> s + c \<le> unat (bm_size bm) \<and> {s..<s + c} \<inter> bm_used bm = {}"

lemma finite_bm_used [simp]: "finite (bm_used bm)"
  by (simp add: bm_used_def)

lemma bm_used_bound: "n \<in> bm_used bm \<Longrightarrow> n < unat (bm_size bm)"
  by (simp add: bm_used_def)

lemma and_exp_bit: "(w :: u8) AND 2 ^ k \<noteq> 0 \<longleftrightarrow> bit w k"
  by (simp add: and_exp_eq_0_iff_not_bit)

lemma bitmap_test_used: "bitmap_test bm i \<longleftrightarrow> unat i \<in> bm_used bm"
  by (simp add: bitmap_test_def bm_used_def and_exp_bit unat_div_distrib unat_mod_distrib
      word_less_nat_alt)

lemma bm_size_set [simp]: "bm_size (bitmap_set bm i) = bm_size bm"
  by (simp add: bitmap_set_def)

lemma bm_size_clear [simp]: "bm_size (bitmap_clear bm i) = bm_size bm"
  by (simp add: bitmap_clear_def)

lemma bm_wf_set [simp]: "bm_wf (bitmap_set bm i) \<longleftrightarrow> bm_wf bm"
  by (simp add: bm_wf_def bitmap_set_def)

lemma bm_wf_clear [simp]: "bm_wf (bitmap_clear bm i) \<longleftrightarrow> bm_wf bm"
  by (simp add: bm_wf_def bitmap_clear_def)

lemma same_byte_bit: "n div 8 = m div 8 \<Longrightarrow> n mod 8 = m mod 8 \<longleftrightarrow> n = (m :: nat)"
  by (metis div_mult_mod_eq)

lemma bit_exp8: "bit (2 ^ k :: u8) m \<longleftrightarrow> m = k \<and> k < 8"
  by (auto simp: bit_exp_iff possible_bit_word)

lemma div_less_length: "n < 8 * l \<Longrightarrow> n div 8 < (l :: nat)"
  by linarith

lemma bm_used_set:
  assumes "bm_wf bm" and "unat i < unat (bm_size bm)"
  shows "bm_used (bitmap_set bm i) = insert (unat i) (bm_used bm)"
proof -
  have "unat i div 8 < length (bits bm)"
    using assms by (intro div_less_length) (auto simp: bm_wf_def)
  then show ?thesis
    using assms(2)
    by (auto simp: bm_used_def bitmap_set_def word_less_nat_alt unat_div_distrib
        unat_mod_distrib nth_list_update bit_or_iff bit_exp8 dest: same_byte_bit)
qed

lemma bm_used_clear:
  assumes "bm_wf bm" and "unat i < unat (bm_size bm)"
  shows "bm_used (bitmap_clear bm i) = bm_used bm - {unat i}"
proof -
  have "unat i div 8 < length (bits bm)"
    using assms by (intro div_less_length) (auto simp: bm_wf_def)
  then show ?thesis
    using assms(2)
    by (auto simp: bm_used_def bitmap_clear_def word_less_nat_alt unat_div_distrib
        unat_mod_distrib nth_list_update bit_and_iff bit_not_iff bit_exp8 dest: same_byte_bit)
qed

lemma bm_set_outside: "\<not> unat i < unat (bm_size bm) \<Longrightarrow> bitmap_set bm i = bm"
  by (simp add: bitmap_set_def word_less_nat_alt)

lemma bm_clear_outside: "\<not> unat i < unat (bm_size bm) \<Longrightarrow> bitmap_clear bm i = bm"
  by (simp add: bitmap_clear_def word_less_nat_alt)

section \<open>The interface of an index bitmap\<close>

text \<open>
  What a client may rely on: a test agrees with the abstract set, marking and clearing
  one index changes the set by exactly this index, and neither changes the capacity.
  Inside the locale the two counted loops over consecutive indices are shown to add and
  remove exactly an interval, for any function with the loops' equations.
\<close>

locale index_bitmap =
  fixes wf :: "'b \<Rightarrow> bool"
    and capacity :: "'b \<Rightarrow> nat"
    and used :: "'b \<Rightarrow> nat set"
    and test :: "'b \<Rightarrow> u64 \<Rightarrow> bool"
    and mark :: "'b \<Rightarrow> u64 \<Rightarrow> 'b"
    and unmark :: "'b \<Rightarrow> u64 \<Rightarrow> 'b"
  assumes test_used: "test b i \<longleftrightarrow> unat i \<in> used b"
    and used_mark: "wf b \<Longrightarrow> unat i < capacity b \<Longrightarrow> used (mark b i) = insert (unat i) (used b)"
    and used_unmark: "wf b \<Longrightarrow> unat i < capacity b \<Longrightarrow> used (unmark b i) = used b - {unat i}"
    and wf_mark: "wf b \<Longrightarrow> wf (mark b i)"
    and wf_unmark: "wf b \<Longrightarrow> wf (unmark b i)"
    and capacity_mark: "capacity (mark b i) = capacity b"
    and capacity_unmark: "capacity (unmark b i) = capacity b"
    and capacity_bound: "wf b \<Longrightarrow> capacity b < 2 ^ 63"
begin

lemma index_Suc:
  assumes "wf b" and "unat (i :: u64) < capacity b"
  shows "unat (i + 1) = Suc (unat i)"
  using capacity_bound [OF assms(1)] assms(2) by (intro unat_add_Suc64) simp

lemma mark_loop_used:
  assumes "\<And>b i. loop b i 0 = b" and "\<And>b i n. loop b i (Suc n) = loop (mark b i) (i + 1) n"
  shows "wf b \<Longrightarrow> unat i + n \<le> capacity b \<Longrightarrow> used (loop b i n) = used b \<union> {unat i..<unat i + n}"
proof (induction n arbitrary: b i)
  case 0
  then show ?case by (simp add: assms)
next
  case (Suc n)
  from Suc.prems have i: "unat i < capacity b" by simp
  with Suc.prems have i1: "unat (i + 1) = Suc (unat i)" by (simp add: index_Suc)
  have "used (loop (mark b i) (i + 1) n) = used (mark b i) \<union> {Suc (unat i)..<Suc (unat i) + n}"
    using Suc.IH [of "mark b i" "i + 1"] Suc.prems by (simp add: wf_mark capacity_mark i1)
  also have "\<dots> = used b \<union> {unat i..<unat i + Suc n}"
    by (simp only: used_mark [OF Suc.prems(1) i] interval_Suc Un_insert_left Un_insert_right)
  finally show ?case by (simp only: assms(2))
qed

lemma unmark_loop_used:
  assumes "\<And>b i. loop b i 0 = b" and "\<And>b i n. loop b i (Suc n) = loop (unmark b i) (i + 1) n"
  shows "wf b \<Longrightarrow> unat i + n \<le> capacity b \<Longrightarrow> used (loop b i n) = used b - {unat i..<unat i + n}"
proof (induction n arbitrary: b i)
  case 0
  then show ?case by (simp add: assms)
next
  case (Suc n)
  from Suc.prems have i: "unat i < capacity b" by simp
  with Suc.prems have i1: "unat (i + 1) = Suc (unat i)" by (simp add: index_Suc)
  have "used (loop (unmark b i) (i + 1) n) = used (unmark b i) - {Suc (unat i)..<Suc (unat i) + n}"
    using Suc.IH [of "unmark b i" "i + 1"] Suc.prems by (simp add: wf_unmark capacity_unmark i1)
  also have "\<dots> = used b - {unat i..<unat i + Suc n}"
    by (simp only: used_unmark [OF Suc.prems(1) i] interval_Suc Diff_insert2 [symmetric])
  finally show ?case by (simp only: assms(2))
qed

end

interpretation bm: index_bitmap bm_wf "\<lambda>bm. unat (bm_size bm)" bm_used bitmap_test bitmap_set
  bitmap_clear
  by unfold_locales
    (simp_all add: bitmap_test_used bm_used_set bm_used_clear, simp add: bm_wf_def)

section \<open>Ranges\<close>

lemma bm_size_set_loop [simp]: "bm_size (bitmap_set_loop bm i n) = bm_size bm"
  by (induction bm i n rule: bitmap_set_loop.induct) simp_all

lemma bm_size_clear_loop [simp]: "bm_size (bitmap_clear_loop bm i n) = bm_size bm"
  by (induction bm i n rule: bitmap_clear_loop.induct) simp_all

lemma bm_wf_set_loop [simp]: "bm_wf (bitmap_set_loop bm i n) \<longleftrightarrow> bm_wf bm"
  by (induction bm i n rule: bitmap_set_loop.induct) simp_all

lemma bm_wf_clear_loop [simp]: "bm_wf (bitmap_clear_loop bm i n) \<longleftrightarrow> bm_wf bm"
  by (induction bm i n rule: bitmap_clear_loop.induct) simp_all

lemma bm_used_set_loop:
  "bm_wf bm \<Longrightarrow> unat i + n \<le> unat (bm_size bm) \<Longrightarrow>
   bm_used (bitmap_set_loop bm i n) = bm_used bm \<union> {unat i..<unat i + n}"
  by (rule bm.mark_loop_used) simp_all

lemma bm_used_clear_loop:
  "bm_wf bm \<Longrightarrow> unat i + n \<le> unat (bm_size bm) \<Longrightarrow>
   bm_used (bitmap_clear_loop bm i n) = bm_used bm - {unat i..<unat i + n}"
  by (rule bm.unmark_loop_used) simp_all

lemma bm_size_set_range [simp]: "bm_size (bitmap_set_range bm s c) = bm_size bm"
  by (simp add: bitmap_set_range_def)

lemma bm_wf_set_range [simp]: "bm_wf (bitmap_set_range bm s c) \<longleftrightarrow> bm_wf bm"
  by (simp add: bitmap_set_range_def)

lemma range_no_wrap:
  assumes "bm_wf bm" and "unat s + unat c \<le> unat (bm_size bm)"
  shows "unat (s + c :: u64) = unat s + unat c"
  using assms by (intro unat_add64) (simp add: bm_wf_def)

lemma bm_used_set_range:
  assumes "bm_wf bm" and "unat s + unat c \<le> unat (bm_size bm)"
  shows "bm_used (bitmap_set_range bm s c) = bm_used bm \<union> {unat s..<unat s + unat c}"
  using assms range_no_wrap [OF assms]
  by (simp add: bitmap_set_range_def word_less_nat_alt bm_used_set_loop)

lemma bm_used_clear_range:
  assumes "bm_wf bm" and "unat s + unat c \<le> unat (bm_size bm)"
  shows "bm_used (bitmap_clear_range bm s c) = bm_used bm - {unat s..<unat s + unat c}"
  using assms range_no_wrap [OF assms]
  by (simp add: bitmap_clear_range_def word_less_nat_alt bm_used_clear_loop)

lemma length_clear_bytes [simp]: "length (clear_bytes buffer i n) = length buffer"
  by (induction buffer i n rule: clear_bytes.induct) simp_all

lemma nth_clear_bytes:
  "k < length buffer \<Longrightarrow>
   clear_bytes buffer i n ! k = (if i \<le> k \<and> k < i + n then 0 else buffer ! k)"
  by (induction buffer i n rule: clear_bytes.induct) (auto simp: nth_list_update)

lemma bitmap_init_size [simp]: "bm_size (bitmap_init buffer sz) = sz"
  by (simp add: bitmap_init_def Let_def)

lemma bitmap_init_wf:
  "unat sz \<le> 8 * length buffer \<Longrightarrow> unat sz < 2 ^ 63 \<Longrightarrow> bm_wf (bitmap_init buffer sz)"
  by (simp add: bitmap_init_def bm_wf_def Let_def)

lemma bitmap_init_used:
  assumes "unat sz \<le> 8 * length buffer" and "unat sz < 2 ^ 63"
  shows "bm_used (bitmap_init buffer sz) = {}"
proof -
  have bytes: "unat ((sz + 7) div 8) = (unat sz + 7) div 8"
    using unat_add64 [of sz 7] assms(2) by (simp add: unat_div_distrib)
  have "\<not> bit (clear_bytes buffer 0 ((unat sz + 7) div 8) ! (n div 8)) (n mod 8)"
    if n: "n < unat sz" for n
  proof -
    have "n div 8 < length buffer" using n assms(1) by (intro div_less_length) simp
    moreover have "n div 8 < (unat sz + 7) div 8" using n by linarith
    ultimately show ?thesis by (simp add: nth_clear_bytes)
  qed
  then show ?thesis
    by (auto simp: bm_used_def bitmap_init_def Let_def bytes)
qed

section \<open>Searching for free runs\<close>

text \<open>
  \<open>first_fit bm lo c r\<close>: \<open>r\<close> is the lowest index from \<open>lo\<close> on at which \<open>c\<close> bits are free,
  or \<open>NOT_FOUND\<close> when there is none.
\<close>

definition first_fit :: "bitmap_t \<Rightarrow> nat \<Rightarrow> nat \<Rightarrow> u64 \<Rightarrow> bool" where
  "first_fit bm lo c r \<longleftrightarrow>
     (if r = NOT_FOUND then \<forall>s. lo \<le> s \<longrightarrow> \<not> free_run bm s c
      else lo \<le> unat r \<and> free_run bm (unat r) c \<and> (\<forall>s. lo \<le> s \<and> s < unat r \<longrightarrow> \<not> free_run bm s c))"

lemma free_run_bound: "free_run bm s c \<Longrightarrow> s + c \<le> unat (bm_size bm)"
  by (simp add: free_run_def)

lemma not_free_runI: "n \<in> bm_used bm \<Longrightarrow> s \<le> n \<Longrightarrow> n < s + c \<Longrightarrow> \<not> free_run bm s c"
  by (auto simp: free_run_def)

lemma first_fit_unique:
  assumes "first_fit bm lo c r" and "first_fit bm lo c r'"
  shows "r = r'"
proof -
  have "unat r = unat r'"
    using assms by (auto simp: first_fit_def split: if_splits) (metis linorder_neqE_nat)
  then show ?thesis by (simp add: word_unat_eq_iff)
qed

lemma scan_run_spec:
  "unat i + unat j + n < 2 ^ 64 \<Longrightarrow>
   \<exists>k\<le>n. unat (scan_run bm i j n) = unat j + k
     \<and> {unat i + unat j..<unat i + unat j + k} \<inter> bm_used bm = {}
     \<and> (k < n \<longrightarrow> unat i + unat j + k \<in> bm_used bm)"
proof (induction n arbitrary: j)
  case 0
  then show ?case by simp
next
  case (Suc n)
  have ij: "unat (i + j) = unat i + unat j"
    using Suc.prems by (intro unat_add64) simp
  have j1: "unat (j + 1) = Suc (unat j)"
    using Suc.prems by (intro unat_add_Suc64) simp
  show ?case
  proof (cases "bitmap_test bm (i + j)")
    case True
    then show ?thesis by (intro exI [of _ 0]) (simp add: bitmap_test_used ij)
  next
    case False
    have "unat i + unat (j + 1) + n < 2 ^ 64"
      using Suc.prems j1 by simp
    from Suc.IH [OF this] obtain k where k: "k \<le> n"
        "unat (scan_run bm i (j + 1) n) = Suc (unat j) + k"
        "{unat i + Suc (unat j)..<unat i + Suc (unat j) + k} \<inter> bm_used bm = {}"
        "k < n \<longrightarrow> unat i + Suc (unat j) + k \<in> bm_used bm"
      unfolding j1 by blast
    have "{unat i + unat j..<unat i + unat j + Suc k} \<inter> bm_used bm = {}"
      using False k(3) unfolding interval_Suc by (simp add: bitmap_test_used ij)
    with k False show ?thesis by (intro exI [of _ "Suc k"]) simp
  qed
qed

text \<open>The first marked bit of a run that is not free, as the inner loop reports it.\<close>

lemma scan_run_cases:
  assumes "bm_wf bm" and "unat i + unat c \<le> unat (bm_size bm)"
  obtains (free) "scan_run bm i 0 (unat c) = c" "free_run bm (unat i) (unat c)"
  | (busy) "scan_run bm i 0 (unat c) \<noteq> c" "unat (scan_run bm i 0 (unat c)) < unat c"
      "unat i + unat (scan_run bm i 0 (unat c)) \<in> bm_used bm"
proof -
  have "unat i + unat (0 :: u64) + unat c < 2 ^ 64"
    using assms by (simp add: bm_wf_def)
  from scan_run_spec [OF this, of bm] obtain k where k: "k \<le> unat c"
      "unat (scan_run bm i 0 (unat c)) = k" "{unat i..<unat i + k} \<inter> bm_used bm = {}"
      "k < unat c \<longrightarrow> unat i + k \<in> bm_used bm"
    by auto
  show thesis
  proof (cases "k = unat c")
    case True
    with k assms(2) show thesis
      by (intro free) (auto simp: word_unat_eq_iff free_run_def)
  next
    case False
    with k show thesis by (intro busy) auto
  qed
qed

lemma index_no_wrap:
  assumes "bm_wf bm" and "unat c \<le> unat (bm_size bm)" and "unat i \<le> Suc (unat (bm_size bm))"
  shows "unat (i + c :: u64) = unat i + unat c"
  using assms by (intro unat_add64) (simp add: bm_wf_def)

lemma first_fit_none: "\<not> lo + c \<le> unat (bm_size bm) \<Longrightarrow> first_fit bm lo c NOT_FOUND"
  by (auto simp: first_fit_def dest: free_run_bound)

lemma first_fit_here:
  assumes "bm_wf bm" and "free_run bm (unat i) c"
  shows "first_fit bm (unat i) c i"
proof -
  have "i \<noteq> NOT_FOUND"
  proof
    assume "i = NOT_FOUND"
    then have "unat i = 18446744073709551615" by (simp only: unat_max64)
    with assms show False by (simp add: bm_wf_def free_run_def)
  qed
  with assms(2) show ?thesis by (auto simp: first_fit_def)
qed

lemma first_fit_skip:
  assumes "first_fit bm lo' c r" and "lo \<le> lo'"
    and "\<And>s. lo \<le> s \<Longrightarrow> s < lo' \<Longrightarrow> \<not> free_run bm s c"
  shows "first_fit bm lo c r"
  using assms by (auto simp: first_fit_def split: if_splits) (metis not_less)+

lemma find_from_loop_first_fit:
  assumes wf: "bm_wf bm" and c: "unat c \<le> unat (bm_size bm)"
  shows "unat i \<le> Suc (unat (bm_size bm)) \<Longrightarrow>
    \<exists>r. find_from_loop bm c i = Some r \<and> first_fit bm (unat i) (unat c) r"
proof (induction "Suc (unat (bm_size bm)) - unat i" arbitrary: i rule: less_induct)
  case less
  have guard: "i + c \<le> bm_size bm \<longleftrightarrow> unat i + unat c \<le> unat (bm_size bm)"
    using index_no_wrap [OF wf c less.prems] by (simp add: word_le_nat_alt)
  show ?case
  proof (cases "unat i + unat c \<le> unat (bm_size bm)")
    case False
    then show ?thesis
      by (subst find_from_loop.simps) (simp add: guard first_fit_none)
  next
    case True
    from wf True show ?thesis
    proof (cases rule: scan_run_cases)
      case free
      with True wf show ?thesis
        by (subst find_from_loop.simps) (simp add: guard Let_def first_fit_here)
    next
      case busy
      let ?j = "scan_run bm i 0 (unat c)"
      have "unat (i + ?j) = unat i + unat ?j"
        using busy(2) True wf by (intro unat_add64) (simp add: bm_wf_def)
      then have i': "unat (i + ?j + 1) = Suc (unat i + unat ?j)"
        using busy(2) True wf by (subst unat_add_Suc64) (simp_all add: bm_wf_def)
      have "Suc (unat (bm_size bm)) - Suc (unat i + unat ?j) < Suc (unat (bm_size bm)) - unat i"
        "Suc (unat i + unat ?j) \<le> Suc (unat (bm_size bm))"
        using busy(2) True by linarith+
      then obtain r where r: "find_from_loop bm c (i + ?j + 1) = Some r"
          "first_fit bm (Suc (unat i + unat ?j)) (unat c) r"
        using less.hyps [of "i + ?j + 1"] unfolding i' by blast
      have "first_fit bm (unat i) (unat c) r"
        using r(2) by (rule first_fit_skip) (use busy(2) in \<open>simp_all add: not_free_runI [OF busy(3)]\<close>)
      moreover have "find_from_loop bm c i = Some r"
        using True busy r(1) by (subst find_from_loop.simps) (simp add: guard Let_def)
      ultimately show ?thesis by blast
    qed
  qed
qed

lemma find_loop_first_fit:
  assumes wf: "bm_wf bm" and c: "unat c \<le> unat (bm_size bm)"
  shows "unat i \<le> Suc (unat (bm_size bm)) \<Longrightarrow>
    \<exists>r. find_loop bm c i = Some r \<and> first_fit bm (unat i) (unat c) r"
proof (induction "Suc (unat (bm_size bm)) - unat i" arbitrary: i rule: less_induct)
  case less
  have guard: "i + c \<le> bm_size bm \<longleftrightarrow> unat i + unat c \<le> unat (bm_size bm)"
    using index_no_wrap [OF wf c less.prems] by (simp add: word_le_nat_alt)
  show ?case
  proof (cases "unat i + unat c \<le> unat (bm_size bm)")
    case False
    then show ?thesis
      by (subst find_loop.simps) (simp add: guard first_fit_none)
  next
    case True
    from wf True show ?thesis
    proof (cases rule: scan_run_cases)
      case free
      with True wf show ?thesis
        by (subst find_loop.simps) (simp add: guard first_fit_here)
    next
      case busy
      have i': "unat (i + 1) = Suc (unat i)"
        using True wf by (intro unat_add_Suc64) (simp add: bm_wf_def)
      have "Suc (unat (bm_size bm)) - Suc (unat i) < Suc (unat (bm_size bm)) - unat i"
        "Suc (unat i) \<le> Suc (unat (bm_size bm))"
        using busy(2) True by linarith+
      then obtain r where r: "find_loop bm c (i + 1) = Some r"
          "first_fit bm (Suc (unat i)) (unat c) r"
        using less.hyps [of "i + 1"] unfolding i' by blast
      have "first_fit bm (unat i) (unat c) r"
        using r(2) by (rule first_fit_skip) (use busy(2) in \<open>simp_all add: not_free_runI [OF busy(3)]\<close>)
      moreover have "find_loop bm c i = Some r"
        using True busy r(1) by (subst find_loop.simps) (simp add: guard)
      ultimately show ?thesis by blast
    qed
  qed
qed

lemma free_run_0_size: "free_run bm s c \<Longrightarrow> c \<le> unat (bm_size bm)"
  by (simp add: free_run_def)

text \<open>Both searches return, and both are first-fit searches from their starting point.\<close>

lemma find_contiguous_free_from_first_fit:
  assumes "bm_wf bm" and "0 < unat c" and "unat s \<le> unat (bm_size bm)"
  shows "\<exists>r. bitmap_find_contiguous_free_from bm c s = Some r \<and> first_fit bm (unat s) (unat c) r"
proof (cases "unat c \<le> unat (bm_size bm)")
  case False
  then show ?thesis
    by (auto simp: bitmap_find_contiguous_free_from_def word_less_nat_alt first_fit_def
        dest: free_run_0_size)
next
  case True
  have sc: "unat (s + c) = unat s + unat c"
    using assms True by (intro index_no_wrap le_SucI)
  show ?thesis
  proof (cases "unat s + unat c \<le> unat (bm_size bm)")
    case False
    then show ?thesis
      by (simp add: bitmap_find_contiguous_free_from_def word_less_nat_alt sc first_fit_none)
  next
    case fits: True
    have "c \<noteq> 0" using assms(2) by auto
    with True fits show ?thesis
      using find_from_loop_first_fit [OF assms(1) True, of s]
      by (simp add: bitmap_find_contiguous_free_from_def word_less_nat_alt sc)
  qed
qed

lemma find_contiguous_free_first_fit:
  assumes "bm_wf bm" and "0 < unat c"
  shows "\<exists>r. bitmap_find_contiguous_free bm c = Some r \<and> first_fit bm 0 (unat c) r"
proof (cases "unat c \<le> unat (bm_size bm)")
  case False
  then show ?thesis
    by (auto simp: bitmap_find_contiguous_free_def word_less_nat_alt first_fit_def
        dest: free_run_0_size)
next
  case True
  have "c \<noteq> 0" using assms(2) by auto
  with True show ?thesis
    using find_loop_first_fit [OF assms(1) True, of 0]
    by (simp add: bitmap_find_contiguous_free_def word_less_nat_alt)
qed

lemma first_free_loop_first_fit:
  assumes "bm_wf bm"
  shows "unat i + n = unat (bm_size bm) \<Longrightarrow> first_fit bm (unat i) 1 (first_free_loop bm i n)"
proof (induction n arbitrary: i)
  case 0
  then show ?case by (simp add: first_fit_none)
next
  case (Suc n)
  have i1: "unat (i + 1) = Suc (unat i)"
    using Suc.prems assms by (intro unat_add_Suc64) (simp add: bm_wf_def)
  show ?case
  proof (cases "bitmap_test bm i")
    case True
    have "first_fit bm (Suc (unat i)) 1 (first_free_loop bm (i + 1) n)"
      using Suc.IH [of "i + 1"] Suc.prems by (simp add: i1)
    then have "first_fit bm (unat i) 1 (first_free_loop bm (i + 1) n)"
      by (rule first_fit_skip)
        (use True in \<open>simp_all add: not_free_runI [of "unat i"] bitmap_test_used\<close>)
    with True show ?thesis by simp
  next
    case False
    then have "free_run bm (unat i) 1"
      using Suc.prems by (simp add: free_run_def bitmap_test_used)
    with False assms show ?thesis by (simp add: first_fit_here)
  qed
qed

section \<open>Properties\<close>

text \<open>
  C13: the next-fit search that jumps over the marked bit it met finds, when it starts at
  bit 0, the same run as the reference search that advances one bit at a time, for every
  request size and every well-formed bitmap.
\<close>

theorem find_from_eq_find:
  assumes "bm_wf bm"
  shows "bitmap_find_contiguous_free_from bm count 0 = bitmap_find_contiguous_free bm count"
proof (cases "unat count = 0")
  case True
  then show ?thesis
    by (simp add: bitmap_find_contiguous_free_from_def bitmap_find_contiguous_free_def
        unat_eq_0)
next
  case False
  then have c: "0 < unat count" by simp
  from find_contiguous_free_from_first_fit [OF assms c, of 0]
    find_contiguous_free_first_fit [OF assms c]
  show ?thesis by (auto dest: first_fit_unique)
qed

theorem find_from_eq_find_witness:
  "bm_wf (bitmap_set (bitmap_init [255, 0] 12) 3) \<and>
   bitmap_find_contiguous_free_from (bitmap_set (bitmap_init [255, 0] 12) 3) 5 0
     = bitmap_find_contiguous_free (bitmap_set (bitmap_init [255, 0] 12) 3) 5"
proof -
  have wf: "bm_wf (bitmap_set (bitmap_init [255, 0] 12) 3)"
    by (simp add: bitmap_init_wf)
  then show ?thesis using find_from_eq_find [OF wf] by simp
qed

end
