(* ===== verification/Pmm.thy ===== *)
theory Pmm
  imports Bitmap
begin

text \<open>
  The physical page allocator of \<^verbatim>\<open>src/kernel/mm/pmm.c\<close> and \<^verbatim>\<open>src/include/pmm.h\<close>.
  The state \<open>pmm_t\<close> is the C structure without its spinlock: every operation takes the
  lock around all its accesses, so an operation is one atomic step here. The array
  \<open>reserved\<close> and its counter \<open>reserved_count\<close> are the list of the entries in use.
  Logging is left out. An operation whose \<open>assert\<close> fails stops the kernel
  (\<open>platform_panic\<close> does not return): its result is \<open>None\<close>.
\<close>

section \<open>State\<close>

record pmm_reserved_t =
  resv_start :: u64
  resv_end :: u64
  resv_tag :: string

record pmm_t =
  pm_bitmap :: bitmap_t
  start_addr :: u64
  total_size :: u64
  page_size :: u64
  total_pages :: u64
  free_pages :: u64
  reserved :: "pmm_reserved_t list"
  reserved_pages :: u64
  alloc_hint :: u64

abbreviation PMM_MAX_RESERVED_RANGES :: nat where
  "PMM_MAX_RESERVED_RANGES \<equiv> 16"

abbreviation PMM_BITMAP_MAX_BYTES :: nat where
  "PMM_BITMAP_MAX_BYTES \<equiv> 131072"

section \<open>Operations\<close>

text \<open>The accessors of \<^verbatim>\<open>pmm.h\<close>.\<close>

definition pmm_is_initialized :: "pmm_t \<Rightarrow> bool" where
  "pmm_is_initialized pm \<longleftrightarrow> total_pages pm \<noteq> 0"

definition pmm_get_free_pages :: "pmm_t \<Rightarrow> u64" where
  "pmm_get_free_pages pm = free_pages pm"

definition pmm_get_total_pages :: "pmm_t \<Rightarrow> u64" where
  "pmm_get_total_pages pm = total_pages pm"

definition pmm_init :: "u64 \<Rightarrow> u64 \<Rightarrow> u8 list \<Rightarrow> u64 \<Rightarrow> pmm_t option" where
  "pmm_init start sz bitmap_buffer bitmap_size =
     (if \<not> sz > 0 then None
      else let pages = sz div PAGE_SIZE
           in if \<not> bitmap_size \<ge> (pages + 7) div 8 then None
              else Some \<lparr>pm_bitmap = bitmap_init bitmap_buffer pages, start_addr = start,
                         total_size = sz, page_size = PAGE_SIZE, total_pages = pages,
                         free_pages = pages, reserved = [], reserved_pages = 0,
                         alloc_hint = 0\<rparr>)"

definition pmm_alloc_pages :: "pmm_t \<Rightarrow> u32 \<Rightarrow> (u64 \<times> pmm_t) option" where
  "pmm_alloc_pages pm page_count =
     (if \<not> page_count > 0 then None
      else do {
        page_index \<leftarrow> bitmap_find_contiguous_free_from (pm_bitmap pm) (ucast page_count) (alloc_hint pm);
        page_index \<leftarrow> (if page_index = NOT_FOUND \<and> alloc_hint pm \<noteq> 0
                       then bitmap_find_contiguous_free (pm_bitmap pm) (ucast page_count)
                       else Some page_index);
        if page_index \<noteq> NOT_FOUND
        then Some (start_addr pm + page_index * page_size pm,
                   pm\<lparr>pm_bitmap := bitmap_set_range (pm_bitmap pm) page_index (ucast page_count),
                      free_pages := free_pages pm - ucast page_count,
                      alloc_hint := page_index + ucast page_count\<rparr>)
        else Some (0, pm)
      })"

text \<open>The scan of \<open>pmm_free_pages\<close> for a page that is already free.\<close>

fun range_all_set :: "bitmap_t \<Rightarrow> u64 \<Rightarrow> nat \<Rightarrow> bool" where
  "range_all_set bm index 0 = True"
| "range_all_set bm index (Suc n) =
     (if \<not> bitmap_test bm index then False else range_all_set bm (index + 1) n)"

definition pmm_free_pages :: "pmm_t \<Rightarrow> u64 \<Rightarrow> u32 \<Rightarrow> (bool \<times> pmm_t) option" where
  "pmm_free_pages pm paddr page_count =
     (if \<not> page_count > 0 then None
      else if paddr AND (page_size pm - 1) \<noteq> 0 then Some (False, pm)
      else if paddr < start_addr pm \<or> paddr \<ge> start_addr pm + total_size pm then Some (False, pm)
      else let page_index = (paddr - start_addr pm) div page_size pm
      in if page_index \<ge> total_pages pm \<or> ucast page_count > total_pages pm - page_index
         then Some (False, pm)
      else let free_end = paddr + ucast page_count * page_size pm
      in case List.find (\<lambda>r. paddr < resv_end r \<and> free_end > resv_start r) (reserved pm) of
           Some r \<Rightarrow> Some (False, pm)
         | None \<Rightarrow>
             (if \<not> range_all_set (pm_bitmap pm) page_index (unat page_count) then Some (False, pm)
              else Some (True,
                pm\<lparr>pm_bitmap := bitmap_clear_loop (pm_bitmap pm) page_index (unat page_count),
                   free_pages := free_pages pm + ucast page_count\<rparr>)))"

text \<open>The marking loop of \<open>pmm_reserve\<close>: bitmap, free pages, newly marked pages.\<close>

fun reserve_loop :: "bitmap_t \<Rightarrow> u64 \<Rightarrow> nat \<Rightarrow> u64 \<Rightarrow> u64 \<Rightarrow> bitmap_t \<times> u64 \<times> u64" where
  "reserve_loop bm i 0 fp newly = (bm, fp, newly)"
| "reserve_loop bm i (Suc n) fp newly =
     (if \<not> bitmap_test bm i then reserve_loop (bitmap_set bm i) (i + 1) n (fp - 1) (newly + 1)
      else reserve_loop bm (i + 1) n fp newly)"

definition pmm_reserve :: "pmm_t \<Rightarrow> u64 \<Rightarrow> u64 \<Rightarrow> string \<Rightarrow> bool \<times> pmm_t" where
  "pmm_reserve pm s e tag =
     (if e \<le> s then (True, pm)
      else let s = ALIGN_DOWN s (page_size pm); e = ALIGN_UP e (page_size pm)
      in if s < start_addr pm \<or> e > start_addr pm + total_size pm then (False, pm)
      else let start_page = (s - start_addr pm) div page_size pm;
               end_page = (e - start_addr pm) div page_size pm
      in if length (reserved pm) \<ge> PMM_MAX_RESERVED_RANGES then (False, pm)
      else let (bm, fp, newly) = reserve_loop (pm_bitmap pm) start_page
                 (unat end_page - unat start_page) (free_pages pm) 0
      in (True, pm\<lparr>pm_bitmap := bm, free_pages := fp,
                   reserved := reserved pm @ [\<lparr>resv_start = s, resv_end = e, resv_tag = tag\<rparr>],
                   reserved_pages := reserved_pages pm + newly\<rparr>))"

text \<open>
  Boot: the platform configuration (\<^verbatim>\<open>platform_cfg.h\<close>) enters as arguments: RAM base and size,
  the reserve map with closed ranges \<open>(start, end, tag)\<close>, and the rootfs region. A
  refused kernel-image reservation stops the boot, the other refusals are only logged.
\<close>

fun reserve_platform :: "pmm_t \<Rightarrow> (u64 \<times> u64 \<times> string) list \<Rightarrow> pmm_t" where
  "reserve_platform pm [] = pm"
| "reserve_platform pm ((s, e, tag) # rs) = reserve_platform (snd (pmm_reserve pm s (e + 1) tag)) rs"

definition pmm_initialize ::
  "u64 \<Rightarrow> u64 \<Rightarrow> u8 list \<Rightarrow> (u64 \<times> u64 \<times> string) list \<Rightarrow> u64 \<Rightarrow> u64 \<Rightarrow> u64 \<Rightarrow> u64 \<Rightarrow> pmm_t option" where
  "pmm_initialize ram_base ram_size bitmap_buffer resv rootfs_base rootfs_size
     kernel_start_phys kernel_end_phys =
     do {
       pm \<leftarrow> pmm_init ram_base ram_size bitmap_buffer (of_nat (length bitmap_buffer));
       let (ok, pm) = pmm_reserve pm kernel_start_phys kernel_end_phys ''kernel-image'';
       if \<not> ok then None
       else let pm = reserve_platform pm resv
            in Some (snd (pmm_reserve pm rootfs_base (rootfs_base + rootfs_size) ''rootfs''))
     }"

section \<open>Invariant\<close>

abbreviation pm_used :: "pmm_t \<Rightarrow> nat set" where
  "pm_used pm \<equiv> bm_used (pm_bitmap pm)"

abbreviation npages :: "pmm_t \<Rightarrow> nat" where
  "npages pm \<equiv> unat (total_pages pm)"

text \<open>The physical address of page \<open>n\<close>, and the pages a byte range covers, as naturals.\<close>

definition page_addr :: "pmm_t \<Rightarrow> nat \<Rightarrow> nat" where
  "page_addr pm n = unat (start_addr pm) + n * 4096"

definition resv_pages :: "pmm_t \<Rightarrow> pmm_reserved_t \<Rightarrow> nat set" where
  "resv_pages pm r = {n. unat (resv_start r) \<le> page_addr pm n \<and> page_addr pm n < unat (resv_end r)}"

text \<open>The part of the invariant that no operation changes: geometry of the managed RAM.\<close>

definition pmm_geometry :: "pmm_t \<Rightarrow> bool" where
  "pmm_geometry pm \<longleftrightarrow>
     page_size pm = PAGE_SIZE \<and> bm_size (pm_bitmap pm) = total_pages pm \<and>
     unat (total_size pm) = npages pm * 4096 \<and> unat (start_addr pm) mod 4096 = 0 \<and>
     unat (start_addr pm) + unat (total_size pm) < 2 ^ 64"

definition resv_ok :: "pmm_t \<Rightarrow> pmm_reserved_t \<Rightarrow> bool" where
  "resv_ok pm r \<longleftrightarrow>
     unat (resv_start r) mod 4096 = 0 \<and> unat (resv_end r) mod 4096 = 0 \<and>
     unat (start_addr pm) \<le> unat (resv_start r) \<and> unat (resv_start r) < unat (resv_end r) \<and> unat (resv_end r) \<le> page_addr pm (npages pm) \<and>
     resv_pages pm r \<subseteq> pm_used pm"

text \<open>The pages of all reserved regions.\<close>

definition pm_pinned :: "pmm_t \<Rightarrow> nat set" where
  "pm_pinned pm = (\<Union>r \<in> set (reserved pm). resv_pages pm r)"

definition pmm_inv :: "pmm_t \<Rightarrow> bool" where
  "pmm_inv pm \<longleftrightarrow>
     pmm_geometry pm \<and> bm_wf (pm_bitmap pm) \<and>
     unat (free_pages pm) + card (pm_used pm) = npages pm \<and>
     unat (alloc_hint pm) \<le> npages pm \<and>
     length (reserved pm) \<le> PMM_MAX_RESERVED_RANGES \<and>
     (\<forall>r \<in> set (reserved pm). resv_ok pm r) \<and>
     unat (reserved_pages pm) \<le> card (pm_pinned pm)"

lemmas pmm_inv_defs = pmm_inv_def pmm_geometry_def

lemma pmm_invD:
  assumes "pmm_inv pm"
  shows "bm_wf (pm_bitmap pm)" "bm_size (pm_bitmap pm) = total_pages pm" "page_size pm = PAGE_SIZE"
    "unat (total_size pm) = npages pm * 4096" "unat (start_addr pm) mod 4096 = 0"
    "unat (start_addr pm) + npages pm * 4096 < 2 ^ 64"
    "unat (free_pages pm) + card (pm_used pm) = npages pm"
    "unat (alloc_hint pm) \<le> npages pm"
    "r \<in> set (reserved pm) \<Longrightarrow> resv_ok pm r"
    "unat (reserved_pages pm) \<le> card (pm_pinned pm)" "pm_pinned pm \<subseteq> pm_used pm"
  using assms by (auto simp: pmm_inv_defs pm_pinned_def resv_ok_def)

lemma resv_pages_update [simp]:
  "resv_pages (pm\<lparr>pm_bitmap := bm\<rparr>) r = resv_pages pm r"
  "resv_pages (pm\<lparr>free_pages := fp\<rparr>) r = resv_pages pm r"
  "resv_pages (pm\<lparr>alloc_hint := h\<rparr>) r = resv_pages pm r"
  "resv_pages (pm\<lparr>reserved := rs\<rparr>) r = resv_pages pm r"
  "resv_pages (pm\<lparr>reserved_pages := rp\<rparr>) r = resv_pages pm r"
  by (simp_all add: resv_pages_def page_addr_def)

lemma page_addr_update [simp]:
  "page_addr (pm\<lparr>pm_bitmap := bm\<rparr>) = page_addr pm"
  "page_addr (pm\<lparr>free_pages := fp\<rparr>) = page_addr pm"
  "page_addr (pm\<lparr>alloc_hint := h\<rparr>) = page_addr pm"
  "page_addr (pm\<lparr>reserved := rs\<rparr>) = page_addr pm"
  "page_addr (pm\<lparr>reserved_pages := rp\<rparr>) = page_addr pm"
  by (simp_all add: fun_eq_iff page_addr_def)

lemma pm_pinned_update [simp]:
  "pm_pinned (pm\<lparr>pm_bitmap := bm\<rparr>) = pm_pinned pm"
  "pm_pinned (pm\<lparr>free_pages := fp\<rparr>) = pm_pinned pm"
  "pm_pinned (pm\<lparr>alloc_hint := h\<rparr>) = pm_pinned pm"
  "pm_pinned (pm\<lparr>reserved_pages := rp\<rparr>) = pm_pinned pm"
  by (simp_all add: pm_pinned_def)

lemma pm_used_bound: "pmm_inv pm \<Longrightarrow> n \<in> pm_used pm \<Longrightarrow> n < npages pm"
  using bm_used_bound [of n "pm_bitmap pm"] by (simp add: pmm_inv_defs)

lemma page_addr_no_wrap:
  assumes "pmm_inv pm" and "unat i \<le> npages pm"
  shows "unat (start_addr pm + i * page_size pm) = page_addr pm (unat i)"
proof -
  have b: "unat i * 4096 \<le> npages pm * 4096" using assms(2) by simp
  have m: "unat (i * 4096) = unat i * 4096"
    using unat_mult64 [of i 4096] b pmm_invD(6) [OF assms(1)] by simp
  then have "unat (start_addr pm + i * 4096) = unat (start_addr pm) + unat i * 4096"
    using b pmm_invD(6) [OF assms(1)] unat_add64 [of "start_addr pm" "i * 4096"] by simp
  then show ?thesis
    by (simp add: page_addr_def pmm_invD(3) [OF assms(1)])
qed

lemma page_index_of:
  assumes "pmm_inv pm" and "unat paddr mod 4096 = 0" and "unat (start_addr pm) \<le> unat paddr"
  shows "unat ((paddr - start_addr pm) div page_size pm) = (unat paddr - unat (start_addr pm)) div 4096"
    and "page_addr pm ((unat paddr - unat (start_addr pm)) div 4096) = unat paddr"
proof -
  show "unat ((paddr - start_addr pm) div page_size pm) = (unat paddr - unat (start_addr pm)) div 4096"
    using assms(3)
    by (simp add: pmm_invD(3) [OF assms(1)] unat_div_distrib unat_sub word_le_nat_alt)
  have "(unat paddr - unat (start_addr pm)) mod 4096 = 0"
    using assms(2,3) pmm_invD(5) [OF assms(1)] by (metis mod_0_imp_dvd dvd_diff_nat dvd_imp_mod_0)
  then have "(unat paddr - unat (start_addr pm)) div 4096 * 4096 = unat paddr - unat (start_addr pm)"
    by (metis add_0_right div_mult_mod_eq)
  then show "page_addr pm ((unat paddr - unat (start_addr pm)) div 4096) = unat paddr"
    using assms(3) by (simp add: page_addr_def)
qed

section \<open>Initialisation\<close>

lemma pmm_init_inv:
  assumes "pmm_init start sz buf bsz = Some pm"
    and "unat start mod 4096 = 0" and "unat sz mod 4096 = 0" and "unat start + unat sz < 2 ^ 64"
    and "unat bsz = length buf"
  shows "pmm_inv pm \<and> pm_used pm = {} \<and> reserved pm = [] \<and> start_addr pm = start \<and>
    npages pm = unat sz div 4096 \<and> unat (reserved_pages pm) = 0"
proof -
  define pages where "pages = sz div 4096"
  have pages: "unat pages = unat sz div 4096" by (simp add: pages_def unat_div_distrib)
  then have "unat pages < 9223372036854775808" using unat_lt64 [of sz] by linarith
  then have lt: "unat pages < 2 ^ 63" by simp
  have "unat (pages + 7) = unat pages + 7" using lt unat_add64 [of pages 7] by simp
  moreover have "(pages + 7) div 8 \<le> bsz"
    using assms(1) by (auto simp: pmm_init_def Let_def pages_def split: if_splits)
  ultimately have "(unat pages + 7) div 8 \<le> length buf"
    using assms(5) by (simp add: word_le_nat_alt unat_div_distrib)
  then have "unat pages \<le> 8 * length buf" by linarith
  note bm = bitmap_init_wf [OF this lt] bitmap_init_used [OF this lt]
  have sz: "unat sz = unat pages * 4096" using assms(3) pages by (metis add_0_right div_mult_mod_eq)
  then have "unat sz div 4096 = unat pages" by simp
  with sz assms(1,2,4) bm show ?thesis
    by (auto simp: pmm_init_def Let_def pages_def [symmetric] pmm_inv_defs split: if_splits)
qed

section \<open>Allocation\<close>

text \<open>
  Every outcome of an allocation: a free run is taken, or nothing changes and no run of
  that length is free. The result is never \<open>None\<close>: the search loops end.
\<close>

definition alloc_at :: "pmm_t \<Rightarrow> nat \<Rightarrow> u32 \<Rightarrow> u64 \<Rightarrow> pmm_t \<Rightarrow> bool" where
  "alloc_at pm n c r pm' \<longleftrightarrow>
     free_run (pm_bitmap pm) n (unat c) \<and> unat r = page_addr pm n \<and>
     pm_used pm' = pm_used pm \<union> {n..<n + unat c} \<and>
     unat (free_pages pm') = unat (free_pages pm) - unat c \<and>
     pm' = pm\<lparr>pm_bitmap := pm_bitmap pm', free_pages := free_pages pm', alloc_hint := alloc_hint pm'\<rparr>"

lemma card_free_run:
  assumes "pmm_inv pm" and "free_run (pm_bitmap pm) n c"
  shows "c \<le> unat (free_pages pm)"
    and "card (pm_used pm \<union> {n..<n + c}) = card (pm_used pm) + c"
proof -
  show c: "card (pm_used pm \<union> {n..<n + c}) = card (pm_used pm) + c"
    using assms(2) by (subst card_Un_disjoint) (auto simp: free_run_def)
  have "pm_used pm \<union> {n..<n + c} \<subseteq> {0..<npages pm}"
    using assms(2) pm_used_bound [OF assms(1)]
    by (auto simp: free_run_def pmm_invD(2) [OF assms(1)])
  from card_mono [OF _ this] c show "c \<le> unat (free_pages pm)"
    using pmm_invD(7) [OF assms(1)] by simp
qed

lemma resv_ok_mono:
  assumes "resv_ok pm r" and "start_addr pm' = start_addr pm" and "total_pages pm' = total_pages pm"
    and "resv_pages pm r \<subseteq> pm_used pm'"
  shows "resv_ok pm' r"
  using assms by (simp add: resv_ok_def resv_pages_def page_addr_def)

lemma alloc_at_take:
  assumes inv: "pmm_inv pm" and fr: "free_run (pm_bitmap pm) (unat i) (unat c)"
  shows "alloc_at pm (unat i) c (start_addr pm + i * page_size pm)
      (pm\<lparr>pm_bitmap := bitmap_set_range (pm_bitmap pm) i (ucast c),
          free_pages := free_pages pm - ucast c, alloc_hint := i + ucast c\<rparr>)"
    and "pmm_inv (pm\<lparr>pm_bitmap := bitmap_set_range (pm_bitmap pm) i (ucast c),
          free_pages := free_pages pm - ucast c, alloc_hint := i + ucast c\<rparr>)" (is "pmm_inv ?pm'")
proof -
  note wf = pmm_invD(1) [OF inv] and sz = pmm_invD(2) [OF inv]
  have fits: "unat i + unat (ucast c :: u64) \<le> unat (bm_size (pm_bitmap pm))"
    using fr by (simp add: free_run_def)
  have used: "pm_used ?pm' = pm_used pm \<union> {unat i..<unat i + unat c}"
    using bm_used_set_range [OF wf fits] by simp
  note cfr = card_free_run [OF inv fr]
  have fp: "unat (free_pages ?pm') = unat (free_pages pm) - unat c"
    using cfr(1) by (simp add: unat_sub word_le_nat_alt)
  have hint: "unat (i + ucast c) = unat i + unat c"
    using range_no_wrap [OF wf fits] by simp
  have "unat (start_addr pm + i * page_size pm) = page_addr pm (unat i)"
    using fits sz by (intro page_addr_no_wrap [OF inv]) simp
  with fr used fp show "alloc_at pm (unat i) c (start_addr pm + i * page_size pm) ?pm'"
    by (simp add: alloc_at_def)
  have "resv_ok ?pm' r" if "r \<in> set (reserved pm)" for r
  proof (rule resv_ok_mono [OF pmm_invD(9) [OF inv that]])
    show "resv_pages pm r \<subseteq> pm_used ?pm'"
      using pmm_invD(9) [OF inv that] unfolding used by (simp add: resv_ok_def le_supI1)
  qed simp_all
  moreover have "unat (free_pages ?pm') + card (pm_used ?pm') = npages ?pm'"
    using fp used cfr pmm_invD(7) [OF inv] by simp
  ultimately show "pmm_inv ?pm'"
    using inv wf fits sz hint by (simp add: pmm_inv_defs)
qed

lemma pmm_alloc_cases:
  assumes inv: "pmm_inv pm" and c: "0 < c"
  obtains (fit) r pm' n where "pmm_alloc_pages pm c = Some (r, pm')" "alloc_at pm n c r pm'"
      "pmm_inv pm'"
  | (full) "pmm_alloc_pages pm c = Some (0, pm)" "\<And>n. \<not> free_run (pm_bitmap pm) n (unat c)"
proof -
  let ?bm = "pm_bitmap pm" and ?c = "ucast c :: u64"
  note wf = pmm_invD(1) [OF inv]
  have c': "0 < unat ?c" using c by (simp add: word_less_nat_alt)
  obtain r where r: "bitmap_find_contiguous_free_from ?bm ?c (alloc_hint pm) = Some r"
      "first_fit ?bm (unat (alloc_hint pm)) (unat c) r"
    using find_contiguous_free_from_first_fit [OF wf c', of "alloc_hint pm"] pmm_invD(2,8) [OF inv]
    by auto
  obtain r' where r': "bitmap_find_contiguous_free ?bm ?c = Some r'" "first_fit ?bm 0 (unat c) r'"
    using find_contiguous_free_first_fit [OF wf c'] by auto
  define i where "i = (if r = NOT_FOUND \<and> alloc_hint pm \<noteq> 0 then r' else r)"
  have i: "if i = NOT_FOUND then \<forall>s. \<not> free_run ?bm s (unat c) else free_run ?bm (unat i) (unat c)"
    using r(2) r'(2) by (auto simp: i_def first_fit_def)
  have run: "pmm_alloc_pages pm c = (if i \<noteq> NOT_FOUND
      then Some (start_addr pm + i * page_size pm,
        pm\<lparr>pm_bitmap := bitmap_set_range ?bm i ?c, free_pages := free_pages pm - ?c,
           alloc_hint := i + ?c\<rparr>)
      else Some (0, pm))"
    using c by (auto simp: pmm_alloc_pages_def r(1) r'(1) i_def)
  show thesis
  proof (cases "i = NOT_FOUND")
    case True
    with i run show thesis by (intro full) simp_all
  next
    case False
    with i run show thesis by (intro fit [OF _ alloc_at_take [OF inv]]) simp_all
  qed
qed

section \<open>Reserved regions as page intervals\<close>

lemma page_addr_less [simp]: "page_addr pm m < page_addr pm n \<longleftrightarrow> m < n"
  by (simp add: page_addr_def)

lemma page_addr_le [simp]: "page_addr pm m \<le> page_addr pm n \<longleftrightarrow> m \<le> n"
  by (simp add: page_addr_def)

lemma page_addr_inject [simp]: "page_addr pm m = page_addr pm n \<longleftrightarrow> m = n"
  by (simp add: page_addr_def)

lemma page_addr_ex:
  assumes "pmm_inv pm" and "x mod 4096 = 0" and "unat (start_addr pm) \<le> x"
  obtains n where "x = page_addr pm n"
proof -
  have "(x - unat (start_addr pm)) mod 4096 = 0"
    using assms(2,3) pmm_invD(5) [OF assms(1)] by (metis mod_0_imp_dvd dvd_diff_nat dvd_imp_mod_0)
  then have "(x - unat (start_addr pm)) div 4096 * 4096 = x - unat (start_addr pm)"
    by (metis add_0_right div_mult_mod_eq)
  with assms(3) have "x = page_addr pm ((x - unat (start_addr pm)) div 4096)"
    by (simp add: page_addr_def)
  then show thesis by (rule that)
qed

lemma resv_ok_interval:
  assumes "pmm_inv pm" and "resv_ok pm r"
  obtains a b where "a < b" "b \<le> npages pm" "unat (resv_start r) = page_addr pm a"
    "unat (resv_end r) = page_addr pm b" "resv_pages pm r = {a..<b}"
proof -
  have ok: "unat (resv_start r) mod 4096 = 0" "unat (start_addr pm) \<le> unat (resv_start r)"
      "unat (resv_end r) mod 4096 = 0" "unat (start_addr pm) \<le> unat (resv_end r)"
    using assms(2) unfolding resv_ok_def by linarith+
  obtain a where a: "unat (resv_start r) = page_addr pm a"
    using page_addr_ex [OF assms(1) ok(1,2)] by blast
  obtain b where b: "unat (resv_end r) = page_addr pm b"
    using page_addr_ex [OF assms(1) ok(3,4)] by blast
  show thesis
    using assms(2) by (intro that [OF _ _ a b]) (auto simp: resv_ok_def resv_pages_def a b)
qed

lemma resv_overlap_iff:
  assumes "pmm_inv pm" and "resv_ok pm r" and "0 < c"
  shows "page_addr pm n < unat (resv_end r) \<and> unat (resv_start r) < page_addr pm (n + c) \<longleftrightarrow>
    resv_pages pm r \<inter> {n..<n + c} \<noteq> {}"
proof -
  obtain a b where ab: "a < b" "unat (resv_start r) = page_addr pm a"
      "unat (resv_end r) = page_addr pm b" "resv_pages pm r = {a..<b}"
    using resv_ok_interval [OF assms(1,2)] by metis
  have "n < b \<and> a < n + c \<longleftrightarrow> max a n \<in> {a..<b} \<inter> {n..<n + c}"
    using ab(1) assms(3) by auto
  also have "\<dots> \<longleftrightarrow> {a..<b} \<inter> {n..<n + c} \<noteq> {}" by auto
  finally show ?thesis by (simp add: ab)
qed

section \<open>Release\<close>

lemma range_all_set_iff:
  "bm_wf bm \<Longrightarrow> unat i + n \<le> unat (bm_size bm) \<Longrightarrow>
   range_all_set bm i n \<longleftrightarrow> {unat i..<unat i + n} \<subseteq> bm_used bm"
proof (induction n arbitrary: i)
  case 0
  then show ?case by simp
next
  case (Suc n)
  have i1: "unat (i + 1) = Suc (unat i)"
    using Suc.prems by (intro bm.index_Suc [of bm]) simp_all
  have "range_all_set bm (i + 1) n \<longleftrightarrow> {Suc (unat i)..<Suc (unat i) + n} \<subseteq> bm_used bm"
    using Suc.IH [of "i + 1"] Suc.prems by (simp add: i1)
  then show ?case
    unfolding interval_Suc by (simp add: bitmap_test_used)
qed

text \<open>
  A release request is valid when it names whole allocated pages of the managed RAM,
  none of them in a reserved region.
\<close>

definition free_ok :: "pmm_t \<Rightarrow> u64 \<Rightarrow> u32 \<Rightarrow> nat \<Rightarrow> bool" where
  "free_ok pm paddr c n \<longleftrightarrow>
     unat paddr = page_addr pm n \<and> n + unat c \<le> npages pm \<and> {n..<n + unat c} \<subseteq> pm_used pm \<and>
     (\<forall>r \<in> set (reserved pm). resv_pages pm r \<inter> {n..<n + unat c} = {})"

definition free_at :: "pmm_t \<Rightarrow> nat \<Rightarrow> u32 \<Rightarrow> pmm_t \<Rightarrow> bool" where
  "free_at pm n c pm' \<longleftrightarrow>
     pm_used pm' = pm_used pm - {n..<n + unat c} \<and>
     unat (free_pages pm') = unat (free_pages pm) + unat c \<and>
     pm' = pm\<lparr>pm_bitmap := pm_bitmap pm', free_pages := free_pages pm'\<rparr>"

lemma free_at_clear:
  assumes inv: "pmm_inv pm" and ok: "free_ok pm paddr c (unat i)"
  defines "pm' \<equiv> pm\<lparr>pm_bitmap := bitmap_clear_loop (pm_bitmap pm) i (unat c),
                    free_pages := free_pages pm + ucast c\<rparr>"
  shows "free_at pm (unat i) c pm'" and "pmm_inv pm'"
proof -
  note wf = pmm_invD(1) [OF inv] and sz = pmm_invD(2) [OF inv]
  let ?I = "{unat i..<unat i + unat c}"
  have fits: "unat i + unat c \<le> unat (bm_size (pm_bitmap pm))" and sub: "?I \<subseteq> pm_used pm"
    using ok sz by (simp_all add: free_ok_def)
  have used: "pm_used pm' = pm_used pm - ?I"
    using bm_used_clear_loop [OF wf fits] by (simp add: pm'_def)
  have card: "card (pm_used pm') + unat c = card (pm_used pm)"
    using card_Diff_subset [OF _ sub] card_mono [OF _ sub] by (simp add: used)
  then have "unat (free_pages pm) + unat (ucast c :: u64) < 2 ^ 64"
    using pmm_invD(7) [OF inv] unat_lt64 [of "total_pages pm"] by simp
  then have fp: "unat (free_pages pm') = unat (free_pages pm) + unat c"
    using unat_add64 [of "free_pages pm" "ucast c"] by (simp add: pm'_def)
  show "free_at pm (unat i) c pm'"
    by (simp add: free_at_def used fp) (simp add: pm'_def)
  have "resv_ok pm' r" if r: "r \<in> set (reserved pm)" for r
  proof (rule resv_ok_mono [OF pmm_invD(9) [OF inv r]])
    show "resv_pages pm r \<subseteq> pm_used pm'"
      using pmm_invD(9) [OF inv r] ok r unfolding used resv_ok_def free_ok_def by blast
  qed (simp_all add: pm'_def)
  moreover have "unat (free_pages pm') + card (pm_used pm') = npages pm"
    using fp card pmm_invD(7) [OF inv] by linarith
  ultimately show "pmm_inv pm'"
    using inv wf sz by (simp add: pmm_inv_defs pm'_def)
qed

lemma find_None_reserved:
  assumes inv: "pmm_inv pm" and c: "0 < unat c" and fits: "n + unat c \<le> npages pm"
    and p: "unat paddr = page_addr pm n"
  shows "List.find (\<lambda>r. paddr < resv_end r \<and> paddr + ucast (c :: u32) * page_size pm > resv_start r)
      (reserved pm) = None
    \<longleftrightarrow> (\<forall>r \<in> set (reserved pm). resv_pages pm r \<inter> {n..<n + unat c} = {})"
proof -
  have bound: "page_addr pm (n + unat c) < 2 ^ 64"
  proof -
    have "page_addr pm (n + unat c) \<le> page_addr pm (npages pm)" using fits by simp
    with pmm_invD(6) [OF inv] show ?thesis by (simp add: page_addr_def)
  qed
  have "unat (ucast c * 4096 :: u64) = unat c * 4096"
    using bound unat_mult64 [of "ucast c" 4096] by (simp add: page_addr_def)
  then have e: "unat (paddr + ucast c * page_size pm) = page_addr pm (n + unat c)"
    using bound p unat_add64 [of paddr "ucast c * 4096"]
    by (simp add: page_addr_def pmm_invD(3) [OF inv] algebra_simps)
  have "paddr < resv_end r \<and> paddr + ucast c * page_size pm > resv_start r \<longleftrightarrow>
      resv_pages pm r \<inter> {n..<n + unat c} \<noteq> {}" if "r \<in> set (reserved pm)" for r
    using resv_overlap_iff [OF inv pmm_invD(9) [OF inv that] c, of n]
    by (simp only: word_less_nat_alt e p)
  then show ?thesis
    unfolding find_None_iff by blast
qed

lemma page_aligned_test:
  "pmm_inv pm \<Longrightarrow> paddr AND (page_size pm - 1) = 0 \<longleftrightarrow> unat paddr mod 4096 = 0"
  by (simp add: pmm_invD(3) unat_and_page_mask [symmetric] unat_eq_0)

lemma ram_top:
  "pmm_inv pm \<Longrightarrow> unat (start_addr pm + total_size pm) = page_addr pm (npages pm)"
  using pmm_invD(4,6) [of pm] unat_add64 [of "start_addr pm" "total_size pm"]
  by (simp add: page_addr_def)

lemma page_addr_aligned: "pmm_inv pm \<Longrightarrow> page_addr pm n mod 4096 = 0"
  using pmm_invD(5) [of pm] by (simp add: page_addr_def mod_add_eq [symmetric])

text \<open>A request that does not name a page of the managed RAM is refused.\<close>

lemma pmm_free_no_page:
  assumes inv: "pmm_inv pm" and c: "0 < c" and "\<And>n. n < npages pm \<Longrightarrow> unat paddr \<noteq> page_addr pm n"
  shows "pmm_free_pages pm paddr c = Some (False, pm)"
proof (cases "unat paddr mod 4096 = 0 \<and> unat (start_addr pm) \<le> unat paddr")
  case True
  then obtain n where n: "unat paddr = page_addr pm n"
    by (elim conjE page_addr_ex [OF inv, of "unat paddr"]) blast
  with assms(3) have "page_addr pm (npages pm) \<le> unat paddr" by (auto simp: not_less [symmetric])
  then show ?thesis
    using c by (simp add: pmm_free_pages_def word_le_nat_alt ram_top [OF inv])
next
  case False
  then show ?thesis
    using c page_aligned_test [OF inv, of paddr]
    by (auto simp: pmm_free_pages_def word_less_nat_alt not_le)
qed

lemma pmm_free_page:
  assumes inv: "pmm_inv pm" and c: "0 < c" and n: "unat paddr = page_addr pm n" "n < npages pm"
  shows "\<exists>i. unat i = n \<and> pmm_free_pages pm paddr c =
    (if free_ok pm paddr c n
     then Some (True, pm\<lparr>pm_bitmap := bitmap_clear_loop (pm_bitmap pm) i (unat c),
                         free_pages := free_pages pm + ucast c\<rparr>)
     else Some (False, pm))"
proof (intro exI conjI)
  let ?i = "(paddr - start_addr pm) div page_size pm"
  have al: "unat paddr mod 4096 = 0" using n(1) page_addr_aligned [OF inv] by simp
  have lo: "unat (start_addr pm) \<le> unat paddr" using n(1) by (simp add: page_addr_def)
  show i: "unat ?i = n"
    using page_index_of(1) [OF inv al lo] n(1) by (simp add: page_addr_def)
  have guards: "\<not> paddr < start_addr pm" "\<not> paddr \<ge> start_addr pm + total_size pm"
      "\<not> ?i \<ge> total_pages pm" "paddr AND (page_size pm - 1) = 0"
    using lo n i al ram_top [OF inv] page_aligned_test [OF inv]
    by (simp_all add: word_less_nat_alt word_le_nat_alt)
  have room: "ucast c > total_pages pm - ?i \<longleftrightarrow> \<not> n + unat c \<le> npages pm"
    using n(2) i by (auto simp: word_less_nat_alt unat_sub word_le_nat_alt)
  have c': "0 < unat c" using c by (simp add: word_less_nat_alt)
  show "pmm_free_pages pm paddr c =
    (if free_ok pm paddr c n
     then Some (True, pm\<lparr>pm_bitmap := bitmap_clear_loop (pm_bitmap pm) ?i (unat c),
                         free_pages := free_pages pm + ucast c\<rparr>)
     else Some (False, pm))"
  proof (cases "n + unat c \<le> npages pm")
    case False
    with c guards room show ?thesis by (simp add: pmm_free_pages_def free_ok_def)
  next
    case True
    have sets: "range_all_set (pm_bitmap pm) ?i (unat c) \<longleftrightarrow> {n..<n + unat c} \<subseteq> pm_used pm"
      using range_all_set_iff [OF pmm_invD(1) [OF inv], of ?i "unat c"] True i
      by (simp add: pmm_invD(2) [OF inv])
    show ?thesis
      using c guards room True n(1) sets find_None_reserved [OF inv c' True n(1)]
      by (auto simp: pmm_free_pages_def free_ok_def Let_def split: option.splits)
  qed
qed

lemma pmm_free_cases:
  assumes inv: "pmm_inv pm" and c: "0 < c"
  obtains (ok) n pm' where "pmm_free_pages pm paddr c = Some (True, pm')" "free_ok pm paddr c n"
      "free_at pm n c pm'" "pmm_inv pm'"
  | (refused) "pmm_free_pages pm paddr c = Some (False, pm)" "\<And>n. \<not> free_ok pm paddr c n"
proof (cases "\<exists>n < npages pm. unat paddr = page_addr pm n")
  case False
  have "n < npages pm \<and> unat paddr = page_addr pm n" if "free_ok pm paddr c n" for n
    using that c by (auto simp: free_ok_def word_less_nat_alt)
  with False show thesis
    using pmm_free_no_page [OF inv c] by (intro refused) blast+
next
  case True
  then obtain n where n: "unat paddr = page_addr pm n" "n < npages pm" by blast
  from pmm_free_page [OF inv c this] obtain i where i: "unat i = n"
    and run: "pmm_free_pages pm paddr c =
      (if free_ok pm paddr c n
       then Some (True, pm\<lparr>pm_bitmap := bitmap_clear_loop (pm_bitmap pm) i (unat c),
                           free_pages := free_pages pm + ucast c\<rparr>)
       else Some (False, pm))"
    by blast
  show thesis
  proof (cases "free_ok pm paddr c n")
    case True
    with i have "free_ok pm paddr c (unat i)" by simp
    from free_at_clear [OF inv this] True i show thesis
      by (intro ok [OF _ True]) (simp_all add: run)
  next
    case False
    moreover have "free_ok pm paddr c m \<Longrightarrow> m = n" for m using n by (simp add: free_ok_def)
    ultimately show thesis by (intro refused) (auto simp: run)
  qed
qed

section \<open>Reservation\<close>

lemma reserve_loop_spec:
  assumes "bm_wf bm" and "unat i + n \<le> unat (bm_size bm)"
    and "card ({unat i..<unat i + n} - bm_used bm) \<le> unat fp" and "unat newly + n < 2 ^ 64"
  shows "\<exists>bm' fp' newly'. reserve_loop bm i n fp newly = (bm', fp', newly') \<and>
    bm_wf bm' \<and> bm_size bm' = bm_size bm \<and> bm_used bm' = bm_used bm \<union> {unat i..<unat i + n} \<and>
    unat fp' = unat fp - card ({unat i..<unat i + n} - bm_used bm) \<and>
    unat newly' = unat newly + card ({unat i..<unat i + n} - bm_used bm)"
  using assms
proof (induction n arbitrary: bm i fp newly)
  case 0
  then show ?case by simp
next
  case (Suc n)
  let ?J = "{Suc (unat i)..<Suc (unat i) + n}"
  have i1: "unat (i + 1) = Suc (unat i)" and ilt: "unat i < unat (bm_size bm)"
    using Suc.prems by (simp_all add: bm.index_Suc [of bm])
  show ?case
  proof (cases "unat i \<in> bm_used bm")
    case True
    then have J: "{unat i..<unat i + Suc n} - bm_used bm = ?J - bm_used bm"
        "bm_used bm \<union> {unat i..<unat i + Suc n} = bm_used bm \<union> ?J"
      unfolding interval_Suc by blast+
    with True Suc.IH [of bm "i + 1" fp newly] Suc.prems i1 show ?thesis
      by (simp add: bitmap_test_used J)
  next
    case False
    have wf': "bm_wf (bitmap_set bm i)" and used': "bm_used (bitmap_set bm i) = insert (unat i) (bm_used bm)"
      using Suc.prems ilt by (simp_all add: bm_used_set)
    have D: "{unat i..<unat i + Suc n} - bm_used bm = insert (unat i) (?J - bm_used (bitmap_set bm i))"
      and U: "bm_used bm \<union> {unat i..<unat i + Suc n} = bm_used (bitmap_set bm i) \<union> ?J"
      unfolding interval_Suc used' using False by auto
    have "unat i \<notin> ?J - bm_used (bitmap_set bm i)" by simp
    then have card: "card ({unat i..<unat i + Suc n} - bm_used bm) = Suc (card (?J - bm_used (bitmap_set bm i)))"
      unfolding D by (intro card_insert_disjoint) simp_all
    have fp1: "unat (fp - 1) = unat fp - 1"
      using Suc.prems(3) card by (subst unat_sub) (simp_all add: word_le_nat_alt)
    have nw1: "unat (newly + 1) = Suc (unat newly)"
      using Suc.prems(4) by (intro unat_add_Suc64) simp
    from Suc.IH [of "bitmap_set bm i" "i + 1" "fp - 1" "newly + 1"] Suc.prems wf' card U
    show ?thesis
      by (simp add: bitmap_test_used False i1 fp1 nw1)
  qed
qed

lemma card_new_pages:
  assumes "pmm_inv pm" and "J \<subseteq> {0..<npages pm}"
  shows "card (J - pm_used pm) \<le> unat (free_pages pm)"
    and "unat (free_pages pm) - card (J - pm_used pm) + card (pm_used pm \<union> J) = npages pm"
proof -
  have fin: "finite (J - pm_used pm)" using assms(2) by (meson finite_Diff finite_atLeastLessThan finite_subset)
  have "card (pm_used pm \<union> (J - pm_used pm)) = card (pm_used pm) + card (J - pm_used pm)"
    using fin by (intro card_Un_disjoint) auto
  then have c: "card (pm_used pm \<union> J) = card (pm_used pm) + card (J - pm_used pm)" by simp
  have "pm_used pm \<subseteq> {0..<npages pm}"
    using pm_used_bound [OF assms(1)] by (simp add: subset_iff)
  with assms(2) have "pm_used pm \<union> J \<subseteq> {0..<npages pm}" by (rule Un_least [rotated])
  from card_mono [OF finite_atLeastLessThan this] have "card (pm_used pm \<union> J) \<le> npages pm" by simp
  with c pmm_invD(7) [OF assms(1)] show "card (J - pm_used pm) \<le> unat (free_pages pm)"
    "unat (free_pages pm) - card (J - pm_used pm) + card (pm_used pm \<union> J) = npages pm" by linarith+
qed

text \<open>
  \<open>reserved_at pm s e pm'\<close>: the pages that meet the byte range \<open>[s, e)\<close> are marked, the range
  is in the table, and only the newly marked pages are counted.
\<close>

definition touched_pages :: "pmm_t \<Rightarrow> u64 \<Rightarrow> u64 \<Rightarrow> nat set" where
  "touched_pages pm s e = {n. page_addr pm n < unat e \<and> unat s < page_addr pm (Suc n)}"

definition reserved_at :: "pmm_t \<Rightarrow> u64 \<Rightarrow> u64 \<Rightarrow> string \<Rightarrow> pmm_t \<Rightarrow> bool" where
  "reserved_at pm s e tag pm' \<longleftrightarrow>
     pm_used pm' = pm_used pm \<union> touched_pages pm s e \<and>
     unat (reserved_pages pm') = unat (reserved_pages pm) + card (touched_pages pm s e - pm_used pm) \<and>
     (\<exists>r. reserved pm' = reserved pm @ [r] \<and> resv_pages pm r = touched_pages pm s e \<and> resv_tag r = tag) \<and>
     pm' = pm\<lparr>pm_bitmap := pm_bitmap pm', free_pages := free_pages pm', reserved := reserved pm',
              reserved_pages := reserved_pages pm'\<rparr>"

lemma touched_pages_interval:
  assumes inv: "pmm_inv pm" and se: "s < e" and nw: "unat e + 4095 < 2 ^ 64"
    and range: "\<not> ALIGN_DOWN s PAGE_SIZE < start_addr pm"
      "\<not> ALIGN_UP e PAGE_SIZE > start_addr pm + total_size pm"
  defines "a \<equiv> (ALIGN_DOWN s PAGE_SIZE - start_addr pm) div page_size pm"
    and "b \<equiv> (ALIGN_UP e PAGE_SIZE - start_addr pm) div page_size pm"
  shows "unat (ALIGN_DOWN s PAGE_SIZE) = page_addr pm (unat a)"
    "unat (ALIGN_UP e PAGE_SIZE) = page_addr pm (unat b)"
    "unat a < unat b" "unat b \<le> npages pm"
    "touched_pages pm s e = {unat a..<unat b}"
proof -
  have D: "unat (ALIGN_DOWN s PAGE_SIZE) = unat s div 4096 * 4096"
    and U: "unat (ALIGN_UP e PAGE_SIZE) = (unat e + 4095) div 4096 * 4096"
    using nw by (simp_all add: unat_ALIGN_DOWN unat_ALIGN_UP)
  have se': "unat s < unat e" using se by (simp add: word_less_nat_alt)
  have lt: "unat s div 4096 * 4096 < (unat e + 4095) div 4096 * 4096" using se' by linarith
  have lo: "unat (start_addr pm) \<le> unat (ALIGN_DOWN s PAGE_SIZE)"
      "unat (start_addr pm) \<le> unat (ALIGN_UP e PAGE_SIZE)"
    using range(1) lt D U by (simp_all add: word_less_nat_alt)
  note idx = page_index_of [OF inv]
  show A: "unat (ALIGN_DOWN s PAGE_SIZE) = page_addr pm (unat a)"
    unfolding a_def using idx [of "ALIGN_DOWN s PAGE_SIZE"] lo(1) D by simp
  show B: "unat (ALIGN_UP e PAGE_SIZE) = page_addr pm (unat b)"
    unfolding b_def using idx [of "ALIGN_UP e PAGE_SIZE"] lo(2) U by simp
  from lt have "page_addr pm (unat a) < page_addr pm (unat b)" by (simp only: A [symmetric] B [symmetric] D U)
  then show "unat a < unat b" by simp
  show "unat b \<le> npages pm"
    using range(2) B ram_top [OF inv] by (simp add: word_less_nat_alt)
  have "page_addr pm n < unat e \<longleftrightarrow> n < unat b" for n
    using aligned_less_round_up [OF page_addr_aligned [OF inv], of n "unat e"]
    by (simp only: U [symmetric] B page_addr_less)
  moreover have "unat s < page_addr pm (Suc n) \<longleftrightarrow> unat a \<le> n" for n
    using round_down_less_aligned [OF page_addr_aligned [OF inv], of "unat s" "Suc n"]
    by (simp only: D [symmetric] A page_addr_less less_Suc_eq_le)
  ultimately show "touched_pages pm s e = {unat a..<unat b}"
    by (auto simp: touched_pages_def)
qed

lemma pmm_inv_reserve:
  fixes rp :: u64
  assumes inv: "pmm_inv pm" and bm: "bm_wf bm" "bm_size bm = bm_size (pm_bitmap pm)"
      "bm_used bm = pm_used pm \<union> {a..<b}"
    and fp: "unat fp = unat (free_pages pm) - card ({a..<b} - pm_used pm)"
    and rp: "unat rp = unat (reserved_pages pm) + card ({a..<b} - pm_used pm)"
    and ab: "a < b" "b \<le> npages pm" and len: "length (reserved pm) < PMM_MAX_RESERVED_RANGES"
    and r: "unat (resv_start r) = page_addr pm a" "unat (resv_end r) = page_addr pm b"
  defines "pm' \<equiv> pm\<lparr>pm_bitmap := bm, free_pages := fp, reserved := reserved pm @ [r], reserved_pages := rp\<rparr>"
  shows "pmm_inv pm'" and "resv_pages pm r = {a..<b}"
proof -
  show R: "resv_pages pm r = {a..<b}" by (auto simp: resv_pages_def r)
  have "{a..<b} \<subseteq> {0..<npages pm}" using ab(2) by auto
  note card = card_new_pages [OF inv this]
  have "resv_ok pm' x" if x: "x \<in> set (reserved pm)" for x
  proof (rule resv_ok_mono [OF pmm_invD(9) [OF inv x]])
    have "resv_pages pm x \<subseteq> pm_used pm" using pmm_invD(9) [OF inv x] by (simp add: resv_ok_def)
    then show "resv_pages pm x \<subseteq> pm_used pm'" by (auto simp: pm'_def bm(3))
  qed (simp_all add: pm'_def)
  moreover have "resv_ok pm' r"
    using page_addr_aligned [OF inv] ab R
    by (simp add: resv_ok_def r pm'_def bm(3) page_addr_def)
  moreover have "unat fp + card (pm_used pm') = npages pm"
    using card(2) by (simp add: pm'_def bm(3) fp)
  moreover have "unat rp \<le> card (pm_pinned pm')"
  proof -
    have "finite (pm_pinned pm)" using pmm_invD(11) [OF inv] finite_subset finite_bm_used by blast
    then have "card (pm_pinned pm) + card ({a..<b} - pm_used pm) = card (pm_pinned pm \<union> ({a..<b} - pm_used pm))"
      using pmm_invD(11) [OF inv] by (subst card_Un_disjoint) auto
    also have "\<dots> \<le> card (pm_pinned pm \<union> {a..<b})"
      using \<open>finite (pm_pinned pm)\<close> by (intro card_mono) auto
    finally show ?thesis
      using pmm_invD(10) [OF inv] rp by (simp add: pm_pinned_def pm'_def R Un_commute)
  qed
  ultimately show "pmm_inv pm'"
    using inv bm(1,2) len by (simp add: pmm_inv_defs pm'_def)
qed

lemma pmm_reserve_cases:
  assumes inv: "pmm_inv pm" and nw: "unat e + 4095 < 2 ^ 64"
  obtains (empty) "pmm_reserve pm s e tag = (True, pm)" "e \<le> s"
  | (refused) "pmm_reserve pm s e tag = (False, pm)" "s < e"
  | (ok) pm' where "pmm_reserve pm s e tag = (True, pm')" "s < e" "reserved_at pm s e tag pm'"
      "pmm_inv pm'"
proof -
  let ?s = "ALIGN_DOWN s PAGE_SIZE" and ?e = "ALIGN_UP e PAGE_SIZE"
  let ?a = "(?s - start_addr pm) div page_size pm" and ?b = "(?e - start_addr pm) div page_size pm"
  note ps = pmm_invD(3) [OF inv]
  consider "e \<le> s" | "s < e" "?s < start_addr pm \<or> ?e > start_addr pm + total_size pm \<or>
      length (reserved pm) \<ge> PMM_MAX_RESERVED_RANGES"
    | "s < e" "\<not> ?s < start_addr pm" "\<not> ?e > start_addr pm + total_size pm"
      "length (reserved pm) < PMM_MAX_RESERVED_RANGES"
    by fastforce
  then show thesis
  proof cases
    case 1
    then show thesis by (intro empty) (simp_all add: pmm_reserve_def)
  next
    case 2
    then show thesis by (intro refused) (auto simp: pmm_reserve_def Let_def ps)
  next
    case 3
    note iv = touched_pages_interval [OF inv 3(1) nw 3(2,3)]
    define n where "n = unat ?b - unat ?a"
    have ab: "{unat ?a..<unat ?a + n} = {unat ?a..<unat ?b}" using iv(3) by (simp add: n_def)
    have sub: "{unat ?a..<unat ?b} \<subseteq> {0..<npages pm}" using iv(4) by auto
    note card = card_new_pages [OF inv sub]
    have "unat (0 :: u64) + n < 2 ^ 64" using unat_lt64 [of ?b] by (simp add: n_def)
    moreover have "unat ?a + n \<le> unat (bm_size (pm_bitmap pm))"
      using iv(3,4) pmm_invD(2) [OF inv] by (simp add: n_def)
    ultimately obtain bm fp nw where loop: "reserve_loop (pm_bitmap pm) ?a n (free_pages pm) 0 = (bm, fp, nw)"
        "bm_wf bm" "bm_size bm = bm_size (pm_bitmap pm)" "bm_used bm = pm_used pm \<union> {unat ?a..<unat ?b}"
        "unat fp = unat (free_pages pm) - card ({unat ?a..<unat ?b} - pm_used pm)"
        "unat nw = card ({unat ?a..<unat ?b} - pm_used pm)"
      using reserve_loop_spec [OF pmm_invD(1) [OF inv], of ?a n "free_pages pm" 0] card(1)
      unfolding ab by auto
    define r where "r = \<lparr>resv_start = ?s, resv_end = ?e, resv_tag = tag\<rparr>"
    define pm' where "pm' = pm\<lparr>pm_bitmap := bm, free_pages := fp, reserved := reserved pm @ [r],
                               reserved_pages := reserved_pages pm + nw\<rparr>"
    have r: "unat (resv_start r) = page_addr pm (unat ?a)" "unat (resv_end r) = page_addr pm (unat ?b)"
      using iv(1,2) by (simp_all add: r_def)
    have "unat (reserved_pages pm) \<le> card (pm_used pm)"
      using pmm_invD(10,11) [OF inv] card_mono [OF finite_bm_used] le_trans by blast
    then have "unat (reserved_pages pm) + unat nw < 2 ^ 64"
      using card pmm_invD(7) [OF inv] unat_lt64 [of "total_pages pm"] loop(6) by simp
    then have rp: "unat (reserved_pages pm + nw) = unat (reserved_pages pm) + unat nw"
      using unat_add64 [of "reserved_pages pm" nw] by simp
    note inv' = pmm_inv_reserve [OF inv loop(2-5) rp [unfolded loop(6)] iv(3,4) 3(4) r]
    have run: "pmm_reserve pm s e tag = (True, pm')"
      using 3 loop(1) by (simp add: pmm_reserve_def Let_def ps n_def pm'_def r_def)
    show thesis
      using rp inv' loop(4,6) iv(5)
      by (intro ok [OF run 3(1)]) (auto simp: reserved_at_def pm'_def r_def)
  qed
qed

section \<open>The interface of a page allocator\<close>

text \<open>
  What the heap, the shared-page table and the page-table code rely on. \<open>held\<close> are the
  addresses of the pages that are handed out or reserved, \<open>pinned\<close> those of the reserved
  ones, \<open>page_range p c\<close> the addresses of \<open>c\<close> pages from \<open>p\<close> on.
\<close>

definition page_range :: "u64 \<Rightarrow> u32 \<Rightarrow> nat set" where
  "page_range p c = (\<lambda>k. unat p + k * 4096) ` {0..<unat c}"

lemma page_range_1 [simp]: "page_range p 1 = {unat p}"
  by (simp add: page_range_def)

locale page_allocator =
  fixes ready :: "'s \<Rightarrow> bool"
    and held :: "'s \<Rightarrow> nat set"
    and pinned :: "'s \<Rightarrow> nat set"
    and alloc :: "'s \<Rightarrow> u32 \<Rightarrow> (u64 \<times> 's) option"
    and release :: "'s \<Rightarrow> u64 \<Rightarrow> u32 \<Rightarrow> (bool \<times> 's) option"
  assumes alloc_returns: "ready s \<Longrightarrow> 0 < c \<Longrightarrow> \<exists>r s'. alloc s c = Some (r, s')"
    and alloc_fresh: "ready s \<Longrightarrow> 0 < c \<Longrightarrow> alloc s c = Some (r, s') \<Longrightarrow> r \<noteq> 0 \<Longrightarrow>
      page_range r c \<inter> held s = {} \<and> held s' = held s \<union> page_range r c \<and> pinned s' = pinned s \<and>
      unat r mod 4096 = 0 \<and> ready s'"
    and alloc_none: "ready s \<Longrightarrow> 0 < c \<Longrightarrow> alloc s c = Some (0, s') \<Longrightarrow> s' = s"
    and release_returns: "ready s \<Longrightarrow> 0 < c \<Longrightarrow> \<exists>b s'. release s p c = Some (b, s')"
    and release_accepts: "ready s \<Longrightarrow> 0 < c \<Longrightarrow> release s p c = Some (b, s') \<Longrightarrow>
      b \<longleftrightarrow> page_range p c \<subseteq> held s - pinned s"
    and release_effect: "ready s \<Longrightarrow> 0 < c \<Longrightarrow> release s p c = Some (True, s') \<Longrightarrow>
      held s' = held s - page_range p c \<and> pinned s' = pinned s \<and> ready s'"
    and release_refused: "ready s \<Longrightarrow> 0 < c \<Longrightarrow> release s p c = Some (False, s') \<Longrightarrow> s' = s"
    and pinned_held: "ready s \<Longrightarrow> pinned s \<subseteq> held s"
begin

lemma alloc_ready: "ready s \<Longrightarrow> 0 < c \<Longrightarrow> alloc s c = Some (r, s') \<Longrightarrow> ready s' \<and> pinned s' = pinned s"
  using alloc_fresh [of s c r s'] alloc_none [of s c s'] by (cases "r = 0") simp_all

lemma release_ready: "ready s \<Longrightarrow> 0 < c \<Longrightarrow> release s p c = Some (b, s') \<Longrightarrow> ready s' \<and> pinned s' = pinned s"
  using release_effect [of s c p s'] release_refused [of s c p s'] by (cases b) simp_all

text \<open>What was handed out can be given back, once, and that restores the allocator's pages.\<close>

lemma alloc_release:
  assumes "ready s" "0 < c" "alloc s c = Some (r, s1)" "r \<noteq> 0"
  shows "\<exists>s2. release s1 r c = Some (True, s2) \<and> held s2 = held s \<and> pinned s2 = pinned s \<and> ready s2"
proof -
  note f = alloc_fresh [OF assms]
  then obtain b s2 where r: "release s1 r c = Some (b, s2)"
    using release_returns assms(2) by blast
  have "page_range r c \<subseteq> held s1 - pinned s1"
    using f pinned_held [OF assms(1)] by blast
  then have b using release_accepts r f assms(2) by blast
  with r f release_effect [of s1 c r s2] assms(2) show ?thesis by auto
qed

lemma release_twice:
  assumes "ready s" "0 < c" "release s p c = Some (True, s1)"
  shows "release s1 p c = Some (False, s1)"
proof -
  note e = release_effect [OF assms]
  then obtain b s2 where r: "release s1 p c = Some (b, s2)"
    using release_returns assms(2) by blast
  have "unat p \<in> page_range p c"
    using assms(2) by (auto simp: page_range_def word_less_nat_alt)
  then have "\<not> b" using release_accepts [OF _ assms(2) r] e by blast
  with r release_refused [of s1 c p s2] e assms(2) show ?thesis by simp
qed

lemma alloc_disjoint:
  assumes "ready s" "0 < c" "alloc s c = Some (r, s1)" "r \<noteq> 0"
    "0 < c'" "alloc s1 c' = Some (r', s2)" "r' \<noteq> 0"
  shows "page_range r c \<inter> page_range r' c' = {}"
  using alloc_fresh [OF assms(1-4)] alloc_fresh [of s1 c' r' s2] assms(5-7) by blast

lemma alloc_not_pinned:
  "ready s \<Longrightarrow> 0 < c \<Longrightarrow> alloc s c = Some (r, s1) \<Longrightarrow> r \<noteq> 0 \<Longrightarrow> page_range r c \<inter> pinned s = {}"
  using alloc_fresh pinned_held by blast

end

subsection \<open>The physical memory manager provides it\<close>

definition pmm_ready :: "pmm_t \<Rightarrow> bool" where
  "pmm_ready pm \<longleftrightarrow> pmm_inv pm \<and> start_addr pm \<noteq> 0"

definition pmm_held :: "pmm_t \<Rightarrow> nat set" where
  "pmm_held pm = page_addr pm ` pm_used pm"

definition pmm_pinned :: "pmm_t \<Rightarrow> nat set" where
  "pmm_pinned pm = page_addr pm ` pm_pinned pm"

lemma inj_page_addr: "inj (page_addr pm)"
  by (simp add: inj_def)

lemma page_range_image:
  assumes "unat p = page_addr pm n"
  shows "page_range p c = page_addr pm ` {n..<n + unat c}"
proof -
  have "page_range p c = (\<lambda>k. page_addr pm (n + k)) ` {0..<unat c}"
    by (simp add: page_range_def assms page_addr_def add_mult_distrib add.assoc)
  also have "\<dots> = page_addr pm ` ((\<lambda>k. n + k) ` {0..<unat c})"
    by (simp only: image_image)
  also have "(\<lambda>k. n + k) ` {0..<unat c} = {n..<n + unat c}"
    using image_add_atLeastLessThan [of n 0 "unat c"] by (simp add: add.commute)
  finally show ?thesis .
qed

lemma free_ok_iff:
  assumes inv: "pmm_inv pm" and c: "0 < unat c"
  shows "(\<exists>n. free_ok pm p c n) \<longleftrightarrow> page_range p c \<subseteq> pmm_held pm - pmm_pinned pm"
proof
  assume "\<exists>n. free_ok pm p c n"
  then obtain n where n: "free_ok pm p c n" ..
  then have "page_range p c = page_addr pm ` {n..<n + unat c}"
    by (intro page_range_image) (simp add: free_ok_def)
  moreover have "{n..<n + unat c} \<subseteq> pm_used pm - pm_pinned pm"
    using n unfolding free_ok_def pm_pinned_def by blast
  ultimately show "page_range p c \<subseteq> pmm_held pm - pmm_pinned pm"
    by (simp add: pmm_held_def pmm_pinned_def image_set_diff [OF inj_page_addr, symmetric] image_mono)
next
  assume sub: "page_range p c \<subseteq> pmm_held pm - pmm_pinned pm"
  moreover have "unat p \<in> page_range p c" using c by (auto simp: page_range_def)
  ultimately obtain n where n: "unat p = page_addr pm n"
    by (auto simp: pmm_held_def)
  from sub have "page_addr pm ` {n..<n + unat c} \<subseteq> page_addr pm ` (pm_used pm - pm_pinned pm)"
    by (simp add: page_range_image [OF n] pmm_held_def pmm_pinned_def
        image_set_diff [OF inj_page_addr, symmetric])
  then have s: "{n..<n + unat c} \<subseteq> pm_used pm - pm_pinned pm"
    by (simp add: inj_image_subset_iff [OF inj_page_addr])
  moreover have "n + unat c - 1 \<in> {n..<n + unat c}" using c by simp
  ultimately have "n + unat c - 1 < npages pm" using pm_used_bound [OF inv] by blast
  with s n c show "\<exists>n. free_ok pm p c n"
    by (intro exI [of _ n]) (auto simp: free_ok_def pm_pinned_def)
qed

interpretation pmm: page_allocator pmm_ready pmm_held pmm_pinned pmm_alloc_pages pmm_free_pages
proof
  fix s c
  assume s: "pmm_ready s" and c: "0 < (c :: u32)"
  then have inv: "pmm_inv s" and nz: "start_addr s \<noteq> 0" by (simp_all add: pmm_ready_def)
  have c': "0 < unat c" using c by (simp add: word_less_nat_alt)
  show "\<exists>r s'. pmm_alloc_pages s c = Some (r, s')"
    using inv c by (cases rule: pmm_alloc_cases) auto
  show "page_range r c \<inter> pmm_held s = {} \<and> pmm_held s' = pmm_held s \<union> page_range r c \<and>
      pmm_pinned s' = pmm_pinned s \<and> unat r mod 4096 = 0 \<and> pmm_ready s'"
    if run: "pmm_alloc_pages s c = Some (r, s')" and r: "r \<noteq> 0" for r s'
    using inv c
  proof (cases rule: pmm_alloc_cases)
    case (fit r0 pm' n)
    with run have eq: "r0 = r" "pm' = s'" by simp_all
    note at = fit(2) [unfolded eq alloc_at_def]
    then obtain bm fp h where s': "s' = s\<lparr>pm_bitmap := bm, free_pages := fp, alloc_hint := h\<rparr>" by metis
    have pr: "page_range r c = page_addr s ` {n..<n + unat c}" using at by (simp add: page_range_image)
    have "page_addr s ` {n..<n + unat c} \<inter> page_addr s ` pm_used s = {}"
      using at by (simp add: image_Int [OF inj_page_addr, symmetric] free_run_def)
    moreover have "pmm_held s' = page_addr s ` pm_used s'" by (simp add: pmm_held_def s')
    ultimately show ?thesis
      using at fit(3) nz page_addr_aligned [OF inv]
      by (auto simp: pr pmm_held_def pmm_pinned_def pmm_ready_def eq s' image_Un)
  next
    case full
    with run r show ?thesis by simp
  qed
  show "s' = s" if run: "pmm_alloc_pages s c = Some (0, s')" for s'
    using inv c
  proof (cases rule: pmm_alloc_cases)
    case (fit r0 pm' n)
    with run have "unat (0 :: u64) = page_addr s n" by (simp add: alloc_at_def)
    with nz show ?thesis by (simp add: page_addr_def unat_eq_0)
  next
    case full
    with run show ?thesis by simp
  qed
  fix p
  show "\<exists>b s'. pmm_free_pages s p c = Some (b, s')"
    using inv c by (cases rule: pmm_free_cases [of s c p]) auto
  show "b \<longleftrightarrow> page_range p c \<subseteq> pmm_held s - pmm_pinned s"
    if run: "pmm_free_pages s p c = Some (b, s')" for b s'
    unfolding free_ok_iff [OF inv c', symmetric]
    using inv c by (cases rule: pmm_free_cases [of s c p]) (use run in auto)
  show "pmm_held s' = pmm_held s - page_range p c \<and> pmm_pinned s' = pmm_pinned s \<and> pmm_ready s'"
    if run: "pmm_free_pages s p c = Some (True, s')" for s'
    using inv c
  proof (cases rule: pmm_free_cases [of s c p])
    case (ok n pm')
    with run have eq: "pm' = s'" by simp
    note at = ok(3) [unfolded eq free_at_def]
    then obtain bm fp where s': "s' = s\<lparr>pm_bitmap := bm, free_pages := fp\<rparr>" by metis
    have "page_range p c = page_addr s ` {n..<n + unat c}"
      using ok(2) by (simp add: page_range_image free_ok_def)
    with at ok(4) nz show ?thesis
      by (simp add: pmm_held_def pmm_pinned_def pmm_ready_def eq s' image_set_diff [OF inj_page_addr])
  next
    case refused
    with run show ?thesis by simp
  qed
  show "s' = s" if run: "pmm_free_pages s p c = Some (False, s')" for s'
    using inv c by (cases rule: pmm_free_cases [of s c p]) (use run in auto)
next
  fix s
  assume "pmm_ready s"
  then show "pmm_pinned s \<subseteq> pmm_held s"
    using pmm_invD(11) [of s] by (auto simp: pmm_ready_def pmm_held_def pmm_pinned_def)
qed

section \<open>Runs of the allocator\<close>

text \<open>Any interleaving of allocations, releases and reservations from a given state.\<close>

inductive pmm_reach :: "pmm_t \<Rightarrow> pmm_t \<Rightarrow> bool" for pm0 where
  start: "pmm_reach pm0 pm0"
| alloc: "pmm_reach pm0 pm \<Longrightarrow> pmm_alloc_pages pm c = Some (r, pm') \<Longrightarrow> pmm_reach pm0 pm'"
| free: "pmm_reach pm0 pm \<Longrightarrow> pmm_free_pages pm p c = Some (b, pm') \<Longrightarrow> pmm_reach pm0 pm'"
| reserve: "pmm_reach pm0 pm \<Longrightarrow> unat e + 4095 < 2 ^ 64 \<Longrightarrow> pmm_reserve pm s e tag = (b, pm') \<Longrightarrow>
    pmm_reach pm0 pm'"

text \<open>One operation keeps the invariant, the RAM base and the reserved pages.\<close>

definition pmm_keeps :: "pmm_t \<Rightarrow> pmm_t \<Rightarrow> bool" where
  "pmm_keeps pm pm' \<longleftrightarrow>
     pmm_inv pm' \<and> start_addr pm' = start_addr pm \<and> total_pages pm' = total_pages pm \<and>
     pm_pinned pm \<subseteq> pm_pinned pm'"

lemma pmm_keeps_refl: "pmm_inv pm \<Longrightarrow> pmm_keeps pm pm"
  by (simp add: pmm_keeps_def)

lemma pmm_keeps_trans: "pmm_keeps a b \<Longrightarrow> pmm_keeps b c \<Longrightarrow> pmm_keeps a c"
  by (auto simp: pmm_keeps_def)

lemma pmm_alloc_keeps:
  assumes "pmm_inv pm" and "pmm_alloc_pages pm c = Some (r, pm')"
  shows "pmm_keeps pm pm'"
proof -
  have c: "0 < c" using assms(2) by (auto simp: pmm_alloc_pages_def split: if_splits)
  from assms(1) c show ?thesis
  proof (cases rule: pmm_alloc_cases)
    case (fit r0 pm0 n)
    with assms(2) have eq: "pm0 = pm'" by simp
    from fit(2) obtain bm fp h where "pm' = pm\<lparr>pm_bitmap := bm, free_pages := fp, alloc_hint := h\<rparr>"
      unfolding eq alloc_at_def by metis
    with fit(3) eq show ?thesis by (simp add: pmm_keeps_def)
  next
    case full
    with assms show ?thesis by (simp add: pmm_keeps_refl)
  qed
qed

lemma pmm_free_keeps:
  assumes "pmm_inv pm" and "pmm_free_pages pm p c = Some (b, pm')"
  shows "pmm_keeps pm pm'"
proof -
  have c: "0 < c" using assms(2) by (auto simp: pmm_free_pages_def split: if_splits)
  from assms(1) c show ?thesis
  proof (cases rule: pmm_free_cases [of pm c p])
    case (ok n pm0)
    with assms(2) have eq: "pm0 = pm'" by simp
    from ok(3) obtain bm fp where "pm' = pm\<lparr>pm_bitmap := bm, free_pages := fp\<rparr>"
      unfolding eq free_at_def by metis
    with ok(4) eq show ?thesis by (simp add: pmm_keeps_def)
  next
    case refused
    with assms show ?thesis by (simp add: pmm_keeps_refl)
  qed
qed

lemma reserved_at_pinned:
  assumes "reserved_at pm s e tag pm'"
  shows "start_addr pm' = start_addr pm" "total_pages pm' = total_pages pm"
    "pm_pinned pm' = pm_pinned pm \<union> touched_pages pm s e"
proof -
  obtain r where r: "reserved pm' = reserved pm @ [r]" "resv_pages pm r = touched_pages pm s e"
    and upd: "pm' = pm\<lparr>pm_bitmap := pm_bitmap pm', free_pages := free_pages pm', reserved := reserved pm',
                reserved_pages := reserved_pages pm'\<rparr>"
    using assms unfolding reserved_at_def by blast
  then obtain bm fp rs rp where pm': "pm' = pm\<lparr>pm_bitmap := bm, free_pages := fp, reserved := rs, reserved_pages := rp\<rparr>"
    by metis
  show "start_addr pm' = start_addr pm" "total_pages pm' = total_pages pm" by (simp_all add: pm')
  show "pm_pinned pm' = pm_pinned pm \<union> touched_pages pm s e"
    using r by (auto simp: pm_pinned_def pm')
qed

lemma pmm_reserve_keeps:
  assumes "pmm_inv pm" and "unat e + 4095 < 2 ^ 64" and "pmm_reserve pm s e tag = (b, pm')"
  shows "pmm_keeps pm pm'"
  using assms(1,2)
proof (cases rule: pmm_reserve_cases [of pm e s tag])
  case (ok pm0)
  with assms(3) reserved_at_pinned [OF ok(3)] show ?thesis by (simp add: pmm_keeps_def)
qed (use assms in \<open>simp_all add: pmm_keeps_refl\<close>)

lemma pmm_reach_keeps: "pmm_reach pm0 pm \<Longrightarrow> pmm_inv pm0 \<Longrightarrow> pmm_keeps pm0 pm"
proof (induction rule: pmm_reach.induct)
  case start
  then show ?case by (rule pmm_keeps_refl)
next
  case (alloc pm c r pm')
  then show ?case by (meson pmm_alloc_keeps pmm_keeps_def pmm_keeps_trans)
next
  case (free pm p c b pm')
  then show ?case by (meson pmm_free_keeps pmm_keeps_def pmm_keeps_trans)
next
  case (reserve pm e s tag b pm')
  then show ?case by (meson pmm_reserve_keeps pmm_keeps_def pmm_keeps_trans)
qed

lemma reserve_platform_keeps:
  "pmm_inv pm \<Longrightarrow> \<forall>(s, e, tag) \<in> set rs. unat e + 4096 < 2 ^ 64 \<Longrightarrow> pmm_keeps pm (reserve_platform pm rs)"
proof (induction pm rs rule: reserve_platform.induct)
  case (1 pm)
  then show ?case by (simp add: pmm_keeps_refl)
next
  case (2 pm s e tag rs)
  have "unat (e + 1) = Suc (unat e)" using 2(3) by (intro unat_add_Suc64) simp
  then have "unat (e + 1) + 4095 < 2 ^ 64" using 2(3) by simp
  then have k: "pmm_keeps pm (snd (pmm_reserve pm s (e + 1) tag))"
    by (rule pmm_reserve_keeps [OF 2(2) _ prod.collapse [symmetric]])
  then have "pmm_keeps (snd (pmm_reserve pm s (e + 1) tag)) (reserve_platform (snd (pmm_reserve pm s (e + 1) tag)) rs)"
    using 2(3) by (intro 2(1)) (auto simp: pmm_keeps_def)
  with k show ?case by (simp add: pmm_keeps_trans)
qed

lemma pmm_initialize_pinned:
  assumes run: "pmm_initialize base sz buf resv rb rs ks ke = Some pm0"
    and geo: "unat base mod 4096 = 0" "unat sz mod 4096 = 0" "unat base + unat sz < 2 ^ 64"
      "length buf < 2 ^ 64"
    and nw: "unat ke + 4095 < 2 ^ 64" "\<forall>(s, e, tag) \<in> set resv. unat e + 4096 < 2 ^ 64"
      "unat (rb + rs) + 4095 < 2 ^ 64"
    and k: "ks < ke"
  shows "pmm_inv pm0 \<and> start_addr pm0 = base \<and> touched_pages pm0 ks ke \<subseteq> pm_pinned pm0"
proof -
  obtain pm1 where init: "pmm_init base sz buf (of_nat (length buf)) = Some pm1"
    using run by (auto simp: pmm_initialize_def bind_eq_Some_conv)
  obtain b pm2 where eq: "pmm_reserve pm1 ks ke ''kernel-image'' = (b, pm2)" by (rule prod.exhaust)
  have res: "pmm_reserve pm1 ks ke ''kernel-image'' = (True, pm2)"
    and pm0: "pm0 = snd (pmm_reserve (reserve_platform pm2 resv) rb (rb + rs) ''rootfs'')"
    using run eq by (simp_all add: pmm_initialize_def init split: if_splits)
  have i1: "pmm_inv pm1" "start_addr pm1 = base"
    using pmm_init_inv [OF init geo(1-3)] geo(4) by (simp_all add: unat_of_nat64)
  have r2: "reserved_at pm1 ks ke ''kernel-image'' pm2" "pmm_inv pm2"
    using i1(1) nw(1) by (cases rule: pmm_reserve_cases [of pm1 ke ks "''kernel-image''"]; use res k in auto)+
  note p2 = reserved_at_pinned [OF r2(1)]
  have "pmm_keeps pm2 (reserve_platform pm2 resv)" using r2(2) nw(2) by (rule reserve_platform_keeps)
  moreover from this have "pmm_keeps (reserve_platform pm2 resv) pm0"
    unfolding pm0 pmm_keeps_def [of pm2] by (blast intro: pmm_reserve_keeps [OF _ nw(3) prod.collapse [symmetric]])
  ultimately have "pmm_keeps pm2 pm0" by (rule pmm_keeps_trans)
  with p2 i1 show ?thesis
    by (auto simp: pmm_keeps_def touched_pages_def page_addr_def)
qed

text \<open>An example state for the witnesses: eight pages of RAM from \<open>0x80000000\<close> on.\<close>

definition pmm8 :: pmm_t where
  "pmm8 = the (pmm_init 0x80000000 0x8000 [0] 1)"

lemma pmm8_init: "pmm_init 0x80000000 0x8000 [0] 1 = Some pmm8"
  by (simp add: pmm8_def pmm_init_def Let_def)

lemma pmm8_inv: "pmm_inv pmm8" "start_addr pmm8 \<noteq> 0" "pm_used pmm8 = {}" "npages pmm8 = 8"
  "reserved pmm8 = []"
  using pmm_init_inv [OF pmm8_init] by (simp_all add: pmm8_def pmm_init_def)

section \<open>Properties\<close>

text \<open>
  C2: an allocation request always returns. It hands out a run of pages that was free, so it
  overlaps no page in use and no reserved page, records exactly this run, and lowers the
  count of free pages by its length; it fails, changing nothing, exactly when no run of
  that length is free anywhere in RAM, so next-fit with wrap-around misses no hole. The
  invariant is kept.
\<close>

theorem pmm_alloc_correct:
  assumes "pmm_inv pm" and "start_addr pm \<noteq> 0" and "0 < c"
  shows "\<exists>r pm'. pmm_alloc_pages pm c = Some (r, pm') \<and> pmm_inv pm' \<and>
    (if \<exists>n. free_run (pm_bitmap pm) n (unat c)
     then r \<noteq> 0 \<and> (\<exists>n. free_run (pm_bitmap pm) n (unat c) \<and> unat r = page_addr pm n \<and>
            pm_used pm' = pm_used pm \<union> {n..<n + unat c} \<and>
            unat (free_pages pm') = unat (free_pages pm) - unat c)
     else r = 0 \<and> pm' = pm)"
  using assms(1,3)
proof (cases rule: pmm_alloc_cases)
  case (fit r pm' n)
  from fit(2) assms(2) have "r \<noteq> 0"
    by (auto simp: alloc_at_def page_addr_def unat_eq_0)
  with fit show ?thesis unfolding alloc_at_def by auto
next
  case full
  with assms(1) show ?thesis by simp
qed

theorem pmm_alloc_correct_witness:
  "\<exists>r pm'. pmm_alloc_pages pmm8 3 = Some (r, pm') \<and> pmm_inv pm' \<and>
    (if \<exists>n. free_run (pm_bitmap pmm8) n 3
     then r \<noteq> 0 \<and> (\<exists>n. free_run (pm_bitmap pmm8) n 3 \<and> unat r = page_addr pmm8 n \<and>
            pm_used pm' = pm_used pmm8 \<union> {n..<n + 3} \<and>
            unat (free_pages pm') = unat (free_pages pmm8) - 3)
     else r = 0 \<and> pm' = pmm8)"
proof -
  have "0 < (3 :: u32)" and three: "unat (3 :: u32) = 3" by simp_all
  from pmm_alloc_correct [OF pmm8_inv(1,2) this(1)] show ?thesis by (simp only: three)
qed

text \<open>
  C3: a release succeeds exactly when every page it names is in use and none lies in a
  reserved region; then exactly these pages become free and the free count rises by their
  number. A refused release (wrong address, reserved region, any page already free)
  changes nothing, not even for the pages that could have been released.
\<close>

theorem pmm_free_correct:
  assumes "pmm_inv pm" and "0 < c"
  shows "\<exists>b pm'. pmm_free_pages pm p c = Some (b, pm') \<and> pmm_inv pm' \<and>
    (b \<longleftrightarrow> page_range p c \<subseteq> pmm_held pm - pmm_pinned pm) \<and>
    (if b then pmm_held pm' = pmm_held pm - page_range p c \<and>
               unat (free_pages pm') = unat (free_pages pm) + unat c
     else pm' = pm)"
  using assms
proof (cases rule: pmm_free_cases [of pm c p])
  case (ok n pm')
  have c: "0 < unat c" using assms(2) by (simp add: word_less_nat_alt)
  from ok(3) obtain bm fp where pm': "pm' = pm\<lparr>pm_bitmap := bm, free_pages := fp\<rparr>"
    unfolding free_at_def by metis
  have "page_range p c = page_addr pm ` {n..<n + unat c}"
    using ok(2) by (simp add: page_range_image free_ok_def)
  then have "pmm_held pm' = pmm_held pm - page_range p c"
    using ok(3) by (simp add: pmm_held_def pm' free_at_def image_set_diff [OF inj_page_addr])
  moreover have "page_range p c \<subseteq> pmm_held pm - pmm_pinned pm"
    using free_ok_iff [OF assms(1) c, of p] ok(2) by blast
  moreover have "unat (free_pages pm') = unat (free_pages pm) + unat c"
    using ok(3) by (simp add: free_at_def)
  ultimately show ?thesis
    using ok(1,4) by (intro exI [of _ True] exI [of _ pm']) simp
next
  case refused
  have c: "0 < unat c" using assms(2) by (simp add: word_less_nat_alt)
  from refused free_ok_iff [OF assms(1) c, of p] assms(1) show ?thesis
    by (intro exI [of _ False] exI [of _ pm]) simp
qed

theorem pmm_free_correct_witness:
  "\<exists>b pm'. pmm_free_pages pmm8 0x80001000 2 = Some (b, pm') \<and> pmm_inv pm' \<and>
    (b \<longleftrightarrow> page_range 0x80001000 2 \<subseteq> pmm_held pmm8 - pmm_pinned pmm8) \<and>
    (if b then pmm_held pm' = pmm_held pmm8 - page_range 0x80001000 2 \<and>
               unat (free_pages pm') = unat (free_pages pmm8) + 2
     else pm' = pmm8)"
proof -
  have "0 < (2 :: u32)" and two: "unat (2 :: u32) = 2" by simp_all
  from pmm_free_correct [where p = "0x80001000", OF pmm8_inv(1) this(1)] show ?thesis by (simp only: two)
qed



text \<open>
  C1: after boot, whatever sequence of allocations, releases (valid or not) and further
  reservations follows, no allocation ever hands out memory that overlaps the kernel
  image: the reserved pages cannot be released and are never free.
\<close>

theorem kernel_image_never_allocated:
  assumes "pmm_initialize base sz buf resv rb rs ks ke = Some pm0"
    and "unat base mod 4096 = 0" "unat sz mod 4096 = 0" "unat base + unat sz < 2 ^ 64" "base \<noteq> 0"
      "length buf < 2 ^ 64"
    and "unat ke + 4095 < 2 ^ 64" "\<forall>(s, e, tag) \<in> set resv. unat e + 4096 < 2 ^ 64"
      "unat (rb + rs) + 4095 < 2 ^ 64"
    and "ks < ke" and reach: "pmm_reach pm0 pm"
    and run: "pmm_alloc_pages pm c = Some (r, pm')" and r: "r \<noteq> 0"
  shows "unat r + unat c * 4096 \<le> unat ks \<or> unat ke \<le> unat r"
proof -
  have i0: "pmm_inv pm0" "start_addr pm0 = base" "touched_pages pm0 ks ke \<subseteq> pm_pinned pm0"
    using pmm_initialize_pinned [OF assms(1-4,6-10)] by simp_all
  from pmm_reach_keeps [OF reach i0(1)] i0
  have i: "pmm_inv pm" "start_addr pm = base" "touched_pages pm ks ke \<subseteq> pm_pinned pm"
    by (auto simp: pmm_keeps_def touched_pages_def page_addr_def)
  have c: "0 < c" using run by (auto simp: pmm_alloc_pages_def split: if_splits)
  from i(1) c show ?thesis
  proof (cases rule: pmm_alloc_cases)
    case (fit r0 pm1 n)
    with run have "r0 = r" by simp
    with fit(2) have n: "unat r = page_addr pm n" "{n..<n + unat c} \<inter> pm_used pm = {}"
      by (simp_all add: alloc_at_def free_run_def)
    have free: "m \<notin> touched_pages pm ks ke" if "n \<le> m" "m < n + unat c" for m
      using n(2) that i(3) pmm_invD(11) [OF i(1)] by fastforce
    have ind: "m \<le> unat c \<Longrightarrow> unat ks < page_addr pm (n + m) \<Longrightarrow> m > 0 \<Longrightarrow> unat ke \<le> page_addr pm n" for m
    proof (induction m)
      case (Suc m)
      then have "n + m \<notin> touched_pages pm ks ke" by (intro free) simp_all
      then have ke: "unat ke \<le> page_addr pm (n + m)"
        using Suc.prems by (auto simp: touched_pages_def)
      with Suc \<open>ks < ke\<close> show ?case by (cases "m = 0") (auto simp: word_less_nat_alt)
    qed simp
    have "unat r + unat c * 4096 = page_addr pm (n + unat c)"
      by (simp add: n(1) page_addr_def algebra_simps)
    with ind [of "unat c"] c show ?thesis
      by (auto simp: n(1) word_less_nat_alt not_less [symmetric])
  next
    case full
    with run r show ?thesis by simp
  qed
qed

text \<open>A booted allocator: the kernel image lies in the first page of the eight.\<close>

lemma boot8:
  "map_option (\<lambda>pm0. map_option fst (pmm_alloc_pages pm0 2))
     (pmm_initialize 0x80000000 0x8000 [0] [] 0 0 0x80000000 0x80001000) = Some (Some 0x80001000)"
  by code_simp

theorem kernel_image_never_allocated_witness:
  "\<exists>pm0 pm'. pmm_initialize 0x80000000 0x8000 [0] [] 0 0 0x80000000 0x80001000 = Some pm0 \<and>
     pmm_reach pm0 pm0 \<and> pmm_alloc_pages pm0 2 = Some (0x80001000, pm') \<and>
     (unat (0x80001000 :: u64) + unat (2 :: u32) * 4096 \<le> unat (0x80000000 :: u64) \<or>
      unat (0x80001000 :: u64) \<le> unat (0x80001000 :: u64))"
proof -
  obtain pm0 pm' where p: "pmm_initialize 0x80000000 0x8000 [0] [] 0 0 0x80000000 0x80001000 = Some pm0"
    and a: "pmm_alloc_pages pm0 2 = Some (0x80001000, pm')"
    using boot8 by (auto simp: map_option_case split: option.splits)
  show ?thesis
    using p a pmm_reach.start [of pm0]
      kernel_image_never_allocated [OF p _ _ _ _ _ _ _ _ _ pmm_reach.start a] by simp
qed

end
