(* ===== verification/Memory.thy ===== *)
theory Memory
  imports Avatar_Prelude
begin

text \<open>
  Byte-addressed memory, for the code that keeps its own records inside the memory it
  manages (the headers of \<^verbatim>\<open>kmalloc\<close>) or moves raw bytes (\<^verbatim>\<open>memset\<close>, \<^verbatim>\<open>memcpy\<close>). A memory is a
  function from 64-bit addresses to bytes; address arithmetic wraps at \<open>2 ^ 64\<close>. Multi-byte
  values are stored least significant byte first, as on the three supported processors.
\<close>

unbundle bit_operations_syntax

type_synonym mem = "u64 \<Rightarrow> u8"

definition memset :: "mem \<Rightarrow> u64 \<Rightarrow> u8 \<Rightarrow> u64 \<Rightarrow> mem" where
  "memset m a v n = (\<lambda>x. if x - a < n then v else m x)"

definition memcpy :: "mem \<Rightarrow> u64 \<Rightarrow> u64 \<Rightarrow> u64 \<Rightarrow> mem" where
  "memcpy m dst src n = (\<lambda>a. if a - dst < n then m (src + (a - dst)) else m a)"

fun store_le :: "nat \<Rightarrow> mem \<Rightarrow> u64 \<Rightarrow> 'w :: len word \<Rightarrow> mem" where
  "store_le 0 m a v = m"
| "store_le (Suc n) m a v = (store_le n m (a + 1) (drop_bit 8 v)) (a := ucast v)"

fun load_le :: "nat \<Rightarrow> mem \<Rightarrow> u64 \<Rightarrow> 'w :: len word" where
  "load_le 0 m a = 0"
| "load_le (Suc n) m a = ucast (m a) OR push_bit 8 (load_le n m (a + 1))"

text \<open>The bytes \<open>a, ..., a + n - 1\<close>, modulo \<open>2 ^ 64\<close>.\<close>

definition span :: "u64 \<Rightarrow> nat \<Rightarrow> u64 set" where
  "span a n = {x. unat (x - a) < n}"

definition mem_eq_on :: "u64 set \<Rightarrow> mem \<Rightarrow> mem \<Rightarrow> bool" where
  "mem_eq_on A m m' \<longleftrightarrow> (\<forall>x \<in> A. m x = m' x)"

lemma mem_eq_onD: "mem_eq_on A m m' \<Longrightarrow> x \<in> A \<Longrightarrow> m x = m' x"
  by (simp add: mem_eq_on_def)

lemma mem_eq_on_mono: "mem_eq_on A m m' \<Longrightarrow> B \<subseteq> A \<Longrightarrow> mem_eq_on B m m'"
  by (auto simp: mem_eq_on_def)

lemma mem_eq_on_refl [simp]: "mem_eq_on A m m"
  by (simp add: mem_eq_on_def)

lemma span_0 [simp]: "span a 0 = {}"
  by (simp add: span_def)

lemma span_mono: "n \<le> k \<Longrightarrow> span a n \<subseteq> span a k"
  by (auto simp: span_def)

lemma unat_diff_1: "(x :: u64) \<noteq> a \<Longrightarrow> unat (x - (a + 1)) = unat (x - a) - 1"
  by (metis (no_types, opaque_lifting) diff_add_eq_diff_diff_swap eq_iff_diff_eq_0 unat_minus_one add.commute)

lemma span_Suc: "span a (Suc n) = insert a (span (a + 1) n)" if "n < 2 ^ 64"
proof -
  have "x \<in> span a (Suc n) \<longleftrightarrow> x = a \<or> x \<in> span (a + 1) n" for x
  proof (cases "x = a")
    case False
    then have "unat (x - a) \<noteq> 0" by (simp add: unat_eq_0)
    with unat_diff_1 [OF False] False show ?thesis by (auto simp: span_def)
  qed (simp add: span_def)
  then show ?thesis by blast
qed

lemma span_1_not_self: "n < 2 ^ 64 \<Longrightarrow> a \<notin> span (a + 1) n"
  using unat_max64 by (simp add: span_def)

lemma memset_span: "x \<in> span a (unat n) \<Longrightarrow> memset m a v n x = v"
  by (simp add: span_def memset_def word_less_nat_alt)

lemma memset_other: "x \<notin> span a (unat n) \<Longrightarrow> memset m a v n x = m x"
  by (simp add: span_def memset_def word_less_nat_alt)

lemma store_le_other: "x \<notin> span a n \<Longrightarrow> n < 2 ^ 64 \<Longrightarrow> store_le n m a v x = m x"
  by (induction n m a v rule: store_le.induct) (simp_all add: span_Suc)

lemma load_le_cong:
  "mem_eq_on (span a n) m m' \<Longrightarrow> n < 2 ^ 64 \<Longrightarrow> load_le n m a = load_le n m' a"
  by (induction n m a rule: load_le.induct) (simp_all add: span_Suc mem_eq_on_def)

lemma byte_join:
  "ucast (ucast v :: u8) OR push_bit 8 (take_bit (8 * n) (drop_bit 8 v)) = (take_bit (8 + 8 * n) v :: 'w :: len word)"
  by (rule bit_word_eqI) (auto simp: bit_simps)

lemma load_store_le:
  "n < 2 ^ 64 \<Longrightarrow> load_le n (store_le n m a v) a = (take_bit (8 * n) v :: 'w :: len word)"
proof (induction n arbitrary: m a v)
  case (Suc n)
  have "mem_eq_on (span (a + 1) n) ((store_le n m (a + 1) (drop_bit 8 v)) (a := ucast v))
      (store_le n m (a + 1) (drop_bit 8 v))"
    using span_1_not_self [of n a] Suc.prems by (auto simp: mem_eq_on_def)
  then have "load_le n ((store_le n m (a + 1) (drop_bit 8 v)) (a := ucast v)) (a + 1) =
      (load_le n (store_le n m (a + 1) (drop_bit 8 v)) (a + 1) :: 'w word)"
    using Suc.prems by (intro load_le_cong) simp_all
  also have "\<dots> = take_bit (8 * n) (drop_bit 8 v)"
    using Suc.prems by (intro Suc.IH) simp
  finally show ?case
    by (simp only: store_le.simps load_le.simps fun_upd_same byte_join mult_Suc_right)
qed simp

lemma take_bit_32 [simp]: "take_bit 32 (w :: u32) = w"
  by (rule take_bit_word_eq_self) simp

lemma take_bit_64 [simp]: "take_bit 64 (w :: u64) = w"
  by (rule take_bit_word_eq_self) simp

lemma load_store_le_disjoint:
  assumes "span a n \<inter> span b k = {}" "n < 2 ^ 64" "k < 2 ^ 64"
  shows "load_le n (store_le k m b v) a = load_le n m a"
proof (rule load_le_cong)
  have "x \<notin> span b k" if "x \<in> span a n" for x using assms(1) that by blast
  then show "mem_eq_on (span a n) (store_le k m b v) m"
    using assms(3) by (simp add: mem_eq_on_def store_le_other)
qed (rule assms(2))

text \<open>Two spans at offsets of the same base that do not wrap around are disjoint.\<close>

lemma span_offset:
  assumes "i + n \<le> j" "j + k < 18446744073709551616"
  shows "span (a + of_nat i) n \<inter> span (a + of_nat j) k = {}"
proof -
  have False if x: "unat (x - (a + of_nat i)) < n" "unat (x - (a + of_nat j)) < k" for x
  proof -
    define y where "y = x - a"
    from x have u: "unat (y - of_nat i) < n" "unat (y - of_nat j) < k" by (simp_all add: y_def algebra_simps)
    have "y = of_nat i + of_nat (unat (y - of_nat i))" "y = of_nat j + of_nat (unat (y - of_nat j))"
      by simp_all
    then have "(of_nat (i + unat (y - of_nat i)) :: u64) = of_nat (j + unat (y - of_nat j))"
      by (simp only: of_nat_add)
    then have "unat (of_nat (i + unat (y - of_nat i)) :: u64) = unat (of_nat (j + unat (y - of_nat j)) :: u64)"
      by (rule arg_cong)
    moreover have "i + unat (y - of_nat i) < 18446744073709551616" "j + unat (y - of_nat j) < 18446744073709551616"
      using assms u by linarith+
    ultimately have "i + unat (y - of_nat i) = j + unat (y - of_nat j)"
      by (simp only: unat_of_nat64)
    with u assms show False by linarith
  qed
  then show ?thesis by (auto simp: span_def)
qed

end
