(* ===== verification/Kmalloc.thy ===== *)
theory Kmalloc
  imports Pmm Memory "HOL-Library.Disjoint_Sets"
begin

text \<open>
  The kernel heap of \<^verbatim>\<open>kernel/mm/kmalloc.c\<close>. Its state is the page allocator and the
  memory itself, because every block starts with a 16-byte header that \<open>kfree\<close> reads back:
  \<open>magic\<close> in bytes 0-7, \<open>pages\<close> in 8-11, \<open>size\<close> in 12-15. The offset \<^verbatim>\<open>KERNEL_VMA\<close> between
  physical and virtual addresses differs per architecture and is an argument. \<open>NULL\<close> is 0;
  \<open>None\<close> is the failed assertion of the page allocator.
\<close>

unbundle bit_operations_syntax

section \<open>State and operations\<close>

record kheap =
  kh_pmm :: pmm_t
  kh_mem :: mem

definition phys_to_virt :: "u64 \<Rightarrow> u64 \<Rightarrow> u64" where
  "phys_to_virt kernel_vma pa = pa + kernel_vma"

definition virt_to_phys :: "u64 \<Rightarrow> u64 \<Rightarrow> u64" where
  "virt_to_phys kernel_vma va = va - kernel_vma"

definition KMALLOC_MAGIC :: u64 where
  "KMALLOC_MAGIC = 0x4B4D414C4C4F4331"

text \<open>The fields of the header at address \<open>h\<close>.\<close>

definition hdr_magic :: "mem \<Rightarrow> u64 \<Rightarrow> u64" where
  "hdr_magic m h = load_le 8 m h"

definition hdr_pages :: "mem \<Rightarrow> u64 \<Rightarrow> u32" where
  "hdr_pages m h = load_le 4 m (h + 8)"

definition hdr_size :: "mem \<Rightarrow> u64 \<Rightarrow> u32" where
  "hdr_size m h = load_le 4 m (h + 12)"

definition write_hdr :: "mem \<Rightarrow> u64 \<Rightarrow> u32 \<Rightarrow> u32 \<Rightarrow> mem" where
  "write_hdr m h pages sz =
     (let m = store_le 8 m h KMALLOC_MAGIC;
          m = store_le 4 m (h + 8) pages
      in store_le 4 m (h + 12) sz)"

definition kalloc_pages :: "u64 \<Rightarrow> kheap \<Rightarrow> u32 \<Rightarrow> (u64 \<times> kheap) option" where
  "kalloc_pages kv h pages =
     do {
       (paddr, pm) \<leftarrow> pmm_alloc_pages (kh_pmm h) pages;
       if paddr = 0 then Some (0, h\<lparr>kh_pmm := pm\<rparr>)
       else let vaddr = phys_to_virt kv paddr
            in Some (vaddr, h\<lparr>kh_pmm := pm, kh_mem := memset (kh_mem h) vaddr 0 (ucast pages * PAGE_SIZE)\<rparr>)
     }"

definition kfree_pages :: "u64 \<Rightarrow> kheap \<Rightarrow> u64 \<Rightarrow> u32 \<Rightarrow> kheap option" where
  "kfree_pages kv h addr pages =
     (if addr = 0 then Some h
      else do {
        (b, pm) \<leftarrow> pmm_free_pages (kh_pmm h) (virt_to_phys kv addr) pages;
        Some (h\<lparr>kh_pmm := pm\<rparr>)
      })"

definition kmalloc :: "u64 \<Rightarrow> kheap \<Rightarrow> u64 \<Rightarrow> (u64 \<times> kheap) option" where
  "kmalloc kv h sz =
     (if sz = 0 then Some (0, h)
      else if sz > 0xFFFFFFFF - 16 then Some (0, h)
      else let total = sz + 16;
               pages = ucast ((total + PAGE_SIZE - 1) div PAGE_SIZE) :: u32
           in do {
             (hp, h) \<leftarrow> kalloc_pages kv h pages;
             if hp = 0 then Some (0, h)
             else Some (hp + 16, h\<lparr>kh_mem := write_hdr (kh_mem h) hp pages (ucast sz)\<rparr>)
           })"

definition kfree :: "u64 \<Rightarrow> kheap \<Rightarrow> u64 \<Rightarrow> kheap option" where
  "kfree kv h ptr =
     (if ptr = 0 then Some h
      else if ptr AND (PAGE_SIZE - 1) \<noteq> 16 then Some h
      else let hp = ptr - 16
           in if hdr_magic (kh_mem h) hp \<noteq> KMALLOC_MAGIC then Some h
              else let pages = hdr_pages (kh_mem h) hp;
                       sz = ucast (hdr_size (kh_mem h) hp) :: u64
                   in if pages = 0 \<or> sz > ucast pages * PAGE_SIZE - 16 then Some h
                      else kfree_pages kv (h\<lparr>kh_mem := store_le 8 (kh_mem h) hp (0 :: u64)\<rparr>) hp pages)"

section \<open>Blocks\<close>

text \<open>
  The direct map must not wrap: the kernel addresses of the managed RAM are distinct and
  not \<open>NULL\<close>.
\<close>

definition kheap_ok :: "u64 \<Rightarrow> kheap \<Rightarrow> bool" where
  "kheap_ok kv h \<longleftrightarrow>
     pmm_ready (kh_pmm h) \<and> unat kv mod 4096 = 0 \<and>
     unat kv + unat (start_addr (kh_pmm h)) + unat (total_size (kh_pmm h)) < 2 ^ 64"

text \<open>The bytes of \<open>c\<close> pages from physical address \<open>r\<close> on, at their kernel addresses.\<close>

abbreviation page_bytes :: "u64 \<Rightarrow> u64 \<Rightarrow> u32 \<Rightarrow> u64 set" where
  "page_bytes kv r c \<equiv> span (phys_to_virt kv r) (unat c * 4096)"

text \<open>
  \<open>kblock kv h r c sz\<close>: the \<open>c\<close> pages from \<open>r\<close> on are a live block of \<open>sz\<close> bytes: they
  are handed out and releasable, and their header says so. Its user address is
  \<open>phys_to_virt kv r + 16\<close>.
\<close>

definition kblock :: "u64 \<Rightarrow> kheap \<Rightarrow> u64 \<Rightarrow> u32 \<Rightarrow> u64 \<Rightarrow> bool" where
  "kblock kv h r c sz \<longleftrightarrow>
     0 < c \<and> 0 < sz \<and> unat sz + 16 \<le> unat c * 4096 \<and> unat sz < 2 ^ 32 \<and>
     page_range r c \<subseteq> pmm_held (kh_pmm h) - pmm_pinned (kh_pmm h) \<and>
     hdr_magic (kh_mem h) (phys_to_virt kv r) = KMALLOC_MAGIC \<and>
     hdr_pages (kh_mem h) (phys_to_virt kv r) = c \<and>
     hdr_size (kh_mem h) (phys_to_virt kv r) = ucast sz"

section \<open>Pages and their bytes\<close>

lemma pmm_alloc_frame:
  "pmm_alloc_pages pm c = Some (r, pm') \<Longrightarrow> start_addr pm' = start_addr pm \<and> total_size pm' = total_size pm"
  by (auto simp: pmm_alloc_pages_def Let_def split: if_splits bind_splits)

lemma pmm_free_frame:
  "pmm_free_pages pm p c = Some (b, pm') \<Longrightarrow> start_addr pm' = start_addr pm \<and> total_size pm' = total_size pm"
  by (auto simp: pmm_free_pages_def Let_def split: if_splits option.splits)

lemma pmm_held_bound:
  assumes "pmm_inv pm" "a \<in> pmm_held pm"
  shows "unat (start_addr pm) \<le> a" "a + 4096 \<le> unat (start_addr pm) + unat (total_size pm)" "a mod 4096 = 0"
proof -
  from assms(2) obtain n where n: "a = page_addr pm n" "n \<in> pm_used pm" by (auto simp: pmm_held_def)
  from pm_used_bound [OF assms(1) n(2)] have "Suc n \<le> npages pm" by simp
  then have "Suc n * 4096 \<le> npages pm * 4096" by (rule mult_le_mono1)
  with n pmm_invD(4) [OF assms(1)]
  show "unat (start_addr pm) \<le> a" "a + 4096 \<le> unat (start_addr pm) + unat (total_size pm)"
    by (simp_all add: page_addr_def)
  show "a mod 4096 = 0" using n page_addr_aligned [OF assms(1)] by simp
qed

text \<open>A range of held pages: aligned, and its kernel addresses do not wrap.\<close>

lemma held_range:
  assumes ok: "kheap_ok kv h" and c: "0 < c" and sub: "page_range r c \<subseteq> pmm_held (kh_pmm h)"
  shows "unat r mod 4096 = 0" "unat kv + unat r + unat c * 4096 < 2 ^ 64" "unat r \<noteq> 0"
proof -
  have inv: "pmm_inv (kh_pmm h)" "start_addr (kh_pmm h) \<noteq> 0" using ok by (simp_all add: kheap_ok_def pmm_ready_def)
  have "unat r \<in> page_range r c" "unat r + (unat c - 1) * 4096 \<in> page_range r c"
    using c by (auto simp: page_range_def word_less_nat_alt)
  with sub have h: "unat r \<in> pmm_held (kh_pmm h)" "unat r + (unat c - 1) * 4096 \<in> pmm_held (kh_pmm h)" by blast+
  show "unat r mod 4096 = 0" using pmm_held_bound(3) [OF inv(1) h(1)] .
  have "(unat c - 1) * 4096 + 4096 = unat c * 4096" using c by (cases "unat c") (simp_all add: word_less_nat_alt)
  then show "unat kv + unat r + unat c * 4096 < 2 ^ 64"
    using pmm_held_bound(2) [OF inv(1) h(2)] ok by (simp add: kheap_ok_def)
  show "unat r \<noteq> 0" using pmm_held_bound(1) [OF inv(1) h(1)] inv(2) by (auto simp: unat_eq_0)
qed

lemma unat_phys_to_virt:
  "unat kv + unat r < 18446744073709551616 \<Longrightarrow> unat (phys_to_virt kv r) = unat kv + unat r"
  by (simp add: phys_to_virt_def unat_add64 add.commute)

lemma virt_phys [simp]: "virt_to_phys kv (phys_to_virt kv r) = r"
  by (simp add: phys_to_virt_def virt_to_phys_def)

text \<open>The page that holds a byte of a range is a page of the range.\<close>

lemma page_of_byte:
  assumes "unat r mod 4096 = 0" "unat kv mod 4096 = 0" "unat kv + unat r + unat c * 4096 < 18446744073709551616"
    "x \<in> page_bytes kv r c"
  shows "unat x div 4096 * 4096 - unat kv \<in> page_range r c"
proof -
  let ?d = "unat (x - phys_to_virt kv r)"
  have d: "?d < unat c * 4096" using assms(4) by (simp add: span_def)
  have "unat (phys_to_virt kv r + (x - phys_to_virt kv r)) = unat (phys_to_virt kv r) + ?d"
    using d assms(3) by (intro unat_add64) (simp add: unat_phys_to_virt)
  then have x: "unat x = unat kv + unat r + ?d" using assms(3) by (simp add: unat_phys_to_virt)
  obtain i j where ij: "unat r = i * 4096" "unat kv = j * 4096"
    using assms(1,2) by (metis mod_0_imp_dvd dvdE mult.commute)
  have "unat x div 4096 = j + i + ?d div 4096" unfolding x ij by (simp add: div_add1_eq)
  then have "unat x div 4096 * 4096 - unat kv = unat r + (?d div 4096) * 4096" by (simp add: ij)
  moreover have "?d div 4096 < unat c" using d by (simp add: less_mult_imp_div_less)
  ultimately show ?thesis by (auto simp: page_range_def)
qed

lemma page_bytes_disjoint:
  assumes ok: "kheap_ok kv h" "kheap_ok kv h'" and "0 < c" "0 < c'"
    and "page_range r c \<subseteq> pmm_held (kh_pmm h)" "page_range r' c' \<subseteq> pmm_held (kh_pmm h')"
    and "page_range r c \<inter> page_range r' c' = {}"
  shows "page_bytes kv r c \<inter> page_bytes kv r' c' = {}"
  using page_of_byte [of r kv c] page_of_byte [of r' kv c'] held_range [OF ok(1) assms(3,5)]
    held_range [OF ok(2) assms(4,6)] ok assms(7)
  unfolding kheap_ok_def by fastforce

section \<open>Headers\<close>

lemma span_sub:
  assumes "i + n \<le> k" "k < 18446744073709551616"
  shows "span (a + of_nat i) n \<subseteq> span a k"
proof
  fix x assume "x \<in> span (a + of_nat i) n"
  then have u: "unat (x - (a + of_nat i)) < n" by (simp add: span_def)
  have "x - a = of_nat i + (x - (a + of_nat i))" by simp
  moreover have "unat (of_nat i + (x - (a + of_nat i)) :: u64) = i + unat (x - (a + of_nat i))"
    using assms u unat_add64 [of "of_nat i" "x - (a + of_nat i)"] by (simp add: unat_of_nat64)
  ultimately have "unat (x - a) = i + unat (x - (a + of_nat i))" by metis
  with u assms show "x \<in> span a k" by (simp add: span_def)
qed

lemmas hdr_defs = hdr_magic_def hdr_pages_def hdr_size_def

lemma hdr_frame:
  assumes "mem_eq_on (span hp 16) m m'"
  shows "hdr_magic m hp = hdr_magic m' hp" "hdr_pages m hp = hdr_pages m' hp" "hdr_size m hp = hdr_size m' hp"
  using mem_eq_on_mono [OF assms span_sub [of 0 8 16 hp]] mem_eq_on_mono [OF assms span_sub [of 8 4 16 hp]]
    mem_eq_on_mono [OF assms span_sub [of 12 4 16 hp]]
  by (auto simp: hdr_defs intro!: load_le_cong)

lemma store_le_frame: "k < 2 ^ 64 \<Longrightarrow> span b k \<inter> A = {} \<Longrightarrow> mem_eq_on A (store_le k m b v) m"
  by (auto simp: mem_eq_on_def intro: store_le_other)

text \<open>The three header stores of \<open>kmalloc\<close>, and what \<open>kfree\<close> reads afterwards.\<close>

lemma write_hdr_fields:
  "hdr_magic (write_hdr m hp c s) hp = KMALLOC_MAGIC" "hdr_pages (write_hdr m hp c s) hp = c"
  "hdr_size (write_hdr m hp c s) hp = s" "x \<notin> span hp 16 \<Longrightarrow> write_hdr m hp c s x = m x"
proof -
  have d: "span hp 8 \<inter> span (hp + 8) 4 = {}" "span hp 8 \<inter> span (hp + 12) 4 = {}"
    "span (hp + 8) 4 \<inter> span (hp + 12) 4 = {}"
    using span_offset [of 0 8 8 4 hp] span_offset [of 0 8 12 4 hp] span_offset [of 8 4 12 4 hp] by simp_all
  show "hdr_magic (write_hdr m hp c s) hp = KMALLOC_MAGIC"
    by (simp add: hdr_defs write_hdr_def load_store_le_disjoint d load_store_le KMALLOC_MAGIC_def)
  show "hdr_pages (write_hdr m hp c s) hp = c"
    by (simp add: hdr_defs write_hdr_def load_store_le_disjoint d load_store_le)
  show "hdr_size (write_hdr m hp c s) hp = s"
    by (simp add: hdr_defs write_hdr_def load_store_le)
  show "write_hdr m hp c s x = m x" if "x \<notin> span hp 16"
  proof -
    have "x \<notin> span hp 8" "x \<notin> span (hp + 8) 4" "x \<notin> span (hp + 12) 4"
      using that span_sub [of 0 8 16 hp] span_sub [of 8 4 16 hp] span_sub [of 12 4 16 hp] by auto
    then show ?thesis by (simp add: write_hdr_def store_le_other)
  qed
qed

section \<open>Allocation and release of blocks\<close>

lemma kmalloc_pages_fit:
  fixes sz :: u64
  defines "c \<equiv> ucast ((sz + 16 + PAGE_SIZE - 1) div PAGE_SIZE) :: u32"
  assumes "sz \<noteq> 0" "\<not> 0xFFFFFFFF - 16 < sz"
  shows "0 < c" "unat sz + 16 \<le> unat c * 4096" "unat (ucast c * PAGE_SIZE :: u64) = unat c * 4096" "unat sz < 2 ^ 32"
proof -
  have s: "0 < unat sz" "unat sz \<le> 4294967279" using assms(2,3) by (simp_all add: word_less_nat_alt unat_gt_0)
  then show "unat sz < 2 ^ 32" by simp
  have "unat (4111 + sz) = unat sz + 4111" using s by (subst unat_add64) simp_all
  then have "unat ((sz + 16 + PAGE_SIZE - 1) div PAGE_SIZE) = (unat sz + 4111) div 4096"
    by (simp add: unat_div_distrib)
  moreover have "(unat sz + 4111) div 4096 < 4294967296" using s by (simp add: less_mult_imp_div_less)
  ultimately have c: "unat c = (unat sz + 4111) div 4096"
    by (simp add: c_def unsigned_ucast_eq take_bit_eq_mod)
  have "unat sz + 16 \<le> unat c * 4096" "0 < unat c" unfolding c using s by linarith+
  then show "0 < c" "unat sz + 16 \<le> unat c * 4096" by (simp_all add: word_less_nat_alt)
  show "unat (ucast c * PAGE_SIZE :: u64) = unat c * 4096"
    using unat_lt32 [of c] by (subst unat_mult64) simp_all
qed

definition kmalloc_done :: "u64 \<Rightarrow> kheap \<Rightarrow> u64 \<Rightarrow> u64 \<Rightarrow> u32 \<Rightarrow> kheap \<Rightarrow> bool" where
  "kmalloc_done kv h sz r c h' \<longleftrightarrow>
     kblock kv h' r c sz \<and> kheap_ok kv h' \<and>
     page_range r c \<inter> pmm_held (kh_pmm h) = {} \<and>
     pmm_held (kh_pmm h') = pmm_held (kh_pmm h) \<union> page_range r c \<and>
     pmm_pinned (kh_pmm h') = pmm_pinned (kh_pmm h) \<and>
     mem_eq_on (- page_bytes kv r c) (kh_mem h) (kh_mem h') \<and>
     (\<forall>x \<in> span (phys_to_virt kv r + 16) (unat sz). kh_mem h' x = 0)"

lemma kmalloc_cases:
  assumes ok: "kheap_ok kv h"
  obtains (block) r c h' where "kmalloc kv h sz = Some (phys_to_virt kv r + 16, h')" "kmalloc_done kv h sz r c h'"
  | (null) "kmalloc kv h sz = Some (0, h)"
proof (cases "sz = 0 \<or> 0xFFFFFFFF - 16 < sz")
  case True
  then show thesis by (intro null) (auto simp: kmalloc_def)
next
  case False
  define c :: u32 where "c = ucast ((sz + 16 + PAGE_SIZE - 1) div PAGE_SIZE)"
  from False have nf: "sz \<noteq> 0" "\<not> 0xFFFFFFFF - 16 < sz" by blast+
  have fit: "0 < c" "unat sz + 16 \<le> unat c * 4096" "unat (ucast c * PAGE_SIZE :: u64) = unat c * 4096"
    "unat sz < 2 ^ 32" "0 < sz"
    using kmalloc_pages_fit [OF nf] nf(1) by (simp_all add: c_def word_neq_0_conv)
  have body: "kmalloc kv h sz = kalloc_pages kv h c \<bind> (\<lambda>(hp, h). if hp = 0 then Some (0, h)
      else Some (hp + 16, h\<lparr>kh_mem := write_hdr (kh_mem h) hp c (ucast sz)\<rparr>))"
    unfolding kmalloc_def Let_def c_def by (simp only: nf if_False)
  have ready: "pmm_ready (kh_pmm h)" using ok by (simp add: kheap_ok_def)
  obtain r pm where a: "pmm_alloc_pages (kh_pmm h) c = Some (r, pm)"
    using pmm.alloc_returns [OF ready fit(1)] by blast
  show thesis
  proof (cases "r = 0")
    case True
    with a pmm.alloc_none [OF ready fit(1)] show thesis
      by (intro null) (simp add: body kalloc_pages_def)
  next
    case r: False
    note f = pmm.alloc_fresh [OF ready fit(1) a r]
    define h1 where "h1 = h\<lparr>kh_pmm := pm, kh_mem := memset (kh_mem h) (phys_to_virt kv r) 0 (ucast c * PAGE_SIZE)\<rparr>"
    define h' where "h' = h1\<lparr>kh_mem := write_hdr (kh_mem h1) (phys_to_virt kv r) c (ucast sz)\<rparr>"
    have ok': "kheap_ok kv h'"
      using ok f pmm_alloc_frame [OF a] by (simp add: kheap_ok_def h'_def h1_def)
    have rng: "unat kv + unat r + unat c * 4096 < 2 ^ 64" "unat r \<noteq> 0"
      using held_range [OF ok' fit(1), of r] f by (auto simp: h'_def h1_def)
    have "phys_to_virt kv r \<noteq> 0"
      using rng unat_phys_to_virt [of kv r] by (auto simp: unat_eq_0)
    then have run: "kmalloc kv h sz = Some (phys_to_virt kv r + 16, h')"
      using a r by (simp add: body kalloc_pages_def Let_def h'_def h1_def)
    have hdr_sub: "span (phys_to_virt kv r) 16 \<subseteq> page_bytes kv r c"
      using fit(2) by (intro span_mono) simp
    have pay_sub: "span (phys_to_virt kv r + 16) (unat sz) \<subseteq> page_bytes kv r c"
      using span_sub [of 16 "unat sz" "unat c * 4096" "phys_to_virt kv r"] fit(2) rng by simp
    have pay_hdr: "span (phys_to_virt kv r) 16 \<inter> span (phys_to_virt kv r + 16) (unat sz) = {}"
      using span_offset [of 0 16 16 "unat sz" "phys_to_virt kv r"] fit(4) by simp
    have "kmalloc_done kv h sz r c h'"
      unfolding kmalloc_done_def kblock_def
    proof (intro conjI ballI)
      show "page_range r c \<subseteq> pmm_held (kh_pmm h') - pmm_pinned (kh_pmm h')"
        using f pmm.pinned_held [OF ready] by (auto simp: h'_def h1_def)
      show "mem_eq_on (- page_bytes kv r c) (kh_mem h) (kh_mem h')"
        unfolding mem_eq_on_def
      proof
        fix x assume x: "x \<in> - page_bytes kv r c"
        with hdr_sub have "x \<notin> span (phys_to_virt kv r) 16" by blast
        with x fit(3) show "kh_mem h x = kh_mem h' x" by (simp add: h'_def h1_def write_hdr_fields memset_other)
      qed
      show "kh_mem h' x = 0" if "x \<in> span (phys_to_virt kv r + 16) (unat sz)" for x
      proof -
        from that pay_sub pay_hdr have "x \<in> page_bytes kv r c" "x \<notin> span (phys_to_virt kv r) 16" by blast+
        with fit(3) show ?thesis by (simp add: h'_def h1_def write_hdr_fields memset_span)
      qed
    qed (use fit ok' f in \<open>simp_all add: h'_def h1_def write_hdr_fields\<close>)
    with run show thesis by (rule block)
  qed
qed

text \<open>A block stays live while its bytes and its pages are left alone.\<close>

lemma kblock_frame:
  assumes b: "kblock kv h r c sz" and m: "mem_eq_on (span (phys_to_virt kv r) 16) (kh_mem h) (kh_mem h')"
    and "page_range r c \<subseteq> pmm_held (kh_pmm h')" "pmm_pinned (kh_pmm h') = pmm_pinned (kh_pmm h)"
  shows "kblock kv h' r c sz"
  using b assms(3,4) hdr_frame [OF m] unfolding kblock_def by auto

lemma kblock_hdr: "kblock kv h r c sz \<Longrightarrow> span (phys_to_virt kv r) 16 \<subseteq> page_bytes kv r c"
  by (rule span_mono) (simp add: kblock_def)

text \<open>\<open>kfree\<close> of a live block: the pages go back, the header is poisoned, nothing else changes.\<close>

definition kfree_done :: "u64 \<Rightarrow> kheap \<Rightarrow> u64 \<Rightarrow> u32 \<Rightarrow> kheap \<Rightarrow> bool" where
  "kfree_done kv h r c h' \<longleftrightarrow>
     kheap_ok kv h' \<and> pmm_held (kh_pmm h') = pmm_held (kh_pmm h) - page_range r c \<and>
     pmm_pinned (kh_pmm h') = pmm_pinned (kh_pmm h) \<and>
     kh_mem h' = store_le 8 (kh_mem h) (phys_to_virt kv r) (0 :: u64)"

lemma ptr_offset:
  assumes "unat r mod 4096 = 0" "unat kv mod 4096 = 0" "unat kv + unat r + 16 < 18446744073709551616"
  shows "(phys_to_virt kv r + 16) AND 4095 = 16"
proof -
  have "unat (phys_to_virt kv r + 16) = unat kv + unat r + 16"
    using assms(3) unat_add64 [of "phys_to_virt kv r" 16] unat_phys_to_virt [of kv r] by simp
  moreover have "(unat kv + unat r + 16) mod 4096 = 16"
  proof -
    obtain i j where "unat r = i * 4096" "unat kv = j * 4096"
      using assms(1,2) by (metis mod_0_imp_dvd dvdE mult.commute)
    then have "unat kv + unat r + 16 = 16 + (j + i) * 4096" by simp
    then show ?thesis by (simp only: mod_mult_self1) simp
  qed
  ultimately show ?thesis
    using unat_and_page_mask [of "phys_to_virt kv r + 16"] by (simp add: word_unat_eq_iff)
qed

lemma kfree_block:
  assumes ok: "kheap_ok kv h" and b: "kblock kv h r c sz"
  shows "\<exists>h'. kfree kv h (phys_to_virt kv r + 16) = Some h' \<and> kfree_done kv h r c h'"
proof -
  let ?v = "phys_to_virt kv r"
  have c: "0 < c" and sz: "unat sz + 16 \<le> unat c * 4096" "unat sz < 2 ^ 32"
    and pr: "page_range r c \<subseteq> pmm_held (kh_pmm h) - pmm_pinned (kh_pmm h)"
    using b by (auto simp: kblock_def)
  note rng = held_range [OF ok c, of r]
  have r: "unat r mod 4096 = 0" "unat kv + unat r + unat c * 4096 < 2 ^ 64" "unat r \<noteq> 0"
    using rng pr by auto
  have kv: "unat kv mod 4096 = 0" and ready: "pmm_ready (kh_pmm h)" using ok by (simp_all add: kheap_ok_def)
  have c4: "4096 \<le> unat c * 4096" using c by (simp add: word_less_nat_alt)
  have v: "unat ?v = unat kv + unat r" using r c4 by (intro unat_phys_to_virt) simp
  have off: "(?v + 16) AND 4095 = 16" using r kv c4 by (intro ptr_offset) simp_all
  have nz: "?v \<noteq> 0" "?v + 16 \<noteq> 0" using v r off by auto
  have mult: "unat (ucast c * PAGE_SIZE :: u64) = unat c * 4096"
    using unat_lt32 [of c] by (subst unat_mult64) simp_all
  have "unat (ucast c * PAGE_SIZE - 16 :: u64) = unat c * 4096 - 16"
    using mult c4 by (subst unat_sub) (simp_all add: word_le_nat_alt)
  moreover have "ucast (ucast sz :: u32) = sz"
    using sz(2) by (simp add: word_unat_eq_iff unsigned_ucast_eq take_bit_eq_mod unat_mod_distrib)
  ultimately have hdr: "\<not> ucast (hdr_size (kh_mem h) ?v) > (ucast c * PAGE_SIZE - 16 :: u64)"
    using b sz by (simp add: kblock_def word_less_nat_alt)
  obtain bb pm where f: "pmm_free_pages (kh_pmm h) r c = Some (bb, pm)"
    using pmm.release_returns [OF ready c] by blast
  then have bb using pmm.release_accepts [OF ready c] pr by blast
  with f have eff: "pmm_held pm = pmm_held (kh_pmm h) - page_range r c \<and> pmm_pinned pm = pmm_pinned (kh_pmm h) \<and> pmm_ready pm"
    using pmm.release_effect [OF ready c] by simp
  let ?h' = "h\<lparr>kh_mem := store_le 8 (kh_mem h) ?v (0 :: u64), kh_pmm := pm\<rparr>"
  have "kfree kv h (?v + 16) = Some ?h'"
    using b hdr f nz off c by (auto simp: kfree_def kblock_def kfree_pages_def Let_def)
  moreover have "kfree_done kv h r c ?h'"
    using eff ok pmm_free_frame [OF f] by (simp add: kfree_done_def kheap_ok_def)
  ultimately show ?thesis by blast
qed

section \<open>The heap as a set of live blocks\<close>

type_synonym kblk = "u64 \<times> u32 \<times> u64"

definition kheap_live :: "u64 \<Rightarrow> kheap \<Rightarrow> kblk set \<Rightarrow> bool" where
  "kheap_live kv h L \<longleftrightarrow>
     kheap_ok kv h \<and> (\<forall>(r, c, s) \<in> L. kblock kv h r c s) \<and>
     disjoint_family_on (\<lambda>(r, c, s). page_range r c) L"

text \<open>The bytes of all live blocks, headers included.\<close>

definition live_bytes :: "u64 \<Rightarrow> kblk set \<Rightarrow> u64 set" where
  "live_bytes kv L = (\<Union>(r, c, s) \<in> L. page_bytes kv r c)"

lemma kheap_liveD:
  assumes "kheap_live kv h L" "(r, c, s) \<in> L"
  shows "kheap_ok kv h" "kblock kv h r c s" "0 < c" "page_range r c \<subseteq> pmm_held (kh_pmm h)"
  using assms by (auto simp: kheap_live_def kblock_def)

lemma live_bytes_disjoint:
  assumes "kheap_live kv h L" "kheap_ok kv h'" "0 < c" "page_range r c \<subseteq> pmm_held (kh_pmm h')"
    "\<And>r' c' s'. (r', c', s') \<in> L \<Longrightarrow> page_range r' c' \<inter> page_range r c = {}"
  shows "page_bytes kv r c \<inter> live_bytes kv L = {}"
proof -
  have "page_bytes kv r' c' \<inter> page_bytes kv r c = {}" if "(r', c', s') \<in> L" for r' c' s'
    using page_bytes_disjoint [OF kheap_liveD(1) [OF assms(1) that] assms(2) kheap_liveD(3) [OF assms(1) that]
        assms(3) kheap_liveD(4) [OF assms(1) that] assms(4) assms(5) [OF that]] .
  then show ?thesis unfolding live_bytes_def by blast
qed

lemma kheap_live_frame:
  assumes L: "kheap_live kv h L" and ok: "kheap_ok kv h'"
    and m: "mem_eq_on (live_bytes kv L) (kh_mem h) (kh_mem h')"
    and held: "\<And>r c s. (r, c, s) \<in> L \<Longrightarrow> page_range r c \<subseteq> pmm_held (kh_pmm h')"
    and pin: "pmm_pinned (kh_pmm h') = pmm_pinned (kh_pmm h)"
  shows "kheap_live kv h' L"
proof -
  have "kblock kv h' r c s" if "(r, c, s) \<in> L" for r c s
  proof (rule kblock_frame [OF kheap_liveD(2) [OF L that] _ held [OF that] pin])
    show "mem_eq_on (span (phys_to_virt kv r) 16) (kh_mem h) (kh_mem h')"
      using m kblock_hdr [OF kheap_liveD(2) [OF L that]] that
      by (elim mem_eq_on_mono) (auto simp: live_bytes_def)
  qed
  with L ok show ?thesis unfolding kheap_live_def by blast
qed

lemma kmalloc_done_live:
  assumes L: "kheap_live kv h L" and d: "kmalloc_done kv h sz r c h'"
  shows "kheap_live kv h' (insert (r, c, sz) L)"
    and "mem_eq_on (live_bytes kv L) (kh_mem h) (kh_mem h')"
    and "page_bytes kv r c \<inter> live_bytes kv L = {}"
proof -
  have h': "kheap_ok kv h'" "kblock kv h' r c sz" "0 < c" "page_range r c \<subseteq> pmm_held (kh_pmm h')"
    using d by (auto simp: kmalloc_done_def kblock_def)
  have dj: "page_range r' c' \<inter> page_range r c = {}" if "(r', c', s') \<in> L" for r' c' s'
    using d kheap_liveD(4) [OF L that] unfolding kmalloc_done_def by blast
  show b: "page_bytes kv r c \<inter> live_bytes kv L = {}"
    by (rule live_bytes_disjoint [OF L h'(1,3,4) dj])
  show m: "mem_eq_on (live_bytes kv L) (kh_mem h) (kh_mem h')"
    using d b unfolding kmalloc_done_def by (elim conjE mem_eq_on_mono) blast
  have "kheap_live kv h' L"
    using kheap_live_frame [OF L h'(1) m] kheap_liveD(4) [OF L] d unfolding kmalloc_done_def by blast
  moreover have "unat r \<in> page_range r c" using h'(3) by (auto simp: page_range_def word_less_nat_alt)
  with dj [of r c sz] have "(r, c, sz) \<notin> L" by blast
  moreover have "page_range r c \<inter> (\<Union>(r', c', s') \<in> L. page_range r' c') = {}" using dj by blast
  ultimately show "kheap_live kv h' (insert (r, c, sz) L)"
    using h' by (simp add: kheap_live_def disjoint_family_on_insert)
qed

lemma kheap_live_disjoint:
  assumes "kheap_live kv h L" "(r, c, s) \<in> L" "(r', c', s') \<in> L - {(r, c, s)}"
  shows "page_range r' c' \<inter> page_range r c = {}"
  using assms disjoint_family_onD [of "\<lambda>(r, c, s). page_range r c" L "(r', c', s')" "(r, c, s)"]
  by (auto simp: kheap_live_def)

lemma kheap_live_subset: "kheap_live kv h L \<Longrightarrow> M \<subseteq> L \<Longrightarrow> kheap_live kv h M"
  by (auto simp: kheap_live_def elim: disjoint_family_on_mono)

section \<open>Properties\<close>

text \<open>An empty heap on eight pages, at the AArch64 offset, for the witnesses.\<close>

definition heap8 :: kheap where
  "heap8 = \<lparr>kh_pmm = pmm8, kh_mem = (\<lambda>_. 0)\<rparr>"

lemma heap8_live: "kheap_live 0xffff000000000000 heap8 {}"
proof -
  have "start_addr pmm8 = 0x80000000" "total_size pmm8 = 0x8000"
    by (simp_all add: pmm8_def pmm_init_def Let_def)
  with pmm8_inv show ?thesis
    by (simp add: kheap_live_def kheap_ok_def heap8_def pmm_ready_def disjoint_family_on_def)
qed

lemma heap8_kmalloc: "map_option fst (kmalloc 0xffff000000000000 heap8 100) = Some 0xffff000080000010"
  by code_simp

text \<open>
  C5: \<open>kmalloc\<close> on a heap with live blocks \<open>L\<close> returns NULL and changes nothing, or returns a
  zeroed block of the requested size that becomes one more live block: its pages were free,
  its bytes overlap no live block, and the bytes of every live block keep their values.
\<close>

theorem kmalloc_live:
  assumes "kheap_live kv h L"
  shows "kmalloc kv h sz = Some (0, h) \<or>
    (\<exists>r c h'. kmalloc kv h sz = Some (phys_to_virt kv r + 16, h') \<and>
       kheap_live kv h' (insert (r, c, sz) L) \<and> unat sz + 16 \<le> unat c * 4096 \<and>
       page_range r c \<inter> pmm_held (kh_pmm h) = {} \<and>
       page_bytes kv r c \<inter> live_bytes kv L = {} \<and>
       mem_eq_on (live_bytes kv L) (kh_mem h) (kh_mem h') \<and>
       (\<forall>x \<in> span (phys_to_virt kv r + 16) (unat sz). kh_mem h' x = 0))"
proof -
  from assms have "kheap_ok kv h" by (simp add: kheap_live_def)
  then show ?thesis
  proof (cases rule: kmalloc_cases [where sz = sz])
    case (block r c h')
    note live = kmalloc_done_live [OF assms block(2)]
    have "unat sz + 16 \<le> unat c * 4096" "page_range r c \<inter> pmm_held (kh_pmm h) = {}"
      "\<forall>x \<in> span (phys_to_virt kv r + 16) (unat sz). kh_mem h' x = 0"
      using block(2) by (simp_all add: kmalloc_done_def kblock_def)
    with block(1) live show ?thesis by (intro disjI2 exI conjI) simp_all
  qed simp
qed

theorem kmalloc_live_witness:
  "\<exists>r c h'. kmalloc 0xffff000000000000 heap8 100 = Some (phys_to_virt 0xffff000000000000 r + 16, h') \<and>
     kheap_live 0xffff000000000000 h' {(r, c, 100)} \<and> unat (100 :: u64) + 16 \<le> unat c * 4096 \<and>
     (\<forall>x \<in> span (phys_to_virt 0xffff000000000000 r + 16) (unat (100 :: u64)). kh_mem h' x = 0)"
proof -
  have "kmalloc 0xffff000000000000 heap8 100 \<noteq> Some (0, heap8)" using heap8_kmalloc by auto
  with kmalloc_live [OF heap8_live, of 100] show ?thesis by blast
qed

text \<open>
  C6: \<open>kfree\<close> of any live block, after the owner wrote anything into its payload, releases
  exactly the pages of that block; the other blocks stay live with their bytes intact, and
  freeing the same pointer again, while its memory is untouched, has no effect at all.
\<close>

theorem kfree_live:
  assumes L: "kheap_live kv h L" and b: "(r, c, sz) \<in> L"
    and w: "mem_eq_on (- span (phys_to_virt kv r + 16) (unat sz)) (kh_mem h) m"
  shows "\<exists>h'. kfree kv (h\<lparr>kh_mem := m\<rparr>) (phys_to_virt kv r + 16) = Some h' \<and>
    kheap_live kv h' (L - {(r, c, sz)}) \<and>
    pmm_held (kh_pmm h') = pmm_held (kh_pmm h) - page_range r c \<and>
    mem_eq_on (live_bytes kv (L - {(r, c, sz)})) (kh_mem h) (kh_mem h') \<and>
    kfree kv h' (phys_to_virt kv r + 16) = Some h'"
proof -
  let ?v = "phys_to_virt kv r" and ?L = "L - {(r, c, sz)}" and ?h = "h\<lparr>kh_mem := m\<rparr>"
  note bD = kheap_liveD [OF L b]
  have sub: "span ?v 16 \<subseteq> page_bytes kv r c" by (rule kblock_hdr [OF bD(2)])
  have sz: "unat sz + 16 \<le> unat c * 4096" "unat sz < 2 ^ 32" using bD(2) by (simp_all add: kblock_def)
  have rng: "unat kv + unat r + unat c * 4096 < 2 ^ 64" by (rule held_range(2) [OF bD(1,3,4)])
  have pay: "span (?v + 16) (unat sz) \<subseteq> page_bytes kv r c"
    using span_sub [of 16 "unat sz" "unat c * 4096" ?v] sz rng by simp
  have dj: "span ?v 16 \<inter> span (?v + 16) (unat sz) = {}"
    using span_offset [of 0 16 16 "unat sz" ?v] sz(2) by simp
  have L': "kheap_live kv h ?L" using L by (rule kheap_live_subset) blast
  have other: "page_bytes kv r c \<inter> live_bytes kv ?L = {}"
    by (rule live_bytes_disjoint [OF L' bD(1,3,4) kheap_live_disjoint [OF L b]])
  have hm: "mem_eq_on (span ?v 16) (kh_mem h) (kh_mem ?h)"
    using w dj by (simp, elim mem_eq_on_mono) blast
  have "kblock kv ?h r c sz" by (rule kblock_frame [OF bD(2) hm]) (use bD(4) in simp_all)
  moreover have "kheap_ok kv ?h" using bD(1) by (simp add: kheap_ok_def)
  ultimately obtain h' where f: "kfree kv ?h (?v + 16) = Some h'" and d: "kfree_done kv ?h r c h'"
    using kfree_block by blast
  have s8: "span ?v 8 \<subseteq> span ?v 16" by (rule span_mono) simp
  have m: "mem_eq_on (live_bytes kv ?L) (kh_mem h) (kh_mem h')"
    unfolding mem_eq_on_def
  proof
    fix x assume "x \<in> live_bytes kv ?L"
    with other pay sub s8 have "x \<notin> span (?v + 16) (unat sz)" "x \<notin> span ?v 8" by blast+
    with w d show "kh_mem h x = kh_mem h' x" by (simp add: kfree_done_def mem_eq_on_def store_le_other)
  qed
  have held: "page_range r' c' \<subseteq> pmm_held (kh_pmm h')" if "(r', c', s') \<in> ?L" for r' c' s'
  proof -
    have "page_range r' c' \<inter> page_range r c = {}" by (rule kheap_live_disjoint [OF L b that])
    with kheap_liveD(4) [OF L' that] d show ?thesis by (auto simp: kfree_done_def)
  qed
  have live: "kheap_live kv h' ?L"
    using d by (intro kheap_live_frame [OF L' _ m held]) (simp_all add: kfree_done_def)
  have "hdr_magic (kh_mem h') ?v = 0"
    using d by (simp add: kfree_done_def hdr_magic_def load_store_le)
  then have "kfree kv h' (?v + 16) = Some h'" by (simp add: kfree_def KMALLOC_MAGIC_def)
  with f live m d show ?thesis by (auto simp: kfree_done_def)
qed

theorem kfree_live_witness:
  "\<exists>r c h h'. kheap_live 0xffff000000000000 h {(r, c, 100)} \<and>
     kfree 0xffff000000000000 (h\<lparr>kh_mem := (kh_mem h)(phys_to_virt 0xffff000000000000 r + 16 := 7)\<rparr>)
       (phys_to_virt 0xffff000000000000 r + 16) = Some h' \<and>
     kheap_live 0xffff000000000000 h' {} \<and> pmm_held (kh_pmm h') = pmm_held (kh_pmm h) - page_range r c \<and>
     kfree 0xffff000000000000 h' (phys_to_virt 0xffff000000000000 r + 16) = Some h'"
proof -
  have ok: "kheap_ok 0xffff000000000000 heap8" using heap8_live by (simp add: kheap_live_def)
  obtain r c h where "kmalloc_done 0xffff000000000000 heap8 100 r c h"
    using heap8_kmalloc by (cases rule: kmalloc_cases [OF ok, of 100]) auto
  from kmalloc_done_live(1) [OF heap8_live this]
  have L: "kheap_live 0xffff000000000000 h {(r, c, 100)}" .
  have "phys_to_virt 0xffff000000000000 r + 16 \<in> span (phys_to_virt 0xffff000000000000 r + 16) (unat (100 :: u64))"
    by (simp add: span_def)
  then have "mem_eq_on (- span (phys_to_virt 0xffff000000000000 r + 16) (unat (100 :: u64))) (kh_mem h)
      ((kh_mem h)(phys_to_virt 0xffff000000000000 r + 16 := 7))"
    by (auto simp: mem_eq_on_def)
  with kfree_live [OF L, of r c 100] L show ?thesis by fastforce
qed

end
