(* ===== verification/Shared_Page.thy ===== *)
theory Shared_Page
  imports Pmm
begin

text \<open>
  Reference counts of shared physical pages, \<^verbatim>\<open>kernel/mm/shared_page.c\<close>. The table is one
  array of entries that are linked, by index, into 512 hash chains and one free chain;
  \<open>-1\<close> ends a chain. Walking a chain is a loop that could run forever on a cyclic chain, so
  it is a partial function (\<open>None\<close>: does not return), and the invariant shows it returns.
  The spinlock makes every operation atomic.
\<close>

unbundle bit_operations_syntax

section \<open>State and operations\<close>

abbreviation (input) SHARED_PAGE_BUCKETS :: nat where
  "SHARED_PAGE_BUCKETS \<equiv> 512"

abbreviation (input) SHARED_PAGE_MAX :: nat where
  "SHARED_PAGE_MAX \<equiv> 4096"

record shared_page_entry_t =
  sp_paddr :: u64
  sp_refcount :: u32
  sp_next :: int

record shared_pages =
  g_entries :: "shared_page_entry_t list"
  g_buckets :: "int list"
  g_free_head :: int
  g_initialized :: bool

definition shared_pages_init_locked :: "shared_pages \<Rightarrow> shared_pages" where
  "shared_pages_init_locked s =
     (if g_initialized s then s
      else s\<lparr>g_buckets := map (\<lambda>i. - 1) [0..<SHARED_PAGE_BUCKETS],
             g_entries := map (\<lambda>i. \<lparr>sp_paddr = 0, sp_refcount = 0,
                                    sp_next = (if i + 1 < SHARED_PAGE_MAX then int (i + 1) else - 1)\<rparr>)
                            [0..<SHARED_PAGE_MAX],
             g_free_head := 0, g_initialized := True\<rparr>)"

definition shared_page_bucket :: "u64 \<Rightarrow> u32" where
  "shared_page_bucket paddr =
     (let x = drop_bit 12 paddr;
          x = x XOR drop_bit 33 x;
          x = x * 0xff51afd7ed558ccd;
          x = x XOR drop_bit 33 x
      in ucast (x AND (512 - 1)))"

abbreviation bucket_of :: "u64 \<Rightarrow> nat" where
  "bucket_of p \<equiv> unat (shared_page_bucket p)"

text \<open>The loop of \<open>shared_page_find_locked\<close>, from entry \<open>i\<close> on.\<close>

partial_function (option) find_loop_sp :: "shared_page_entry_t list \<Rightarrow> u64 \<Rightarrow> int \<Rightarrow> int option" where
  "find_loop_sp es paddr i =
     (if i \<ge> 0
      then if sp_paddr (es ! nat i) = paddr then Some i
           else find_loop_sp es paddr (sp_next (es ! nat i))
      else Some (- 1))"

definition shared_page_find_locked :: "shared_pages \<Rightarrow> u64 \<Rightarrow> int option" where
  "shared_page_find_locked s paddr =
     find_loop_sp (g_entries s) paddr (g_buckets s ! unat (shared_page_bucket paddr))"

definition shared_page_ref :: "shared_pages \<Rightarrow> u64 \<Rightarrow> (bool \<times> shared_pages) option" where
  "shared_page_ref s paddr =
     (if paddr = 0 \<or> paddr AND (PAGE_SIZE - 1) \<noteq> 0 then Some (False, s)
      else let s = shared_pages_init_locked s
           in do {
             idx \<leftarrow> shared_page_find_locked s paddr;
             if idx \<ge> 0
             then let e = g_entries s ! nat idx
                  in if sp_refcount e = 0xFFFFFFFF then Some (False, s)
                     else Some (True, s\<lparr>g_entries := (g_entries s)[nat idx := e\<lparr>sp_refcount := sp_refcount e + 1\<rparr>]\<rparr>)
             else if g_free_head s < 0 then Some (False, s)
             else let idx = g_free_head s;
                      bucket = unat (shared_page_bucket paddr)
                  in Some (True,
                       s\<lparr>g_free_head := sp_next (g_entries s ! nat idx),
                         g_entries := (g_entries s)[nat idx := \<lparr>sp_paddr = paddr, sp_refcount = 1,
                                                               sp_next = g_buckets s ! bucket\<rparr>],
                         g_buckets := (g_buckets s)[bucket := idx]\<rparr>)
           })"

text \<open>The search loop of \<open>shared_page_unref\<close>: previous and current entry.\<close>

partial_function (option) unref_loop :: "shared_page_entry_t list \<Rightarrow> u64 \<Rightarrow> int \<Rightarrow> int \<Rightarrow> (int \<times> int) option" where
  "unref_loop es paddr prev idx =
     (if idx \<ge> 0 \<and> sp_paddr (es ! nat idx) \<noteq> paddr
      then unref_loop es paddr idx (sp_next (es ! nat idx))
      else Some (prev, idx))"

definition shared_page_unref :: "shared_pages \<Rightarrow> pmm_t \<Rightarrow> u64 \<Rightarrow> (shared_pages \<times> pmm_t) option" where
  "shared_page_unref s pm paddr =
     (if paddr = 0 then Some (s, pm)
      else if paddr AND (PAGE_SIZE - 1) \<noteq> 0 then Some (s, pm)
      else let s = shared_pages_init_locked s;
               bucket = unat (shared_page_bucket paddr)
           in do {
             (prev, idx) \<leftarrow> unref_loop (g_entries s) paddr (- 1) (g_buckets s ! bucket);
             if idx < 0 then Some (s, pm)
             else let e = g_entries s ! nat idx
             in if sp_refcount e > 1
             then Some (s\<lparr>g_entries := (g_entries s)[nat idx := e\<lparr>sp_refcount := sp_refcount e - 1\<rparr>]\<rparr>, pm)
             else let s = (if prev < 0
                           then s\<lparr>g_buckets := (g_buckets s)[bucket := sp_next e]\<rparr>
                           else s\<lparr>g_entries := (g_entries s)[nat prev := (g_entries s ! nat prev)\<lparr>sp_next := sp_next e\<rparr>]\<rparr>);
                      s = s\<lparr>g_entries := (g_entries s)[nat idx := \<lparr>sp_paddr = 0, sp_refcount = 0, sp_next = g_free_head s\<rparr>],
                            g_free_head := idx\<rparr>
                  in do {
                    (b, pm) \<leftarrow> pmm_free_pages pm paddr 1;
                    Some (s, pm)
                  }
           })"

declare find_loop_sp.simps [code] unref_loop.simps [code]

section \<open>Chains\<close>

text \<open>\<open>chain es i js\<close>: from index \<open>i\<close> on, the links visit exactly the entries \<open>js\<close>, then end.\<close>

fun chain :: "shared_page_entry_t list \<Rightarrow> int \<Rightarrow> nat list \<Rightarrow> bool" where
  "chain es i [] \<longleftrightarrow> i < 0"
| "chain es i (j # js) \<longleftrightarrow> i = int j \<and> chain es (sp_next (es ! j)) js"

lemma chain_cong:
  "(\<And>j. j \<in> set js \<Longrightarrow> sp_next (es' ! j) = sp_next (es ! j)) \<Longrightarrow> chain es' i js = chain es i js"
  by (induction js arbitrary: i) simp_all

lemma chain_update_other: "j \<notin> set js \<Longrightarrow> chain (es[j := e]) i js = chain es i js"
  by (rule chain_cong) (metis nth_list_update_neq)

lemma chain_append: "chain es i (xs @ j # ys) \<Longrightarrow> chain es (sp_next (es ! j)) ys"
  by (induction xs arbitrary: i) simp_all

lemma find_loop_sp_chain:
  "chain es i js \<Longrightarrow>
   find_loop_sp es p i = Some (case find (\<lambda>j. sp_paddr (es ! j) = p) js of Some j \<Rightarrow> int j | None \<Rightarrow> - 1)"
  by (induction js arbitrary: i) (subst find_loop_sp.simps; simp)+

text \<open>The loop of \<open>shared_page_unref\<close> stops at the entry, or behind the last one.\<close>

lemma unref_loop_absent:
  "chain es i js \<Longrightarrow> (\<And>j. j \<in> set js \<Longrightarrow> sp_paddr (es ! j) \<noteq> p) \<Longrightarrow>
   \<exists>prev' i'. unref_loop es p prev i = Some (prev', i') \<and> i' < 0"
  by (induction js arbitrary: i prev) (subst unref_loop.simps; simp)+

lemma unref_loop_found:
  "chain es i (xs @ j # ys) \<Longrightarrow> (\<And>k. k \<in> set xs \<Longrightarrow> sp_paddr (es ! k) \<noteq> p) \<Longrightarrow> sp_paddr (es ! j) = p \<Longrightarrow>
   unref_loop es p prev i = Some (if xs = [] then prev else int (last xs), int j)"
  by (induction xs arbitrary: i prev) (subst unref_loop.simps; simp)+

text \<open>Unlinking an entry that has a predecessor.\<close>

lemma chain_unlink:
  assumes "chain es i (xs @ j # ys)" "xs \<noteq> []" "distinct (xs @ j # ys)" "last xs < length es"
  shows "chain (es[last xs := e\<lparr>sp_next := sp_next (es ! j)\<rparr>]) i (xs @ ys)"
  using assms
proof (induction xs arbitrary: i)
  case (Cons x xs)
  show ?case
  proof (cases "xs = []")
    case True
    with Cons.prems show ?thesis by (simp add: chain_update_other)
  next
    case False
    with Cons.prems have "x \<noteq> last xs" by auto
    with False Cons show ?thesis by simp
  qed
qed simp

section \<open>Invariant and abstraction\<close>

text \<open>The pairs (page, count) of the entries \<open>js\<close>.\<close>

definition counts :: "shared_page_entry_t list \<Rightarrow> nat list \<Rightarrow> (u64 \<times> u32) list" where
  "counts es js = map (\<lambda>j. (sp_paddr (es ! j), sp_refcount (es ! j))) js"

definition entry_ok :: "nat \<Rightarrow> shared_page_entry_t \<Rightarrow> bool" where
  "entry_ok b e \<longleftrightarrow>
     bucket_of (sp_paddr e) = b \<and> sp_paddr e \<noteq> 0 \<and> unat (sp_paddr e) mod 4096 = 0 \<and> sp_refcount e \<noteq> 0"

text \<open>
  \<open>cs b\<close> are the entries of hash chain \<open>b\<close>, \<open>fl\<close> those of the free chain: every entry is on
  exactly one chain, and a page has at most one entry, on the chain its hash selects.
\<close>

definition sp_struct :: "shared_pages \<Rightarrow> (nat \<Rightarrow> nat list) \<Rightarrow> nat list \<Rightarrow> bool" where
  "sp_struct s cs fl \<longleftrightarrow>
     g_initialized s \<and> length (g_entries s) = SHARED_PAGE_MAX \<and> length (g_buckets s) = SHARED_PAGE_BUCKETS \<and>
     (\<forall>b < SHARED_PAGE_BUCKETS.
        chain (g_entries s) (g_buckets s ! b) (cs b) \<and> distinct (map fst (counts (g_entries s) (cs b))) \<and>
        (\<forall>j \<in> set (cs b). entry_ok b (g_entries s ! j) \<and> j \<notin> set fl)) \<and>
     chain (g_entries s) (g_free_head s) fl \<and> distinct fl \<and>
     (\<Union>b < SHARED_PAGE_BUCKETS. set (cs b)) \<union> set fl = {0..<SHARED_PAGE_MAX}"

definition sp_counts :: "shared_pages \<Rightarrow> (nat \<Rightarrow> nat list) \<Rightarrow> u64 \<Rightarrow> u32 option" where
  "sp_counts s cs p = map_of (counts (g_entries s) (cs (bucket_of p))) p"

text \<open>The table represents the finite map \<open>m\<close> from shared pages to their counts.\<close>

definition sp_abs :: "shared_pages \<Rightarrow> (u64 \<rightharpoonup> u32) \<Rightarrow> bool" where
  "sp_abs s m \<longleftrightarrow> (\<exists>cs fl. sp_struct (shared_pages_init_locked s) cs fl \<and> m = sp_counts (shared_pages_init_locked s) cs)"

lemma bucket_of_less: "bucket_of p < 512"
proof -
  have "unat (x AND 511 :: u64) < 512" for x
  proof -
    have "x AND 511 = take_bit 9 x" by (simp add: take_bit_eq_mask mask_eq_exp_minus_1)
    then show ?thesis by (simp add: take_bit_eq_mod unat_mod_distrib)
  qed
  moreover have "unat (ucast (w :: u64) :: u32) \<le> unat w" for w
    by (simp add: unsigned_ucast_eq take_bit_eq_mod)
  ultimately have "unat (ucast (x AND 511 :: u64) :: u32) < 512" for x
    using le_less_trans by blast
  then show ?thesis by (simp add: shared_page_bucket_def Let_def)
qed

lemma counts_simps [simp]:
  "counts es [] = []" "counts es (j # js) = (sp_paddr (es ! j), sp_refcount (es ! j)) # counts es js"
  "counts es (xs @ ys) = counts es xs @ counts es ys"
  by (simp_all add: counts_def)

lemma fst_counts: "map fst (counts es js) = map (\<lambda>j. sp_paddr (es ! j)) js"
  by (simp add: counts_def)

lemma counts_cong:
  "(\<And>j. j \<in> set js \<Longrightarrow> sp_paddr (es' ! j) = sp_paddr (es ! j) \<and> sp_refcount (es' ! j) = sp_refcount (es ! j)) \<Longrightarrow>
   counts es' js = counts es js"
  by (simp add: counts_def)

lemma counts_update_other [simp]: "j \<notin> set js \<Longrightarrow> counts (es[j := e]) js = counts es js"
  by (rule counts_cong) (metis nth_list_update_neq)

lemma counts_distinct: "distinct (map fst (counts es js)) \<Longrightarrow> distinct js"
  by (auto simp: fst_counts distinct_map)

lemma map_of_counts_bump:
  assumes "distinct (map fst (counts es js))" "j \<in> set js" "j < length es" "sp_paddr e = sp_paddr (es ! j)"
  shows "map_of (counts (es[j := e]) js) = (map_of (counts es js))(sp_paddr (es ! j) \<mapsto> sp_refcount e)"
  using assms
proof (induction js)
  case (Cons x js)
  show ?case
  proof (cases "x = j")
    case True
    with Cons.prems counts_distinct [OF Cons.prems(1)] show ?thesis by (simp add: fun_eq_iff)
  next
    case False
    with Cons.prems have "sp_paddr (es ! x) \<noteq> sp_paddr (es ! j)" by (auto simp: fst_counts)
    with False Cons show ?thesis by (auto simp: fun_eq_iff)
  qed
qed simp

lemma map_of_counts_remove:
  assumes "distinct (map fst (counts es (xs @ j # ys)))"
  shows "map_of (counts es (xs @ ys)) = (map_of (counts es (xs @ j # ys)))(sp_paddr (es ! j) := None)"
  using assms by (induction xs) (auto simp: fun_eq_iff map_of_eq_None_iff counts_def image_iff)

lemma sp_structD:
  assumes "sp_struct s cs fl"
  shows "g_initialized s" "length (g_entries s) = 4096" "length (g_buckets s) = 512"
    "b < 512 \<Longrightarrow> chain (g_entries s) (g_buckets s ! b) (cs b)"
    "b < 512 \<Longrightarrow> distinct (map fst (counts (g_entries s) (cs b)))"
    "b < 512 \<Longrightarrow> j \<in> set (cs b) \<Longrightarrow> entry_ok b (g_entries s ! j)"
    "b < 512 \<Longrightarrow> j \<in> set (cs b) \<Longrightarrow> j \<notin> set fl"
    "chain (g_entries s) (g_free_head s) fl" "distinct fl"
    "(\<Union>b < 512. set (cs b)) \<union> set fl = {0..<4096}"
    "b < 512 \<Longrightarrow> j \<in> set (cs b) \<Longrightarrow> j < 4096" "j \<in> set fl \<Longrightarrow> j < 4096"
proof -
  note d = assms [unfolded sp_struct_def]
  show "g_initialized s" "length (g_entries s) = 4096" "length (g_buckets s) = 512"
    "b < 512 \<Longrightarrow> chain (g_entries s) (g_buckets s ! b) (cs b)"
    "b < 512 \<Longrightarrow> distinct (map fst (counts (g_entries s) (cs b)))"
    "b < 512 \<Longrightarrow> j \<in> set (cs b) \<Longrightarrow> entry_ok b (g_entries s ! j)"
    "b < 512 \<Longrightarrow> j \<in> set (cs b) \<Longrightarrow> j \<notin> set fl"
    "chain (g_entries s) (g_free_head s) fl" "distinct fl"
    using d by simp_all
  from d show all: "(\<Union>b < 512. set (cs b)) \<union> set fl = {0..<4096}" by blast
  show "j < 4096" if "b < 512" "j \<in> set (cs b)"
  proof -
    from that have "j \<in> (\<Union>b < 512. set (cs b)) \<union> set fl" by blast
    then show ?thesis unfolding all by simp
  qed
  show "j < 4096" if "j \<in> set fl"
  proof -
    from that have "j \<in> (\<Union>b < 512. set (cs b)) \<union> set fl" by blast
    then show ?thesis unfolding all by simp
  qed
qed

lemma sp_chains_disjoint:
  assumes "sp_struct s cs fl" "b < 512" "b' < 512" "j \<in> set (cs b)" "j \<in> set (cs b')"
  shows "b = b'"
  using sp_structD(6) [OF assms(1,2,4)] sp_structD(6) [OF assms(1,3,5)] by (simp add: entry_ok_def)

lemma chain_upt:
  assumes "\<And>k. k < n \<Longrightarrow> sp_next (es ! k) = (if k + 1 < n then int (k + 1) else - 1)" "i < n"
  shows "chain es (int i) [i..<n]"
  using assms(2)
proof (induction "n - i" arbitrary: i)
  case (Suc d)
  then have "[i..<n] = i # [Suc i..<n]" by (simp add: upt_conv_Cons)
  moreover have "Suc i < n \<Longrightarrow> chain es (int (Suc i)) [Suc i..<n]" using Suc.hyps(2) by (intro Suc.hyps(1)) simp_all
  ultimately show ?case using Suc.prems assms(1) [of i] by (cases "Suc i < n") simp_all
qed simp

lemma sp_init:
  assumes "\<not> g_initialized s"
  shows "sp_struct (shared_pages_init_locked s) (\<lambda>_. []) [0..<4096]"
proof -
  have "chain (g_entries (shared_pages_init_locked s)) (int 0) [0..<4096]"
    by (rule chain_upt) (simp_all add: shared_pages_init_locked_def assms)
  then show ?thesis
    by (auto simp: sp_struct_def shared_pages_init_locked_def assms)
qed

lemma init_again [simp]: "g_initialized s \<Longrightarrow> shared_pages_init_locked s = s"
  by (simp add: shared_pages_init_locked_def)

lemma sp_abs_initialized: "sp_abs s m \<Longrightarrow> g_initialized (shared_pages_init_locked s)"
  by (simp add: shared_pages_init_locked_def)

text \<open>Changing the count of an entry in use.\<close>

lemma sp_set_count:
  assumes st: "sp_struct s cs fl" and b: "b < 512" and j: "j \<in> set (cs b)" and r: "r \<noteq> 0"
  defines "s' \<equiv> s\<lparr>g_entries := (g_entries s)[j := (g_entries s ! j)\<lparr>sp_refcount := r\<rparr>]\<rparr>"
  shows "sp_struct s' cs fl" "sp_counts s' cs = (sp_counts s cs)(sp_paddr (g_entries s ! j) \<mapsto> r)"
proof -
  let ?es = "g_entries s" and ?e = "(g_entries s ! j)\<lparr>sp_refcount := r\<rparr>"
  have jl: "j < length ?es" using sp_structD(2,11) [OF st] b j by simp
  have upd: "sp_next (?es[j := ?e] ! k) = sp_next (?es ! k)" "sp_paddr (?es[j := ?e] ! k) = sp_paddr (?es ! k)" for k
    using jl by (simp_all add: nth_list_update)
  have ch: "chain (?es[j := ?e]) i js = chain ?es i js" for i js by (rule chain_cong) (rule upd)
  have ok: "entry_ok b' (?es[j := ?e] ! k)" if "entry_ok b' (?es ! k)" for b' k
    using that r jl by (auto simp: entry_ok_def nth_list_update)
  show "sp_struct s' cs fl"
    using st unfolding sp_struct_def s'_def by (simp add: ch fst_counts upd ok)
  show "sp_counts s' cs = (sp_counts s cs)(sp_paddr (?es ! j) \<mapsto> r)"
  proof
    fix p
    show "sp_counts s' cs p = ((sp_counts s cs)(sp_paddr (?es ! j) \<mapsto> r)) p"
    proof (cases "j \<in> set (cs (bucket_of p))")
      case True
      then show ?thesis
        using map_of_counts_bump [OF sp_structD(5) [OF st bucket_of_less] True jl, of ?e]
        by (simp add: sp_counts_def s'_def)
    next
      case False
      then have "sp_paddr (?es ! j) \<noteq> p"
        using sp_structD(6) [OF st b j] j by (auto simp: entry_ok_def)
      with False show ?thesis by (simp add: sp_counts_def s'_def)
    qed
  qed
qed

text \<open>Linking a free entry in, at the head of its chain.\<close>

lemma sp_link:
  assumes st: "sp_struct s cs (j # fl)" and p: "p \<noteq> 0" "unat p mod 4096 = 0" "sp_counts s cs p = None"
  defines "s' \<equiv> s\<lparr>g_free_head := sp_next (g_entries s ! j),
      g_entries := (g_entries s)[j := \<lparr>sp_paddr = p, sp_refcount = 1, sp_next = g_buckets s ! bucket_of p\<rparr>],
      g_buckets := (g_buckets s)[bucket_of p := int j]\<rparr>"
  shows "sp_struct s' (cs(bucket_of p := j # cs (bucket_of p))) fl"
    "sp_counts s' (cs(bucket_of p := j # cs (bucket_of p))) = (sp_counts s cs)(p \<mapsto> 1)"
proof -
  let ?es = "g_entries s" and ?b = "bucket_of p"
  have jl: "j < length ?es" "j \<notin> set fl" using sp_structD(2,9,12) [OF st] by auto
  have fresh: "j \<notin> set (cs b)" if "b < 512" for b using sp_structD(7) [OF st that] by auto
  have bl: "?b < 512" by (rule bucket_of_less)
  have new: "p \<notin> fst ` set (counts ?es (cs ?b))"
    using p(3) by (simp add: sp_counts_def map_of_eq_None_iff)
  show "sp_counts s' (cs(?b := j # cs ?b)) = (sp_counts s cs)(p \<mapsto> 1)"
    using fresh [OF bucket_of_less] jl by (auto simp: sp_counts_def s'_def fun_eq_iff)
  have "chain (g_entries s') (g_buckets s' ! b) ((cs(?b := j # cs ?b)) b) \<and>
      distinct (map fst (counts (g_entries s') ((cs(?b := j # cs ?b)) b))) \<and>
      (\<forall>k \<in> set ((cs(?b := j # cs ?b)) b). entry_ok b (g_entries s' ! k) \<and> k \<notin> set fl)" if b: "b < 512" for b
    using sp_structD(4-7) [OF st b] fresh [OF b] fresh [OF bl] new jl p sp_structD(3) [OF st] bl
    by (auto simp: s'_def chain_update_other entry_ok_def nth_list_update)
  moreover have "(\<Union>b < 512. set ((cs(?b := j # cs ?b)) b)) = insert j (\<Union>b < 512. set (cs b))"
    using bl by (auto split: if_splits)
  then have "(\<Union>b < 512. set ((cs(?b := j # cs ?b)) b)) \<union> set fl = {0..<4096}"
    using sp_structD(10) [OF st] by simp
  moreover have "chain (g_entries s') (g_free_head s') fl"
    using sp_structD(8) [OF st] jl by (simp add: s'_def chain_update_other)
  ultimately show "sp_struct s' (cs(?b := j # cs ?b)) fl"
    using sp_structD(1-3,9) [OF st] unfolding sp_struct_def by (simp add: s'_def)
qed

text \<open>Taking an entry out of its chain and putting it on the free chain.\<close>

definition unlinked :: "shared_pages \<Rightarrow> nat \<Rightarrow> nat list \<Rightarrow> nat \<Rightarrow> shared_pages" where
  "unlinked s b xs j =
     (let s1 = (if xs = [] then s\<lparr>g_buckets := (g_buckets s)[b := sp_next (g_entries s ! j)]\<rparr>
                else s\<lparr>g_entries := (g_entries s)[last xs := (g_entries s ! last xs)\<lparr>sp_next := sp_next (g_entries s ! j)\<rparr>]\<rparr>)
      in s1\<lparr>g_entries := (g_entries s1)[j := \<lparr>sp_paddr = 0, sp_refcount = 0, sp_next = g_free_head s1\<rparr>],
            g_free_head := int j\<rparr>)"

text \<open>Its chain must be given: \<open>xs\<close> before the entry, \<open>ys\<close> after it.\<close>

lemma unlinked_ctx:
  assumes st: "sp_struct s cs fl" and b: "b < 512" and cb: "cs b = xs @ j # ys"
  shows "j < length (g_entries s)" "j \<notin> set fl" "distinct (xs @ j # ys)"
    "xs \<noteq> [] \<Longrightarrow> last xs < length (g_entries s)" "xs \<noteq> [] \<Longrightarrow> last xs \<noteq> j" "xs \<noteq> [] \<Longrightarrow> last xs \<in> set (cs b)"
    "b' < 512 \<Longrightarrow> b' \<noteq> b \<Longrightarrow> set (cs b') \<inter> set (cs b) = {}"
    "bucket_of (sp_paddr (g_entries s ! j)) = b"
proof -
  have j: "j \<in> set (cs b)" using cb by simp
  show "j < length (g_entries s)" "j \<notin> set fl" using sp_structD(2,7,11) [OF st] b j by auto
  show d: "distinct (xs @ j # ys)" using counts_distinct [OF sp_structD(5) [OF st b]] cb by simp
  show "last xs < length (g_entries s)" "last xs \<noteq> j" "last xs \<in> set (cs b)" if "xs \<noteq> []"
    using that cb d sp_structD(2,11) [OF st] b by (auto dest: last_in_set)
  show "set (cs b') \<inter> set (cs b) = {}" if "b' < 512" "b' \<noteq> b"
    using sp_chains_disjoint [OF st that(1) b] that by blast
  show "bucket_of (sp_paddr (g_entries s ! j)) = b" using sp_structD(6) [OF st b j] by (simp add: entry_ok_def)
qed

lemma unlinked_frame:
  assumes st: "sp_struct s cs fl" and b: "b < 512" and cb: "cs b = xs @ j # ys"
  defines "es' \<equiv> g_entries (unlinked s b xs j)"
  shows "k \<noteq> j \<Longrightarrow> sp_paddr (es' ! k) = sp_paddr (g_entries s ! k) \<and> sp_refcount (es' ! k) = sp_refcount (g_entries s ! k)"
    "k \<notin> set (cs b) \<Longrightarrow> sp_next (es' ! k) = sp_next (g_entries s ! k)"
    "j \<notin> set js \<Longrightarrow> counts es' js = counts (g_entries s) js"
    "k \<noteq> j \<Longrightarrow> entry_ok b' (es' ! k) = entry_ok b' (g_entries s ! k)"
proof -
  note ctx = unlinked_ctx [OF assms(1-3)]
  show same: "sp_paddr (es' ! k) = sp_paddr (g_entries s ! k) \<and> sp_refcount (es' ! k) = sp_refcount (g_entries s ! k)"
    if "k \<noteq> j" for k
    using that ctx(1,4) by (auto simp: es'_def unlinked_def nth_list_update)
  then show "k \<noteq> j \<Longrightarrow> entry_ok b' (es' ! k) = entry_ok b' (g_entries s ! k)" by (simp add: entry_ok_def)
  show "k \<notin> set (cs b) \<Longrightarrow> sp_next (es' ! k) = sp_next (g_entries s ! k)"
    using ctx(1,4,6) cb by (auto simp: es'_def unlinked_def nth_list_update)
  show "counts es' js = counts (g_entries s) js" if "j \<notin> set js"
    by (rule counts_cong, rule same) (use that in blast)
qed

lemma unlinked_chain:
  assumes st: "sp_struct s cs fl" and b: "b < 512" and cb: "cs b = xs @ j # ys"
  shows "chain (g_entries (unlinked s b xs j)) (g_buckets (unlinked s b xs j) ! b) (xs @ ys)"
proof (cases "xs = []")
  case True
  then show ?thesis
    using sp_structD(3,4) [OF st] b cb unlinked_ctx(3) [OF assms]
    by (simp add: unlinked_def) (metis chain.simps(2) chain_update_other append_Nil)
next
  case False
  note ctx = unlinked_ctx [OF assms]
  have "chain ((g_entries s)[last xs := (g_entries s ! last xs)\<lparr>sp_next := sp_next (g_entries s ! j)\<rparr>])
      (g_buckets s ! b) (xs @ ys)"
    using sp_structD(4) [OF st b] False ctx(3,4) cb by (intro chain_unlink) simp_all
  with False ctx(3) show ?thesis by (simp add: unlinked_def chain_update_other)
qed

lemma UN_chains_upd:
  "b \<in> I \<Longrightarrow> (\<Union>i \<in> I. set ((cs(b := xs)) i)) = set xs \<union> (\<Union>i \<in> I - {b}. set (cs i))"
  by (auto split: if_splits)

lemma sp_unlink:
  assumes st: "sp_struct s cs fl" and b: "b < 512" and cb: "cs b = xs @ j # ys"
  shows "sp_struct (unlinked s b xs j) (cs(b := xs @ ys)) (j # fl)"
proof -
  let ?es = "g_entries s" and ?s = "unlinked s b xs j" and ?cs = "cs(b := xs @ ys)"
  let ?es' = "g_entries ?s"
  note ctx = unlinked_ctx [OF assms] and fr = unlinked_frame [OF assms]
  have "chain ?es' (g_free_head s) fl = chain ?es (g_free_head s) fl"
    using sp_structD(7) [OF st b] by (intro chain_cong fr(2)) blast
  then have free: "chain ?es' (g_free_head ?s) (j # fl)"
    using sp_structD(8) [OF st] ctx(1) by (auto simp: unlinked_def)
  have "chain ?es' (g_buckets ?s ! b') (?cs b') \<and> distinct (map fst (counts ?es' (?cs b'))) \<and>
      (\<forall>k \<in> set (?cs b'). entry_ok b' (?es' ! k) \<and> k \<notin> set (j # fl))" if b': "b' < 512" for b'
  proof (cases "b' = b")
    case True
    have "entry_ok b (?es' ! k) \<and> k \<notin> set (j # fl)" if "k \<in> set (xs @ ys)" for k
    proof -
      from that ctx(3) have "k \<noteq> j" by auto
      with that cb sp_structD(6,7) [OF st b, of k] fr(4) [of k b] show ?thesis by simp
    qed
    moreover have "distinct (map fst (counts ?es' (xs @ ys)))"
      using sp_structD(5) [OF st b] cb fr(3) [of "xs @ ys"] ctx(3) by simp
    ultimately show ?thesis using unlinked_chain [OF assms] True by simp
  next
    case False
    note o = ctx(7) [OF b' False]
    with cb have jo: "j \<notin> set (cs b')" by auto
    have "chain ?es' (g_buckets s ! b') (cs b') = chain ?es (g_buckets s ! b') (cs b')"
      using o by (intro chain_cong fr(2)) blast
    moreover have "g_buckets ?s ! b' = g_buckets s ! b'" using False by (simp add: unlinked_def Let_def)
    moreover have "entry_ok b' (?es' ! k) \<and> k \<notin> set (j # fl)" if "k \<in> set (cs b')" for k
    proof -
      from that jo have "k \<noteq> j" by blast
      with sp_structD(6,7) [OF st b' that] fr(4) [of k b'] show ?thesis by simp
    qed
    ultimately show ?thesis using sp_structD(4,5) [OF st b'] fr(3) [OF jo] False by simp
  qed
  moreover have "(\<Union>b < 512. set (cs b)) = insert j (\<Union>b < 512. set (?cs b))"
    using UN_chains_upd [of b "{..<512}" cs "xs @ ys"] UN_chains_upd [of b "{..<512}" cs "cs b", unfolded fun_upd_triv] b cb by simp
  with sp_structD(10) [OF st] have "(\<Union>b < 512. set (?cs b)) \<union> set (j # fl) = {0..<4096}" by simp
  ultimately show ?thesis
    using sp_structD(1-3,9) [OF st] free ctx(2) unfolding sp_struct_def by (simp add: unlinked_def Let_def)
qed

lemma sp_unlink_counts:
  assumes st: "sp_struct s cs fl" and b: "b < 512" and cb: "cs b = xs @ j # ys"
  shows "sp_counts (unlinked s b xs j) (cs(b := xs @ ys)) = (sp_counts s cs)(sp_paddr (g_entries s ! j) := None)"
proof
  fix p
  note ctx = unlinked_ctx [OF assms] and fr = unlinked_frame(3) [OF assms]
  show "sp_counts (unlinked s b xs j) (cs(b := xs @ ys)) p = ((sp_counts s cs)(sp_paddr (g_entries s ! j) := None)) p"
  proof (cases "bucket_of p = b")
    case True
    have "distinct (map fst (counts (g_entries s) (xs @ j # ys)))" using sp_structD(5) [OF st b] cb by simp
    from map_of_counts_remove [OF this] True show ?thesis
      using fr [of "xs @ ys"] ctx(3) cb by (simp add: sp_counts_def)
  next
    case False
    with ctx(7) [OF bucket_of_less False] cb have "j \<notin> set (cs (bucket_of p))" by auto
    with False ctx(8) fr show ?thesis by (auto simp: sp_counts_def)
  qed
qed

lemma dom_sp_counts:
  assumes st: "sp_struct s cs fl"
  shows "dom (sp_counts s cs) = (\<lambda>j. sp_paddr (g_entries s ! j)) ` (\<Union>b < 512. set (cs b))"
proof -
  have mem: "p \<in> dom (sp_counts s cs) \<longleftrightarrow> (\<exists>j \<in> set (cs (bucket_of p)). sp_paddr (g_entries s ! j) = p)" for p
    by (simp add: sp_counts_def domIff map_of_eq_None_iff counts_def image_iff) (metis)
  have own: "b = bucket_of (sp_paddr (g_entries s ! j))" if "b < 512" "j \<in> set (cs b)" for b j
    using sp_structD(6) [OF st that] by (simp add: entry_ok_def)
  show ?thesis
  proof (intro set_eqI iffI)
    fix p assume "p \<in> dom (sp_counts s cs)"
    with mem [of p] obtain j where "j \<in> set (cs (bucket_of p))" "p = sp_paddr (g_entries s ! j)" by blast
    with bucket_of_less [of p] show "p \<in> (\<lambda>j. sp_paddr (g_entries s ! j)) ` (\<Union>b < 512. set (cs b))"
      by (intro image_eqI [of _ _ j] UN_I [of "bucket_of p"]) simp_all
  next
    fix p assume "p \<in> (\<lambda>j. sp_paddr (g_entries s ! j)) ` (\<Union>b < 512. set (cs b))"
    then obtain b j where bj: "b < 512" "j \<in> set (cs b)" "p = sp_paddr (g_entries s ! j)" by auto
    with own [OF bj(1,2)] mem [of p] show "p \<in> dom (sp_counts s cs)" by blast
  qed
qed

text \<open>The table is full exactly when 4096 pages are recorded.\<close>

lemma card_sp_counts:
  assumes st: "sp_struct s cs fl"
  shows "card (dom (sp_counts s cs)) + length fl = 4096"
proof -
  let ?U = "\<Union>b < 512. set (cs b)"
  have inj: "inj_on (\<lambda>j. sp_paddr (g_entries s ! j)) ?U"
  proof (rule inj_onI)
    fix j k assume jk: "j \<in> ?U" "k \<in> ?U" "sp_paddr (g_entries s ! j) = sp_paddr (g_entries s ! k)"
    then obtain b b' where b: "b < 512" "j \<in> set (cs b)" "b' < 512" "k \<in> set (cs b')" by auto
    with jk(3) sp_structD(6) [OF st b(1,2)] sp_structD(6) [OF st b(3,4)] have "b = b'"
      by (simp add: entry_ok_def)
    moreover have "inj_on (\<lambda>j. sp_paddr (g_entries s ! j)) (set (cs b))"
      using sp_structD(5) [OF st b(1)] by (simp add: fst_counts distinct_map)
    ultimately show "j = k" using b jk(3) by (auto dest: inj_onD)
  qed
  have dj: "?U \<inter> set fl = {}" using sp_structD(7) [OF st] by blast
  have "card ?U + card (set fl) = card (?U \<union> set fl)"
    by (rule card_Un_disjoint [symmetric]) (use dj in simp_all)
  also have "\<dots> = 4096" unfolding sp_structD(10) [OF st] by simp
  finally show ?thesis
    using sp_structD(9) [OF st] by (simp add: dom_sp_counts [OF st] card_image [OF inj] distinct_card)
qed

lemma sp_find:
  assumes st: "sp_struct s cs fl"
  shows "shared_page_find_locked s p =
    Some (case find (\<lambda>j. sp_paddr (g_entries s ! j) = p) (cs (bucket_of p)) of Some j \<Rightarrow> int j | None \<Rightarrow> - 1)"
  unfolding shared_page_find_locked_def by (rule find_loop_sp_chain [OF sp_structD(4) [OF st bucket_of_less]])

text \<open>A page is recorded by the entry the search finds.\<close>

lemma sp_counts_cases:
  assumes st: "sp_struct s cs fl"
  obtains (absent) "sp_counts s cs p = None" "\<And>j. j \<in> set (cs (bucket_of p)) \<Longrightarrow> sp_paddr (g_entries s ! j) \<noteq> p"
  | (found) xs j ys where "cs (bucket_of p) = xs @ j # ys" "sp_paddr (g_entries s ! j) = p"
      "sp_counts s cs p = Some (sp_refcount (g_entries s ! j))"
      "\<And>k. k \<in> set xs \<Longrightarrow> sp_paddr (g_entries s ! k) \<noteq> p"
proof (cases "\<exists>j \<in> set (cs (bucket_of p)). sp_paddr (g_entries s ! j) = p")
  case True
  then obtain xs j ys where x: "cs (bucket_of p) = xs @ j # ys" "sp_paddr (g_entries s ! j) = p"
      "\<forall>k \<in> set xs. sp_paddr (g_entries s ! k) \<noteq> p"
    using split_list_first_propE [of "cs (bucket_of p)" "\<lambda>j. sp_paddr (g_entries s ! j) = p"] by blast
  from x(3) have "map_of (counts (g_entries s) xs) p = None"
    by (auto simp: map_of_eq_None_iff counts_def)
  with x(1,2) have "sp_counts s cs p = Some (sp_refcount (g_entries s ! j))"
    by (simp add: sp_counts_def map_add_def)
  from found [OF x(1,2) this] x(3) show thesis by blast
next
  case False
  then show thesis by (intro absent) (auto simp: sp_counts_def map_of_eq_None_iff counts_def)
qed

section \<open>Refinement\<close>

text \<open>What the operations do to the map of reference counts.\<close>

definition ref_spec :: "(u64 \<rightharpoonup> u32) \<Rightarrow> u64 \<Rightarrow> bool \<times> (u64 \<rightharpoonup> u32)" where
  "ref_spec m p =
     (if p = 0 \<or> unat p mod 4096 \<noteq> 0 then (False, m)
      else case m p of
        Some n \<Rightarrow> if n = 0xFFFFFFFF then (False, m) else (True, m(p \<mapsto> n + 1))
      | None \<Rightarrow> if card (dom m) = SHARED_PAGE_MAX then (False, m) else (True, m(p \<mapsto> 1)))"

definition unref_spec :: "(u64 \<rightharpoonup> u32) \<Rightarrow> u64 \<Rightarrow> bool \<times> (u64 \<rightharpoonup> u32)" where
  "unref_spec m p =
     (case m p of
        None \<Rightarrow> (False, m)
      | Some n \<Rightarrow> if n > 1 then (False, m(p \<mapsto> n - 1)) else (True, m(p := None)))"

lemma sp_absI: "sp_struct s cs fl \<Longrightarrow> sp_counts s cs = m \<Longrightarrow> sp_abs s m"
  using sp_structD(1) [of s cs fl] by (auto simp: sp_abs_def)

lemma sp_abs_init_locked: "sp_abs s m \<Longrightarrow> sp_abs (shared_pages_init_locked s) m"
  using sp_absI by (auto simp: sp_abs_def)

lemma page_mask_0: "p AND 4095 = (0 :: u64) \<longleftrightarrow> unat p mod 4096 = 0"
  using unat_and_page_mask [of p] by (simp add: word_unat_eq_iff)

lemma find_split: "(\<And>k. k \<in> set xs \<Longrightarrow> \<not> P k) \<Longrightarrow> P j \<Longrightarrow> find P (xs @ j # ys) = Some j"
  by (induction xs) auto

lemma shared_page_ref_refines_spec:
  assumes "sp_abs s m"
  shows "\<exists>b s' m'. shared_page_ref s p = Some (b, s') \<and> ref_spec m p = (b, m') \<and> sp_abs s' m'"
proof (cases "p = 0 \<or> unat p mod 4096 \<noteq> 0")
  case True
  with assms show ?thesis by (auto simp: shared_page_ref_def ref_spec_def page_mask_0)
next
  case False
  let ?s = "shared_pages_init_locked s"
  obtain cs fl where st: "sp_struct ?s cs fl" and m: "m = sp_counts ?s cs"
    using assms by (auto simp: sp_abs_def)
  note bl = bucket_of_less [of p]
  from st show ?thesis
  proof (cases rule: sp_counts_cases [where p = p])
    case (found xs j ys)
    have "find (\<lambda>j. sp_paddr (g_entries ?s ! j) = p) (cs (bucket_of p)) = Some j"
      unfolding found(1) by (rule find_split) (use found(2,4) in blast)+
    then have idx: "shared_page_find_locked ?s p = Some (int j)" by (simp add: sp_find [OF st])
    have jb: "j \<in> set (cs (bucket_of p))" using found(1) by simp
    show ?thesis
    proof (cases "sp_refcount (g_entries ?s ! j) = 0xFFFFFFFF")
      case True
      with idx False m found sp_absI [OF st] show ?thesis
        by (auto simp: shared_page_ref_def ref_spec_def page_mask_0 Let_def)
    next
      case nmax: False
      have "(0xFFFFFFFF :: u32) = - 1" by simp
      with nmax have "sp_refcount (g_entries ?s ! j) + 1 \<noteq> 0" by (metis eq_neg_iff_add_eq_0)
      from sp_set_count [OF st bl jb this] found(2)
      have "sp_abs (?s\<lparr>g_entries := (g_entries ?s)[j := (g_entries ?s ! j)\<lparr>sp_refcount := sp_refcount (g_entries ?s ! j) + 1\<rparr>]\<rparr>)
          (m(p \<mapsto> sp_refcount (g_entries ?s ! j) + 1))"
        unfolding m by (intro sp_absI) simp_all
      with nmax idx False m found show ?thesis
        by (auto simp: shared_page_ref_def ref_spec_def page_mask_0 Let_def)
    qed
  next
    case absent
    then have "find (\<lambda>j. sp_paddr (g_entries ?s ! j) = p) (cs (bucket_of p)) = None"
      by (auto simp: find_None_iff)
    then have idx: "shared_page_find_locked ?s p = Some (- 1)" by (simp add: sp_find [OF st])
    show ?thesis
    proof (cases fl)
      case Nil
      with sp_structD(8) [OF st] card_sp_counts [OF st] idx False m absent(1) sp_absI [OF st] show ?thesis
        by (auto simp: shared_page_ref_def ref_spec_def page_mask_0 Let_def)
    next
      case (Cons j fl')
      with sp_structD(8) [OF st] have fh: "g_free_head ?s = int j" by simp
      note new = sp_link [OF st [unfolded Cons] _ _ absent(1)]
      have "card (dom m) \<noteq> 4096" using card_sp_counts [OF st] Cons m by simp
      with fh idx False m absent(1) sp_absI [OF new] show ?thesis
        by (auto simp: shared_page_ref_def ref_spec_def page_mask_0 Let_def)
    qed
  qed
qed

lemma shared_page_unref_refines_spec:
  assumes "sp_abs s m" and "pmm_ready pm"
  shows "\<exists>s' pm' b m'. shared_page_unref s pm p = Some (s', pm') \<and> unref_spec m p = (b, m') \<and> sp_abs s' m' \<and>
    (if b then \<exists>r. pmm_free_pages pm p 1 = Some (r, pm') else pm' = pm)"
proof -
  let ?s = "shared_pages_init_locked s"
  obtain cs fl where st: "sp_struct ?s cs fl" and m: "m = sp_counts ?s cs"
    using assms(1) by (auto simp: sp_abs_def)
  note bl = bucket_of_less [of p]
  from st show ?thesis
  proof (cases rule: sp_counts_cases [where p = p])
    case absent
    obtain prev i where "unref_loop (g_entries ?s) p (- 1) (g_buckets ?s ! bucket_of p) = Some (prev, i)" "i < 0"
      using unref_loop_absent [OF sp_structD(4) [OF st bl] absent(2)] by blast
    with absent(1) m assms(1) sp_abs_init_locked [OF assms(1)] show ?thesis
      by (auto simp: shared_page_unref_def unref_spec_def Let_def)
  next
    case (found xs j ys)
    have jb: "j \<in> set (cs (bucket_of p))" using found(1) by simp
    have ok: "p \<noteq> 0" "p AND 4095 = 0" "sp_refcount (g_entries ?s ! j) \<noteq> 0"
      using sp_structD(6) [OF st bl jb] found(2) by (simp_all add: entry_ok_def page_mask_0)
    have walk: "unref_loop (g_entries ?s) p (- 1) (g_buckets ?s ! bucket_of p) =
        Some (if xs = [] then - 1 else int (last xs), int j)"
      using sp_structD(4) [OF st bl] found(1,2,4) by (intro unref_loop_found) simp_all
    show ?thesis
    proof (cases "sp_refcount (g_entries ?s ! j) > 1")
      case True
      then have "sp_refcount (g_entries ?s ! j) - 1 \<noteq> 0" by auto
      from sp_set_count [OF st bl jb this] found(2)
      have "sp_abs (?s\<lparr>g_entries := (g_entries ?s)[j := (g_entries ?s ! j)\<lparr>sp_refcount := sp_refcount (g_entries ?s ! j) - 1\<rparr>]\<rparr>)
          (m(p \<mapsto> sp_refcount (g_entries ?s ! j) - 1))"
        unfolding m by (intro sp_absI) simp_all
      with True ok walk found m show ?thesis
        by (auto simp: shared_page_unref_def unref_spec_def Let_def)
    next
      case last: False
      obtain r pm' where f: "pmm_free_pages pm p 1 = Some (r, pm')"
        using pmm.release_returns [OF assms(2), of 1 p] by auto
      have "sp_abs (unlinked ?s (bucket_of p) xs j) (m(p := None))"
        using sp_unlink [OF st bl found(1)] sp_unlink_counts [OF st bl found(1)] found(2) m by (intro sp_absI) simp_all
      moreover have "shared_page_unref s pm p = Some (unlinked ?s (bucket_of p) xs j, pm')"
        using last ok walk f by (simp add: shared_page_unref_def unlinked_def Let_def)
      ultimately show ?thesis using last f found m by (auto simp: unref_spec_def)
    qed
  qed
qed

text \<open>Every recorded page is handed out by the page allocator.\<close>

definition sp_owned :: "(u64 \<rightharpoonup> u32) \<Rightarrow> pmm_t \<Rightarrow> bool" where
  "sp_owned m pm \<longleftrightarrow> pmm_ready pm \<and> (\<forall>p \<in> dom m. unat p \<in> pmm_held pm - pmm_pinned pm)"

lemma sp_abs_nonzero:
  assumes "sp_abs s m" "m p = Some n"
  shows "n \<noteq> 0"
proof -
  obtain cs fl where st: "sp_struct (shared_pages_init_locked s) cs fl"
    and m: "m = sp_counts (shared_pages_init_locked s) cs" using assms(1) by (auto simp: sp_abs_def)
  from st show ?thesis
  proof (cases rule: sp_counts_cases [where p = p])
    case (found xs j ys)
    with sp_structD(6) [OF st bucket_of_less, of j p] assms(2) m show ?thesis by (simp add: entry_ok_def)
  qed (use assms(2) m in simp)
qed

lemma shared_page_unref_owned:
  assumes "sp_abs s m" and own: "sp_owned m pm"
  shows "\<exists>s' pm'. shared_page_unref s pm p = Some (s', pm') \<and> sp_abs s' (snd (unref_spec m p)) \<and>
    sp_owned (snd (unref_spec m p)) pm' \<and>
    pmm_held pm' = pmm_held pm - (if m p = Some 1 then {unat p} else {}) \<and>
    (m p \<noteq> Some 1 \<longrightarrow> pm' = pm)"
proof -
  have ready: "pmm_ready pm" using own by (simp add: sp_owned_def)
  obtain s' pm' b m' where u: "shared_page_unref s pm p = Some (s', pm')" "unref_spec m p = (b, m')" "sp_abs s' m'"
      "if b then \<exists>r. pmm_free_pages pm p 1 = Some (r, pm') else pm' = pm"
    using shared_page_unref_refines_spec [OF assms(1) ready, of p] by blast
  note nz = sp_abs_nonzero [OF assms(1), of p]
  have one: "n = 1" if "m p = Some n" "\<not> 1 < n" for n
    using nz [OF that(1)] that(2) by (simp add: word_less_nat_alt word_unat_eq_iff)
  show ?thesis
  proof (cases b)
    case False
    with u have "m p \<noteq> Some 1" "dom m' \<subseteq> dom m" by (auto simp: unref_spec_def split: option.splits if_splits)
    with False u own show ?thesis by (auto simp: sp_owned_def)
  next
    case True
    with u obtain n where n: "m p = Some n" "\<not> 1 < n" "m' = m(p := None)"
      by (auto simp: unref_spec_def split: option.splits if_splits)
    then have mp: "m p = Some 1" using one by auto
    obtain r where f: "pmm_free_pages pm p 1 = Some (r, pm')" using True u by auto
    have "page_range p 1 \<subseteq> pmm_held pm - pmm_pinned pm" using own mp by (auto simp: sp_owned_def)
    with pmm.release_accepts [OF ready _ f] have r by simp
    with f have e: "pmm_held pm' = pmm_held pm - {unat p}" "pmm_pinned pm' = pmm_pinned pm" "pmm_ready pm'"
      using pmm.release_effect [OF ready, of 1 p pm'] by simp_all
    have "sp_owned m' pm'" using own e n(3) by (auto simp: sp_owned_def word_unat_eq_iff)
    with u e mp show ?thesis by auto
  qed
qed

text \<open>\<open>n\<close> references in a row, each of which must succeed, and \<open>n\<close> releases in a row.\<close>

fun ref_times :: "nat \<Rightarrow> u64 \<Rightarrow> shared_pages \<Rightarrow> shared_pages option" where
  "ref_times 0 p s = Some s"
| "ref_times (Suc n) p s = do { (b, s) \<leftarrow> shared_page_ref s p; if b then ref_times n p s else None }"

fun unref_times :: "nat \<Rightarrow> u64 \<Rightarrow> shared_pages \<times> pmm_t \<Rightarrow> (shared_pages \<times> pmm_t) option" where
  "unref_times 0 p s = Some s"
| "unref_times (Suc n) p (s, pm) = do { s \<leftarrow> shared_page_unref s pm p; unref_times n p s }"

lemma ref_times_count:
  assumes "sp_abs s m" "m p = Some k" "p \<noteq> 0" "unat p mod 4096 = 0" "unat k + n < 2 ^ 32"
  shows "\<exists>s'. ref_times n p s = Some s' \<and> sp_abs s' (m(p \<mapsto> k + of_nat n))"
  using assms
proof (induction n arbitrary: s m k)
  case 0
  then show ?case by (simp add: fun_upd_idem)
next
  case (Suc n)
  have k: "k \<noteq> 0xFFFFFFFF" using Suc.prems(5) by auto
  have "ref_spec m p = (True, m(p \<mapsto> k + 1))" using Suc.prems k by (simp add: ref_spec_def)
  with shared_page_ref_refines_spec [OF Suc.prems(1), of p] obtain s1
    where s1: "shared_page_ref s p = Some (True, s1)" "sp_abs s1 (m(p \<mapsto> k + 1))" by auto
  have "unat (k + 1) = unat k + 1" using k Suc.prems(5) by (simp add: unat_word_ariths)
  then have "\<exists>s'. ref_times n p s1 = Some s' \<and> sp_abs s' (m(p \<mapsto> k + 1 + of_nat n))"
    using Suc.prems by (intro Suc.IH [OF s1(2), of "k + 1", unfolded fun_upd_upd]) simp_all
  then obtain s' where s': "ref_times n p s1 = Some s'" "sp_abs s' (m(p \<mapsto> k + 1 + of_nat n))" by blast
  then have "ref_times (Suc n) p s = Some s'" using s1 by simp
  moreover have "k + 1 + of_nat n = k + of_nat (Suc n)" by simp
  ultimately show ?case using s'(2) by metis
qed

lemma unref_times_count:
  assumes "sp_abs s m" "m p = Some k" "sp_owned m pm" "n < unat k"
  shows "\<exists>s'. unref_times n p (s, pm) = Some (s', pm) \<and> sp_abs s' (m(p \<mapsto> k - of_nat n))"
  using assms
proof (induction n arbitrary: s m k)
  case 0
  then show ?case by (simp add: fun_upd_idem)
next
  case (Suc n)
  have k: "1 < k" using Suc.prems(4) by (simp add: word_less_nat_alt)
  then have "k \<noteq> 1" and spec: "snd (unref_spec m p) = m(p \<mapsto> k - 1)" using Suc.prems by (auto simp: unref_spec_def)
  with shared_page_unref_owned [OF Suc.prems(1,3), of p] Suc.prems(2) obtain s1
    where s1: "shared_page_unref s pm p = Some (s1, pm)" "sp_abs s1 (m(p \<mapsto> k - 1))" "sp_owned (m(p \<mapsto> k - 1)) pm"
    by auto
  have "unat (k - 1) = unat k - 1" using k by (subst unat_sub) (simp_all add: word_le_nat_alt word_less_nat_alt)
  then have "\<exists>s'. unref_times n p (s1, pm) = Some (s', pm) \<and> sp_abs s' (m(p \<mapsto> k - 1 - of_nat n))"
    using Suc.prems by (intro Suc.IH [of s1 "m(p \<mapsto> k - 1)" "k - 1", unfolded fun_upd_upd] s1) simp_all
  then obtain s' where s': "unref_times n p (s1, pm) = Some (s', pm)" "sp_abs s' (m(p \<mapsto> k - 1 - of_nat n))" by blast
  then have "unref_times (Suc n) p (s, pm) = Some (s', pm)" using s1 by simp
  moreover have "k - 1 - of_nat n = k - of_nat (Suc n)" by simp
  ultimately show ?case using s'(2) by metis
qed

section \<open>Properties\<close>

text \<open>
  C7: \<open>shared_page_ref\<close> always returns and acts on the hash table as on a finite map from
  pages to counts: it adds one to the count of a recorded page, records a new page with
  count one, and reports failure, changing nothing, for a bad address, a saturated count, or
  a new page when 4096 pages are recorded. No reference is dropped silently.
\<close>

theorem shared_page_ref_refines:
  assumes "sp_abs s m"
  shows "\<exists>b s' m'. shared_page_ref s p = Some (b, s') \<and> ref_spec m p = (b, m') \<and> sp_abs s' m'"
  using assms by (rule shared_page_ref_refines_spec)

text \<open>The empty table, and one recorded page that the page allocator has handed out.\<close>

definition sp0 :: shared_pages where
  "sp0 = \<lparr>g_entries = [], g_buckets = [], g_free_head = 0, g_initialized = False\<rparr>"

lemma sp0_abs: "sp_abs sp0 Map.empty"
proof -
  have "sp_struct (shared_pages_init_locked sp0) (\<lambda>_. []) [0..<4096]" by (rule sp_init) (simp add: sp0_def)
  moreover have "sp_counts (shared_pages_init_locked sp0) (\<lambda>_. []) = Map.empty" by (auto simp: sp_counts_def)
  ultimately show ?thesis by (auto simp: sp_abs_def)
qed

lemma sp1_abs: "\<exists>s. shared_page_ref sp0 0x80000000 = Some (True, s) \<and> sp_abs s [0x80000000 \<mapsto> 1]"
  using shared_page_ref_refines_spec [OF sp0_abs, of "0x80000000"] by (auto simp: ref_spec_def)

definition pmm8a :: pmm_t where
  "pmm8a = snd (the (pmm_alloc_pages pmm8 1))"

lemma pmm8a_alloc: "pmm_alloc_pages pmm8 1 = Some (0x80000000, pmm8a)"
proof -
  have "map_option fst (pmm_alloc_pages pmm8 1) = Some 0x80000000" by code_simp
  then show ?thesis by (auto simp: pmm8a_def)
qed

lemma pmm8a_owned: "sp_owned [0x80000000 \<mapsto> 1] pmm8a"
proof -
  have r: "pmm_ready pmm8" using pmm8_inv by (simp add: pmm_ready_def)
  have "pmm_pinned pmm8 = {}" using pmm8_inv(5) by (simp add: pmm_pinned_def pm_pinned_def)
  with pmm.alloc_fresh [OF r _ pmm8a_alloc] show ?thesis by (simp add: sp_owned_def)
qed

theorem shared_page_ref_refines_witness:
  "\<exists>b s' m'. shared_page_ref sp0 0x80000000 = Some (b, s') \<and> ref_spec Map.empty 0x80000000 = (b, m') \<and> sp_abs s' m'"
  using shared_page_ref_refines [OF sp0_abs] .

text \<open>
  C8: \<open>shared_page_unref\<close> always returns and takes one from the count of the page; when the
  count was one the record disappears and the page goes back to the page allocator, in every
  other case the allocator is untouched. Pages that are still recorded stay allocated, and
  dropping an unknown page has no effect.
\<close>

theorem shared_page_unref_refines:
  assumes "sp_abs s m" and "sp_owned m pm"
  shows "\<exists>s' pm'. shared_page_unref s pm p = Some (s', pm') \<and> sp_abs s' (snd (unref_spec m p)) \<and>
    sp_owned (snd (unref_spec m p)) pm' \<and>
    pmm_held pm' = pmm_held pm - (if m p = Some 1 then {unat p} else {}) \<and>
    (m p \<noteq> Some 1 \<longrightarrow> pm' = pm)"
  using assms by (rule shared_page_unref_owned)

theorem shared_page_unref_refines_witness:
  "\<exists>s s' pm'. sp_abs s [0x80000000 \<mapsto> 1] \<and> shared_page_unref s pmm8a 0x80000000 = Some (s', pm') \<and>
     sp_abs s' Map.empty \<and> pmm_held pm' = pmm_held pmm8a - {unat (0x80000000 :: u64)}"
proof -
  obtain s where s: "sp_abs s [0x80000000 \<mapsto> 1]" using sp1_abs by blast
  have "snd (unref_spec [0x80000000 \<mapsto> 1] 0x80000000) = Map.empty" by (simp add: unref_spec_def fun_upd_idem)
  with s shared_page_unref_refines [OF s pmm8a_owned, of "0x80000000"] show ?thesis by auto
qed

text \<open>
  C9: a page that is mapped \<open>n + 1\<close> times and unmapped as often goes back to the page
  allocator with the last unmapping and not before, and the table is as it was.
\<close>

theorem shared_page_lifecycle:
  assumes "sp_abs s m" "m p = None" "p \<noteq> 0" "unat p mod 4096 = 0" "card (dom m) < SHARED_PAGE_MAX"
    and "Suc n < 2 ^ 32" and "sp_owned (m(p \<mapsto> 1)) pm"
  shows "\<exists>s1 s2 s3 pm3. ref_times (Suc n) p s = Some s1 \<and>
    unref_times n p (s1, pm) = Some (s2, pm) \<and> shared_page_unref s2 pm p = Some (s3, pm3) \<and>
    sp_abs s3 m \<and> pmm_held pm3 = pmm_held pm - {unat p}"
proof -
  have "ref_spec m p = (True, m(p \<mapsto> 1))" using assms(2-5) by (simp add: ref_spec_def)
  with shared_page_ref_refines_spec [OF assms(1), of p] obtain s0
    where s0: "shared_page_ref s p = Some (True, s0)" "sp_abs s0 (m(p \<mapsto> 1))" by auto
  obtain s1 where s1: "ref_times n p s0 = Some s1" "sp_abs s1 (m(p \<mapsto> 1 + of_nat n))"
    using ref_times_count [OF s0(2), of p 1 n] assms(3,4,6) by auto
  have own: "sp_owned (m(p \<mapsto> k)) pm" for k using assms(7) by (simp add: sp_owned_def)
  have "unat (of_nat (Suc n) :: u32) = Suc n" using assms(6) by (simp add: unat_of_nat del: of_nat_Suc)
  then have "unat (1 + of_nat n :: u32) = Suc n" by simp
  then obtain s2 where s2: "unref_times n p (s1, pm) = Some (s2, pm)" "sp_abs s2 (m(p \<mapsto> 1 + of_nat n - of_nat n))"
    using unref_times_count [OF s1(2) _ own, of p "1 + of_nat n" n] by auto
  have "snd (unref_spec (m(p \<mapsto> 1)) p) = m" using assms(2) by (simp add: unref_spec_def fun_upd_idem)
  with shared_page_unref_owned [of s2 "m(p \<mapsto> 1)" pm p] s2 own obtain s3 pm3
    where "shared_page_unref s2 pm p = Some (s3, pm3)" "sp_abs s3 m" "pmm_held pm3 = pmm_held pm - {unat p}" by auto
  with s0 s1 s2 show ?thesis by auto
qed

theorem shared_page_lifecycle_witness:
  "\<exists>s1 s2 s3 pm3. ref_times (Suc 2) 0x80000000 sp0 = Some s1 \<and>
    unref_times 2 0x80000000 (s1, pmm8a) = Some (s2, pmm8a) \<and>
    shared_page_unref s2 pmm8a 0x80000000 = Some (s3, pm3) \<and>
    sp_abs s3 Map.empty \<and> pmm_held pm3 = pmm_held pmm8a - {unat (0x80000000 :: u64)}"
  by (rule shared_page_lifecycle [OF sp0_abs _ _ _ _ _ pmm8a_owned]) simp_all

end
