(* ===== verification/Vdev.thy ===== *)
theory Vdev
  imports Avatar_Prelude
begin

text \<open>
  What the virtual devices share: the MMIO bus of \<^verbatim>\<open>kernel/vmm/mmio_bus.c\<close> that hands guest
  accesses to devices, and the pools of per-VM device slots. A VM pointer is its address and
  the slot number stored behind it; address 0 is NULL.
\<close>

section \<open>The MMIO bus\<close>

text \<open>
  A device is its operation table; the callbacks act on the state \<open>'s\<close> of all devices, the
  private pointer of the device is already applied. A missing callback is \<open>None\<close>. A device
  that has been torn down has no operation table, and looking at it is a fault: \<open>None\<close>.
\<close>

record 's mmio_dev_ops_t =
  op_name :: string
  op_base :: u64
  op_size :: u64
  op_read :: "('s \<Rightarrow> u64 \<Rightarrow> u8 \<Rightarrow> u64 \<times> 's) option"
  op_write :: "('s \<Rightarrow> u64 \<Rightarrow> u8 \<Rightarrow> u64 \<Rightarrow> 's) option"
  op_read_for_vcpu :: "('s \<Rightarrow> u64 \<Rightarrow> u8 \<Rightarrow> u32 \<Rightarrow> u64 \<times> 's) option"
  op_write_for_vcpu :: "('s \<Rightarrow> u64 \<Rightarrow> u8 \<Rightarrow> u64 \<Rightarrow> u32 \<Rightarrow> 's) option"

type_synonym 's mmio_device_t = "'s mmio_dev_ops_t option"

record 's mmio_bus_t =
  bus_devs :: "'s mmio_device_t list"

abbreviation MMIO_MAX_DEVICES :: nat where
  "MMIO_MAX_DEVICES \<equiv> 16"

definition mmio_bus_init :: "'s mmio_bus_t" where
  "mmio_bus_init = \<lparr>bus_devs = []\<rparr>"

definition mmio_bus_register :: "'s mmio_bus_t \<Rightarrow> 's mmio_device_t \<Rightarrow> int \<times> 's mmio_bus_t" where
  "mmio_bus_register bus dev =
     (if length (bus_devs bus) \<ge> MMIO_MAX_DEVICES then (- 1, bus)
      else (0, bus\<lparr>bus_devs := bus_devs bus @ [dev]\<rparr>))"

text \<open>The access to the device that was hit: the value for \<^verbatim>\<open>*out\<close> and the new state.\<close>

definition mmio_access :: "'s mmio_dev_ops_t \<Rightarrow> u64 \<Rightarrow> bool \<Rightarrow> u8 \<Rightarrow> u64 \<Rightarrow> u32 \<Rightarrow> 's \<Rightarrow> u64 \<times> 's" where
  "mmio_access ops off is_write sz value vcpu_id s =
     (if is_write
      then (0, case op_write_for_vcpu ops of
                 Some w \<Rightarrow> w s off sz value vcpu_id
               | None \<Rightarrow> (case op_write ops of Some w \<Rightarrow> w s off sz value | None \<Rightarrow> s))
      else case op_read_for_vcpu ops of
             Some r \<Rightarrow> r s off sz vcpu_id
           | None \<Rightarrow> (case op_read ops of Some r \<Rightarrow> r s off sz | None \<Rightarrow> (0, s)))"

text \<open>The search loop: \<open>Some (True, out, s)\<close> is a hit, \<open>Some (False, 0, s)\<close> a miss.\<close>

fun mmio_scan :: "'s mmio_device_t list \<Rightarrow> u64 \<Rightarrow> bool \<Rightarrow> u8 \<Rightarrow> u64 \<Rightarrow> u32 \<Rightarrow> 's \<Rightarrow> (bool \<times> u64 \<times> 's) option" where
  "mmio_scan [] gpa is_write sz value vcpu_id s = Some (False, 0, s)"
| "mmio_scan (None # devs) gpa is_write sz value vcpu_id s = None"
| "mmio_scan (Some ops # devs) gpa is_write sz value vcpu_id s =
     (if gpa < op_base ops \<or> gpa \<ge> op_base ops + op_size ops
      then mmio_scan devs gpa is_write sz value vcpu_id s
      else Some (True, mmio_access ops (gpa - op_base ops) is_write sz value vcpu_id s))"

definition mmio_bus_handle ::
  "'s mmio_bus_t \<Rightarrow> u64 \<Rightarrow> bool \<Rightarrow> u8 \<Rightarrow> u64 \<Rightarrow> u32 \<Rightarrow> 's \<Rightarrow> (bool \<times> u64 \<times> 's) option" where
  "mmio_bus_handle bus = mmio_scan (bus_devs bus)"

section \<open>Dispatch\<close>

text \<open>The guest addresses of a device.\<close>

definition window :: "'s mmio_dev_ops_t \<Rightarrow> nat set" where
  "window ops = {unat (op_base ops)..<unat (op_base ops) + unat (op_size ops)}"

text \<open>Live devices whose windows do not wrap around and do not overlap.\<close>

definition bus_ok :: "'s mmio_device_t list \<Rightarrow> bool" where
  "bus_ok devs \<longleftrightarrow>
     None \<notin> set devs \<and>
     (\<forall>ops. Some ops \<in> set devs \<longrightarrow> unat (op_base ops) + unat (op_size ops) < 2 ^ 64) \<and>
     (\<forall>i < length devs. \<forall>j < length devs. i \<noteq> j \<longrightarrow> window (the (devs ! i)) \<inter> window (the (devs ! j)) = {})"

lemma window_test:
  assumes "unat (op_base ops) + unat (op_size ops) < 18446744073709551616"
  shows "(gpa < op_base ops \<or> gpa \<ge> op_base ops + op_size ops) \<longleftrightarrow> unat gpa \<notin> window ops"
  using assms by (auto simp: window_def word_less_nat_alt word_le_nat_alt unat_add64)

lemma window_offset:
  "unat gpa \<in> window ops \<Longrightarrow> unat (gpa - op_base ops) = unat gpa - unat (op_base ops) \<and> gpa - op_base ops < op_size ops"
  by (auto simp: window_def word_less_nat_alt unat_sub word_le_nat_alt)

lemma mmio_scan_miss:
  assumes "None \<notin> set devs"
    and "\<And>ops. Some ops \<in> set devs \<Longrightarrow> gpa < op_base ops \<or> gpa \<ge> op_base ops + op_size ops"
  shows "mmio_scan devs gpa w sz v c s = Some (False, 0, s)"
  using assms
proof (induction devs)
  case (Cons d devs)
  then obtain ops where "d = Some ops" by (cases d) auto
  with Cons show ?case by simp
qed simp

lemma mmio_scan_hit:
  assumes "None \<notin> set xs"
    and "\<And>ops. Some ops \<in> set xs \<Longrightarrow> gpa < op_base ops \<or> gpa \<ge> op_base ops + op_size ops"
    and "\<not> (gpa < op_base ops \<or> gpa \<ge> op_base ops + op_size ops)"
  shows "mmio_scan (xs @ Some ops # ys) gpa w sz v c s =
    Some (True, mmio_access ops (gpa - op_base ops) w sz v c s)"
  using assms
proof (induction xs)
  case (Cons d xs)
  then obtain o' where "d = Some o'" by (cases d) auto
  with Cons show ?case by simp
qed simp

text \<open>On a well-formed bus the device is determined by the address alone.\<close>

lemma mmio_scan_bus_ok:
  assumes ok: "bus_ok devs" and d: "Some ops \<in> set devs" and w: "unat gpa \<in> window ops"
  shows "mmio_scan devs gpa wr sz v c s = Some (True, mmio_access ops (gpa - op_base ops) wr sz v c s)"
proof -
  from d obtain i where i: "i < length devs" "devs ! i = Some ops" by (auto simp: in_set_conv_nth)
  have split: "devs = take i devs @ Some ops # drop (Suc i) devs"
    using i by (metis id_take_nth_drop)
  have ne: "None \<notin> set devs"
    and nw: "\<And>o'. Some o' \<in> set devs \<Longrightarrow> unat (op_base o') + unat (op_size o') < 2 ^ 64"
    and dj: "\<And>i j. i < length devs \<Longrightarrow> j < length devs \<Longrightarrow> i \<noteq> j \<Longrightarrow> window (the (devs ! i)) \<inter> window (the (devs ! j)) = {}"
    using ok unfolding bus_ok_def by simp_all
  have nn: "None \<notin> set (take i devs)" using ne by (auto dest: in_set_takeD)
  have other: "gpa < op_base o' \<or> gpa \<ge> op_base o' + op_size o'" if o': "Some o' \<in> set (take i devs)" for o'
  proof -
    from o' obtain j where j: "j < i" "devs ! j = Some o'" using i by (auto simp: in_set_conv_nth)
    then have "window o' \<inter> window ops = {}" using dj [of j i] i by simp
    moreover have "unat (op_base o') + unat (op_size o') < 2 ^ 64" using nw o' by (auto dest: in_set_takeD)
    ultimately show ?thesis using w window_test [of o' gpa] by auto
  qed
  have "unat (op_base ops) + unat (op_size ops) < 2 ^ 64" by (rule nw [OF d])
  then have "\<not> (gpa < op_base ops \<or> gpa \<ge> op_base ops + op_size ops)" using window_test [of ops gpa] w by simp
  from mmio_scan_hit [OF nn other this, of "drop (Suc i) devs"] show ?thesis using split by metis
qed

lemma mmio_scan_no_window:
  assumes ok: "bus_ok devs" and w: "\<And>ops. Some ops \<in> set devs \<Longrightarrow> unat gpa \<notin> window ops"
  shows "mmio_scan devs gpa wr sz v c s = Some (False, 0, s)"
proof (rule mmio_scan_miss)
  show "None \<notin> set devs" using ok by (simp add: bus_ok_def)
  show "gpa < op_base ops \<or> gpa \<ge> op_base ops + op_size ops" if "Some ops \<in> set devs" for ops
    using ok that w [OF that] window_test [of ops gpa] by (auto simp: bus_ok_def)
qed

section \<open>Device slots\<close>

record vm_ref =
  vm_addr :: u64
  vm_slot :: u32

abbreviation MAX_VMS :: nat where
  "MAX_VMS \<equiv> 32"

text \<open>
  A console device also reaches state outside its pool: the flag \<^verbatim>\<open>console_owned\<close> of every
  VM, and the bytes written to the kernel log.
\<close>

record 'd console_world =
  cw_pool :: "'d list"
  cw_owned :: "u64 \<Rightarrow> bool"
  cw_klog :: "u8 list"

text \<open>
  Every device keeps one slot per VM in a static pool and finds it with the same three
  checks: a VM pointer, a slot number in range, and the owner recorded in the slot. The last
  one rejects a VM that has been freed and whose slot number may be another VM's.
\<close>

locale vdev_pool =
  fixes owner :: "'d \<Rightarrow> u64"
    and of_vm :: "'d list \<Rightarrow> vm_ref \<Rightarrow> nat option"
  assumes of_vm_law: "of_vm pool vm =
    (if vm_addr vm = 0 \<or> MAX_VMS \<le> unat (vm_slot vm) then None
     else if owner (pool ! unat (vm_slot vm)) \<noteq> vm_addr vm then None
     else Some (unat (vm_slot vm)))"
begin

lemma of_vm_Some:
  assumes "of_vm pool vm = Some i"
  shows "i < MAX_VMS" "i = unat (vm_slot vm)" "owner (pool ! i) = vm_addr vm" "vm_addr vm \<noteq> 0"
  using assms by (auto simp: of_vm_law not_le split: if_splits)

lemma of_vm_distinct:
  "of_vm pool vm = Some i \<Longrightarrow> of_vm pool vm' = Some j \<Longrightarrow> vm_addr vm \<noteq> vm_addr vm' \<Longrightarrow> i \<noteq> j"
  using of_vm_Some(3) by metis

text \<open>A change to a slot through its owner is invisible to every other VM.\<close>

lemma of_vm_update_other:
  assumes "of_vm pool vm = Some i" "vm_addr vm \<noteq> vm_addr vm'" "owner d = vm_addr vm" "length pool = MAX_VMS"
  shows "of_vm (pool[i := d]) vm' = of_vm pool vm'"
    and "of_vm pool vm' = Some j \<Longrightarrow> pool[i := d] ! j = pool ! j"
proof -
  show "of_vm (pool[i := d]) vm' = of_vm pool vm'"
    using assms of_vm_Some [OF assms(1)] by (auto simp: of_vm_law nth_list_update)
  show "pool[i := d] ! j = pool ! j" if "of_vm pool vm' = Some j"
    using of_vm_distinct [OF assms(1) that assms(2)] by simp
qed

lemma of_vm_update_own:
  assumes "of_vm pool vm = Some i" "owner d = vm_addr vm" "length pool = MAX_VMS"
  shows "of_vm (pool[i := d]) vm = Some i"
  using assms of_vm_Some [OF assms(1)] by (auto simp: of_vm_law)

end

end
