(* ===== verification/Ring.thy ===== *)
theory Ring
  imports Avatar_Prelude
begin

text \<open>
  Byte rings. The virtual consoles and the pipes all keep a queue of bytes as an array with
  two indices and a count (\<^verbatim>\<open>rx_fifo/rx_head/rx_tail/rx_count\<close> and the like). A ring groups
  these four fields of a device; \<open>ring_push\<close> and \<open>ring_pop\<close> are the statements with which the
  code appends and removes one byte. The interface \<open>byte_fifo\<close> says what the clients rely
  on; every ring of at most \<open>2 ^ 31\<close> bytes provides it.
\<close>

section \<open>Operations\<close>

record ring =
  r_buf :: "u8 list"
  r_head :: u32
  r_tail :: u32
  r_count :: u32

definition ring_push :: "u32 \<Rightarrow> ring \<Rightarrow> u8 \<Rightarrow> ring" where
  "ring_push N r c =
     r\<lparr>r_buf := (r_buf r)[unat (r_head r) := c], r_head := (r_head r + 1) mod N, r_count := r_count r + 1\<rparr>"

definition ring_pop :: "u32 \<Rightarrow> ring \<Rightarrow> u8 \<times> ring" where
  "ring_pop N r =
     (r_buf r ! unat (r_tail r), r\<lparr>r_tail := (r_tail r + 1) mod N, r_count := r_count r - 1\<rparr>)"

definition ring_reset :: "ring \<Rightarrow> ring" where
  "ring_reset r = r\<lparr>r_head := 0, r_tail := 0, r_count := 0\<rparr>"

text \<open>A zeroed ring of \<open>N\<close> bytes, as \<^verbatim>\<open>memset\<close> leaves it.\<close>

definition ring_zero :: "u32 \<Rightarrow> ring" where
  "ring_zero N = \<lparr>r_buf = replicate (unat N) 0, r_head = 0, r_tail = 0, r_count = 0\<rparr>"

section \<open>Invariant and contents\<close>

definition ring_ok :: "u32 \<Rightarrow> ring \<Rightarrow> bool" where
  "ring_ok N r \<longleftrightarrow>
     0 < unat N \<and> unat N \<le> 2147483648 \<and> length (r_buf r) = unat N \<and>
     unat (r_tail r) < unat N \<and> unat (r_count r) \<le> unat N \<and>
     unat (r_head r) = (unat (r_tail r) + unat (r_count r)) mod unat N"

definition ring_list :: "ring \<Rightarrow> u8 list" where
  "ring_list r = map (\<lambda>i. r_buf r ! ((unat (r_tail r) + i) mod length (r_buf r))) [0..<unat (r_count r)]"

lemma length_ring_list [simp]: "length (ring_list r) = unat (r_count r)"
  by (simp add: ring_list_def)

lemma ring_list_Nil: "ring_list r = [] \<longleftrightarrow> r_count r = 0"
  by (metis length_ring_list length_0_conv unat_eq_0)

lemma count_pos: "r_count r > 0 \<longleftrightarrow> ring_list r \<noteq> []"
  by (simp add: ring_list_Nil word_neq_0_conv)

lemma unat_inc32: "unat (x :: u32) < 4294967295 \<Longrightarrow> unat (x + 1) = unat x + 1"
  by (simp add: unat_word_ariths)

lemma unat_dec32: "(x :: u32) \<noteq> 0 \<Longrightarrow> unat (x - 1) = unat x - 1"
  by (metis unat_minus_one)

lemma unat_mod_inc: "unat N \<le> 2147483648 \<Longrightarrow> unat (x :: u32) < unat N \<Longrightarrow> unat ((x + 1) mod N) = (unat x + 1) mod unat N"
  by (simp add: unat_mod_distrib unat_inc32)

lemma ring_zero_ok: "0 < unat N \<Longrightarrow> unat N \<le> 2147483648 \<Longrightarrow> ring_ok N (ring_zero N)"
  by (simp add: ring_ok_def ring_zero_def)

lemma ring_zero_list [simp]: "ring_list (ring_zero N) = []"
  by (simp add: ring_list_def ring_zero_def)

lemma ring_reset_ok: "ring_ok N r \<Longrightarrow> ring_ok N (ring_reset r)"
  by (simp add: ring_ok_def ring_reset_def)

lemma ring_reset_list [simp]: "ring_list (ring_reset r) = []"
  by (simp add: ring_list_def ring_reset_def)

lemma ring_push_ok:
  assumes "ring_ok N r" "unat (r_count r) < unat N"
  shows "ring_ok N (ring_push N r c)"
proof -
  have "unat (r_head r) < unat N" using assms by (simp add: ring_ok_def)
  then have "unat ((r_head r + 1) mod N) = (unat (r_head r) + 1) mod unat N"
    using assms by (intro unat_mod_inc) (simp_all add: ring_ok_def)
  also have "\<dots> = (unat (r_tail r) + (unat (r_count r) + 1)) mod unat N"
    using assms(1) by (simp add: ring_ok_def mod_Suc_eq)
  finally show ?thesis
    using assms by (simp add: ring_ok_def ring_push_def unat_inc32)
qed

lemma mod_add_neq:
  assumes "(i :: nat) < k" "k < n"
  shows "(t + i) mod n \<noteq> (t + k) mod n"
proof
  assume "(t + i) mod n = (t + k) mod n"
  then have "n dvd (t + k) - (t + i)" using assms by (metis mod_eq_dvd_iff_nat add_le_cancel_left less_imp_le)
  with assms show False by (auto dest: dvd_imp_le)
qed

lemma ring_push_list:
  assumes "ring_ok N r" "unat (r_count r) < unat N"
  shows "ring_list (ring_push N r c) = ring_list r @ [c]"
proof -
  have n: "length (r_buf r) = unat N" "0 < unat N" and hd: "unat (r_head r) = (unat (r_tail r) + unat (r_count r)) mod unat N"
    using assms(1) by (simp_all add: ring_ok_def)
  have "unat (r_count r + 1) = unat (r_count r) + 1"
    using assms by (intro unat_inc32) (simp add: ring_ok_def)
  moreover have "(r_buf r)[unat (r_head r) := c] ! ((unat (r_tail r) + i) mod unat N) =
      r_buf r ! ((unat (r_tail r) + i) mod unat N)" if "i < unat (r_count r)" for i
    using mod_add_neq [OF that assms(2), of "unat (r_tail r)"] by (metis hd nth_list_update_neq)
  ultimately show ?thesis
    using n by (simp add: ring_list_def ring_push_def hd)
qed

lemma ring_pop_ok:
  assumes "ring_ok N r" "r_count r \<noteq> 0"
  shows "ring_ok N (snd (ring_pop N r))"
proof -
  have n: "0 < unat N" "unat N \<le> 2147483648" "unat (r_tail r) < unat N" using assms(1) by (simp_all add: ring_ok_def)
  have c: "unat (r_count r - 1) = unat (r_count r) - 1" "0 < unat (r_count r)"
    using unat_dec32 [OF assms(2)] assms(2) by (simp_all add: unat_gt_0)
  have t: "unat ((r_tail r + 1) mod N) = (unat (r_tail r) + 1) mod unat N" using n by (intro unat_mod_inc)
  have "((unat (r_tail r) + 1) mod unat N + (unat (r_count r) - 1)) mod unat N =
      (unat (r_tail r) + 1 + (unat (r_count r) - 1)) mod unat N" by (rule mod_add_left_eq)
  then show ?thesis using assms(1) n c t by (auto simp: ring_ok_def ring_pop_def)
qed

lemma ring_pop_list:
  assumes "ring_ok N r" "r_count r \<noteq> 0"
  shows "ring_list r = fst (ring_pop N r) # ring_list (snd (ring_pop N r))"
proof -
  have n: "0 < unat N" "unat N \<le> 2147483648" "unat (r_tail r) < unat N" "length (r_buf r) = unat N"
    using assms(1) by (simp_all add: ring_ok_def)
  have c: "unat (r_count r - 1) = unat (r_count r) - 1" "0 < unat (r_count r)"
    using unat_dec32 [OF assms(2)] assms(2) by (simp_all add: unat_gt_0)
  have t: "unat ((r_tail r + 1) mod N) = (unat (r_tail r) + 1) mod unat N" using n by (intro unat_mod_inc)
  have step: "((unat (r_tail r) + 1) mod unat N + i) mod unat N = (unat (r_tail r) + Suc i) mod unat N" for i
    by (simp add: mod_add_left_eq)
  have "[0..<unat (r_count r)] = 0 # map Suc [0..<unat (r_count r) - 1]"
    using c(2) by (metis Suc_diff_1 map_Suc_upt upt_conv_Cons)
  then show ?thesis
    using n c t step by (simp add: ring_list_def ring_pop_def)
qed

section \<open>The interface\<close>

text \<open>Taking \<open>n\<close> bytes with a given removal operation.\<close>

primrec pop_n :: "('q \<Rightarrow> u8 \<times> 'q) \<Rightarrow> nat \<Rightarrow> 'q \<Rightarrow> u8 list \<times> 'q" where
  "pop_n pop 0 q = ([], q)"
| "pop_n pop (Suc n) q = (let (c, q) = pop q; (cs, q) = pop_n pop n q in (c # cs, q))"

text \<open>A bounded first-in first-out queue of bytes.\<close>

locale byte_fifo =
  fixes inv :: "'q \<Rightarrow> bool"
    and contents :: "'q \<Rightarrow> u8 list"
    and cap :: nat
    and push :: "'q \<Rightarrow> u8 \<Rightarrow> 'q"
    and pop :: "'q \<Rightarrow> u8 \<times> 'q"
  assumes bounded: "inv q \<Longrightarrow> length (contents q) \<le> cap"
    and push_inv: "inv q \<Longrightarrow> length (contents q) < cap \<Longrightarrow> inv (push q c)"
    and push_contents: "inv q \<Longrightarrow> length (contents q) < cap \<Longrightarrow> contents (push q c) = contents q @ [c]"
    and pop_inv: "inv q \<Longrightarrow> contents q \<noteq> [] \<Longrightarrow> inv (snd (pop q))"
    and pop_contents: "inv q \<Longrightarrow> contents q \<noteq> [] \<Longrightarrow> contents q = fst (pop q) # contents (snd (pop q))"
begin

text \<open>The clients append with one of two rules for a full queue: refuse, or drop the oldest byte.\<close>

lemma push_refuse:
  fixes c :: u8
  assumes "inv q"
  defines "q' \<equiv> if cap \<le> length (contents q) then q else push q c"
  shows "inv q'" "contents q' = (if cap \<le> length (contents q) then contents q else contents q @ [c])"
  using assms push_inv [OF assms(1)] push_contents [OF assms(1)] by (auto simp: not_le)

lemma push_drop_oldest:
  fixes c :: u8
  assumes "inv q" "0 < cap"
  defines "q' \<equiv> push (if cap \<le> length (contents q) then snd (pop q) else q) c"
  shows "inv q'"
    "contents q' = (if cap \<le> length (contents q) then tl (contents q) @ [c] else contents q @ [c])"
proof -
  let ?q = "if cap \<le> length (contents q) then snd (pop q) else q"
  have ne: "contents q \<noteq> []" if "cap \<le> length (contents q)" using that assms(2) by auto
  have c: "contents (snd (pop q)) = tl (contents q)" "inv (snd (pop q))" if "cap \<le> length (contents q)"
    using pop_contents [OF assms(1) ne [OF that]] pop_inv [OF assms(1) ne [OF that]] by (metis list.sel(3))+
  have l: "length (contents ?q) < cap"
    using bounded [OF assms(1)] c(1) assms(2) by (cases "contents q") auto
  have i: "inv ?q" using c(2) assms(1) by auto
  from push_inv [OF i l] push_contents [OF i l] c(1)
  show "inv q'" "contents q' = (if cap \<le> length (contents q) then tl (contents q) @ [c] else contents q @ [c])"
    by (auto simp: q'_def)
qed

text \<open>What is put in comes out in the same order.\<close>

lemma pop_n_contents:
  "inv q \<Longrightarrow> n \<le> length (contents q) \<Longrightarrow>
   fst (pop_n pop n q) = take n (contents q) \<and> contents (snd (pop_n pop n q)) = drop n (contents q) \<and> inv (snd (pop_n pop n q))"
proof (induction n arbitrary: q)
  case (Suc n)
  then have ne: "contents q \<noteq> []" by auto
  note p = pop_contents [OF Suc.prems(1) ne] pop_inv [OF Suc.prems(1) ne]
  then have "n \<le> length (contents (snd (pop q)))" using Suc.prems(2) by (metis Suc_le_mono length_Cons)
  from Suc.IH [OF p(2) this] p(1) show ?case
    by (metis (no_types, lifting) drop_Suc_Cons fst_conv pop_n.simps(2) prod.case_eq_if snd_conv take_Suc_Cons)
qed simp

lemma push_all:
  "inv q \<Longrightarrow> length (contents q) + length cs \<le> cap \<Longrightarrow>
   inv (foldl push q cs) \<and> contents (foldl push q cs) = contents q @ cs"
proof (induction cs arbitrary: q)
  case (Cons c cs)
  then have l: "length (contents q) < cap" by simp
  from Cons.IH [OF push_inv [OF Cons.prems(1) l]] Cons.prems(2) push_contents [OF Cons.prems(1) l]
  show ?case by simp
qed simp

lemma fifo_roundtrip:
  assumes "inv q" "contents q = []" "length cs \<le> cap"
  shows "fst (pop_n pop (length cs) (foldl push q cs)) = cs"
  using push_all [of q cs] pop_n_contents [of "foldl push q cs" "length cs"] assms by simp

end

text \<open>A ring of \<open>N\<close> bytes is such a queue, for every size the code uses.\<close>

lemma ring_fifo:
  assumes "0 < unat N" "unat N \<le> 2147483648"
  shows "byte_fifo (ring_ok N) ring_list (unat N) (ring_push N) (ring_pop N)"
proof
  show "length (ring_list q) \<le> unat N" if "ring_ok N q" for q using that by (simp add: ring_ok_def)
qed (use ring_push_ok ring_push_list ring_pop_ok ring_pop_list ring_list_Nil in \<open>auto simp: ring_list_Nil\<close>)

interpretation ring256: byte_fifo "ring_ok 256" ring_list 256 "ring_push 256" "ring_pop 256"
  using ring_fifo [of 256] by simp

interpretation ring4096: byte_fifo "ring_ok 4096" ring_list 4096 "ring_push 4096" "ring_pop 4096"
  using ring_fifo [of 4096] by simp

interpretation ring8192: byte_fifo "ring_ok 8192" ring_list 8192 "ring_push 8192" "ring_pop 8192"
  using ring_fifo [of 8192] by simp

end
