(* ===== verification/Vpl011.thy ===== *)
theory Vpl011
  imports Vdev Ring
begin

text \<open>
  The virtual PL011 console, \<^verbatim>\<open>kernel/vmm/vdev/console/vpl011.c\<close> and
  \<^verbatim>\<open>include/vmm/vmm_vpl011.h\<close>. The four fields of each ring buffer are one \<open>ring\<close>; the state the
  device reaches outside its pool is in \<open>console_world\<close>. The slot lock makes every operation
  atomic.
\<close>

unbundle bit_operations_syntax

section \<open>State\<close>

record vpl011_state_t =
  p_owner :: u64
  p_cr :: u32
  p_imsc :: u32
  p_rx :: ring
  p_tx :: ring
  p_rx_dropped :: u64
  p_tx_dropped :: u64

record vpl011_slot_t =
  p_st :: vpl011_state_t
  p_dev_ready :: bool

type_synonym pl011_world = "vpl011_slot_t console_world"

abbreviation VPL011_RX_FIFO_SIZE :: u32 where
  "VPL011_RX_FIFO_SIZE \<equiv> 256"

abbreviation VPL011_TX_FIFO_SIZE :: u32 where
  "VPL011_TX_FIFO_SIZE \<equiv> 8192"

abbreviation INT_RX :: "'w :: len word" where
  "INT_RX \<equiv> 0x10"

definition vpl011_zero :: vpl011_state_t where
  "vpl011_zero =
     \<lparr>p_owner = 0, p_cr = 0, p_imsc = 0, p_rx = ring_zero VPL011_RX_FIFO_SIZE,
      p_tx = ring_zero VPL011_TX_FIFO_SIZE, p_rx_dropped = 0, p_tx_dropped = 0\<rparr>"

definition vpl011_of :: "vpl011_slot_t list \<Rightarrow> vm_ref \<Rightarrow> nat option" where
  "vpl011_of g vm =
     (if vm_addr vm = 0 \<or> unat (vm_slot vm) \<ge> MAX_VMS then None
      else let d = g ! unat (vm_slot vm)
           in if p_owner (p_st d) \<noteq> vm_addr vm then None else Some (unat (vm_slot vm)))"

definition pl011_slot :: "pl011_world \<Rightarrow> nat \<Rightarrow> vpl011_state_t" where
  "pl011_slot w i = p_st (cw_pool w ! i)"

definition pl011_set :: "pl011_world \<Rightarrow> nat \<Rightarrow> vpl011_state_t \<Rightarrow> pl011_world" where
  "pl011_set w i st = w\<lparr>cw_pool := (cw_pool w)[i := (cw_pool w ! i)\<lparr>p_st := st\<rparr>]\<rparr>"

section \<open>Host side\<close>

definition pl011_rx_irq_asserted_locked :: "vpl011_state_t \<Rightarrow> bool" where
  "pl011_rx_irq_asserted_locked s \<longleftrightarrow> r_count (p_rx s) > 0 \<and> p_imsc s AND INT_RX \<noteq> 0"

definition vpl011_rx_irq_asserted :: "pl011_world \<Rightarrow> vm_ref \<Rightarrow> bool" where
  "vpl011_rx_irq_asserted w vm =
     (case vpl011_of (cw_pool w) vm of None \<Rightarrow> False | Some i \<Rightarrow> pl011_rx_irq_asserted_locked (pl011_slot w i))"

definition vpl011_push_rx :: "pl011_world \<Rightarrow> vm_ref \<Rightarrow> u8 \<Rightarrow> pl011_world" where
  "vpl011_push_rx w vm c =
     (case vpl011_of (cw_pool w) vm of
        None \<Rightarrow> w
      | Some i \<Rightarrow>
          let s = pl011_slot w i
          in if r_count (p_rx s) \<ge> VPL011_RX_FIFO_SIZE
             then pl011_set w i (s\<lparr>p_rx_dropped := p_rx_dropped s + 1\<rparr>)
             else pl011_set w i (s\<lparr>p_rx := ring_push VPL011_RX_FIFO_SIZE (p_rx s) c\<rparr>))"

definition vpl011_rx_flush :: "pl011_world \<Rightarrow> vm_ref \<Rightarrow> pl011_world" where
  "vpl011_rx_flush w vm =
     (case vpl011_of (cw_pool w) vm of
        None \<Rightarrow> w
      | Some i \<Rightarrow> let s = pl011_slot w i in pl011_set w i (s\<lparr>p_rx := ring_reset (p_rx s)\<rparr>))"

definition vpl011_tx_set_enabled :: "pl011_world \<Rightarrow> vm_ref \<Rightarrow> bool \<Rightarrow> pl011_world" where
  "vpl011_tx_set_enabled w vm enabled =
     (case vpl011_of (cw_pool w) vm of
        None \<Rightarrow> (if vm_addr vm \<noteq> 0 then w\<lparr>cw_owned := (cw_owned w)(vm_addr vm := enabled)\<rparr> else w)
      | Some i \<Rightarrow>
          let w = w\<lparr>cw_owned := (cw_owned w)(vm_addr vm := enabled)\<rparr>;
              s = pl011_slot w i
          in if \<not> enabled then pl011_set w i (s\<lparr>p_tx := ring_reset (p_tx s)\<rparr>) else w)"

definition vpl011_tx_channel_enabled :: "pl011_world \<Rightarrow> vm_ref \<Rightarrow> bool" where
  "vpl011_tx_channel_enabled w vm =
     (case vpl011_of (cw_pool w) vm of
        None \<Rightarrow> (if vm_addr vm \<noteq> 0 then cw_owned w (vm_addr vm) else False)
      | Some i \<Rightarrow> cw_owned w (vm_addr vm))"

definition vpl011_tx_has_data :: "pl011_world \<Rightarrow> vm_ref \<Rightarrow> bool" where
  "vpl011_tx_has_data w vm =
     (case vpl011_of (cw_pool w) vm of None \<Rightarrow> False | Some i \<Rightarrow> r_count (p_tx (pl011_slot w i)) > 0)"

text \<open>\<open>None\<close>: nothing was popped, \<^verbatim>\<open>*c\<close> is not written.\<close>

definition vpl011_tx_pop :: "pl011_world \<Rightarrow> vm_ref \<Rightarrow> u8 option \<times> pl011_world" where
  "vpl011_tx_pop w vm =
     (case vpl011_of (cw_pool w) vm of
        None \<Rightarrow> (None, w)
      | Some i \<Rightarrow>
          let s = pl011_slot w i
          in if r_count (p_tx s) = 0 then (None, w)
             else let (c, r) = ring_pop VPL011_TX_FIFO_SIZE (p_tx s) in (Some c, pl011_set w i (s\<lparr>p_tx := r\<rparr>)))"

definition put_char_locked :: "pl011_world \<Rightarrow> nat \<Rightarrow> u8 \<Rightarrow> pl011_world" where
  "put_char_locked w i c =
     (let s = pl011_slot w i
      in if \<not> cw_owned w (p_owner s) then w\<lparr>cw_klog := cw_klog w @ [c]\<rparr>
         else if r_count (p_tx s) \<ge> VPL011_TX_FIFO_SIZE
         then pl011_set w i (s\<lparr>p_tx_dropped := p_tx_dropped s + 1\<rparr>)
         else pl011_set w i (s\<lparr>p_tx := ring_push VPL011_TX_FIFO_SIZE (p_tx s) c\<rparr>))"

section \<open>Registers\<close>

definition vpl011_read :: "pl011_world \<Rightarrow> nat \<Rightarrow> u64 \<Rightarrow> u8 \<Rightarrow> u64 \<times> pl011_world" where
  "vpl011_read w i off sz =
     (let s = pl011_slot w i
      in if off = 0x000 then
           (if r_count (p_rx s) > 0
            then let (c, r) = ring_pop VPL011_RX_FIFO_SIZE (p_rx s) in (ucast c, pl011_set w i (s\<lparr>p_rx := r\<rparr>))
            else (0, w))
         else if off = 0x018 then
           (let fr = 0x80;
                fr = (if r_count (p_rx s) = 0 then fr OR 0x10 else fr);
                fr = (if r_count (p_rx s) \<ge> VPL011_RX_FIFO_SIZE then fr OR 0x40 else fr)
            in (fr, w))
         else if off = 0x030 then (ucast (p_cr s), w)
         else if off = 0x038 then (ucast (p_imsc s), w)
         else if off = 0x03C then (if pl011_rx_irq_asserted_locked s then INT_RX else 0, w)
         else if off = 0x040 then (if pl011_rx_irq_asserted_locked s then INT_RX else 0, w)
         else if off = 0xFE0 then (0x11, w)
         else if off = 0xFE4 then (0x10, w)
         else if off = 0xFE8 then (0x14, w)
         else if off = 0xFEC then (0x00, w)
         else if off = 0xFF0 then (0x0D, w)
         else if off = 0xFF4 then (0xF0, w)
         else if off = 0xFF8 then (0x05, w)
         else if off = 0xFFC then (0xB1, w)
         else (0, w))"

definition vpl011_write :: "pl011_world \<Rightarrow> nat \<Rightarrow> u64 \<Rightarrow> u8 \<Rightarrow> u64 \<Rightarrow> pl011_world" where
  "vpl011_write w i off sz val =
     (let s = pl011_slot w i
      in if off = 0x000 then put_char_locked w i (ucast val)
         else if off = 0x030 then pl011_set w i (s\<lparr>p_cr := ucast val\<rparr>)
         else if off = 0x038 then pl011_set w i (s\<lparr>p_imsc := ucast val\<rparr>)
         else w)"

definition vpl011_ops :: "nat \<Rightarrow> pl011_world mmio_dev_ops_t" where
  "vpl011_ops i =
     \<lparr>op_name = ''vpl011'', op_base = 0x09000000, op_size = 0x1000,
      op_read = Some (\<lambda>w. vpl011_read w i), op_write = Some (\<lambda>w. vpl011_write w i),
      op_read_for_vcpu = None, op_write_for_vcpu = None\<rparr>"

text \<open>\<open>place\<close> is the place of the console in the state of the machine that the bus acts on.\<close>

definition vpl011_init ::
  "(pl011_world mmio_dev_ops_t \<Rightarrow> 's mmio_dev_ops_t) \<Rightarrow> pl011_world \<Rightarrow> vm_ref \<Rightarrow> 's mmio_bus_t option \<Rightarrow>
   int \<times> pl011_world \<times> 's mmio_bus_t option" where
  "vpl011_init place w vm bus =
     (case bus of
        None \<Rightarrow> (- 1, w, bus)
      | Some b \<Rightarrow>
          if vm_addr vm = 0 \<or> unat (vm_slot vm) \<ge> MAX_VMS then (- 1, w, bus)
          else let i = unat (vm_slot vm);
                   w = w\<lparr>cw_pool := (cw_pool w)[i :=
                          \<lparr>p_st = vpl011_zero\<lparr>p_cr := 0x301, p_owner := vm_addr vm\<rparr>, p_dev_ready = True\<rparr>]\<rparr>;
                   (r, b) = mmio_bus_register b (Some (place (vpl011_ops i)))
               in (r, w, Some b))"

definition vpl011_destroy :: "pl011_world \<Rightarrow> vm_ref \<Rightarrow> pl011_world" where
  "vpl011_destroy w vm =
     (if vm_addr vm = 0 \<or> unat (vm_slot vm) \<ge> MAX_VMS then w
      else w\<lparr>cw_pool := (cw_pool w)[unat (vm_slot vm) := \<lparr>p_st = vpl011_zero, p_dev_ready = False\<rparr>]\<rparr>)"

interpretation pl011: vdev_pool "\<lambda>d. p_owner (p_st d)" vpl011_of
  by unfold_locales (simp add: vpl011_of_def Let_def)

section \<open>Invariant\<close>

definition pl011_ok :: "vpl011_state_t \<Rightarrow> bool" where
  "pl011_ok s \<longleftrightarrow> ring_ok VPL011_RX_FIFO_SIZE (p_rx s) \<and> ring_ok VPL011_TX_FIFO_SIZE (p_tx s)"

definition pl011_world_ok :: "pl011_world \<Rightarrow> bool" where
  "pl011_world_ok w \<longleftrightarrow> length (cw_pool w) = MAX_VMS \<and> (\<forall>i < MAX_VMS. pl011_ok (pl011_slot w i))"

definition p_rx_list :: "pl011_world \<Rightarrow> nat \<Rightarrow> u8 list" where
  "p_rx_list w i = ring_list (p_rx (pl011_slot w i))"

definition p_tx_list :: "pl011_world \<Rightarrow> nat \<Rightarrow> u8 list" where
  "p_tx_list w i = ring_list (p_tx (pl011_slot w i))"

lemmas p_lists = p_rx_list_def p_tx_list_def

lemma pl011_slot_set [simp]:
  "i < MAX_VMS \<Longrightarrow> length (cw_pool w) = MAX_VMS \<Longrightarrow> pl011_slot (pl011_set w i st) j = (if j = i then st else pl011_slot w j)"
  by (auto simp: pl011_slot_def pl011_set_def nth_list_update)

lemma pl011_set_frame [simp]:
  "cw_owned (pl011_set w i st) = cw_owned w" "cw_klog (pl011_set w i st) = cw_klog w"
  "length (cw_pool (pl011_set w i st)) = length (cw_pool w)"
  by (simp_all add: pl011_set_def)

lemma pl011_world_set:
  "pl011_world_ok w \<Longrightarrow> i < MAX_VMS \<Longrightarrow> pl011_ok st \<Longrightarrow> pl011_world_ok (pl011_set w i st)"
  by (simp add: pl011_world_ok_def)

lemma pl011_okD:
  assumes "pl011_world_ok w" "i < MAX_VMS"
  shows "length (cw_pool w) = MAX_VMS" "ring_ok 256 (p_rx (pl011_slot w i))" "ring_ok 8192 (p_tx (pl011_slot w i))"
  using assms by (simp_all add: pl011_world_ok_def pl011_ok_def)

lemma pl011_of_set:
  assumes "vpl011_of (cw_pool w) vm = Some i" "p_owner st = p_owner (pl011_slot w i)" "length (cw_pool w) = MAX_VMS"
  shows "vpl011_of (cw_pool (pl011_set w i st)) vm = Some i"
  using pl011.of_vm_update_own [of "cw_pool w" vm i "(cw_pool w ! i)\<lparr>p_st := st\<rparr>"] assms pl011.of_vm_Some [OF assms(1)]
  by (simp add: pl011_set_def pl011_slot_def)

section \<open>Input and output\<close>

lemma pl011_push_rx_step:
  fixes w :: pl011_world and vm :: vm_ref and c :: u8
  assumes ok: "pl011_world_ok w" and v: "vpl011_of (cw_pool w) vm = Some i"
  defines "w' \<equiv> vpl011_push_rx w vm c"
  shows "pl011_world_ok w'" "vpl011_of (cw_pool w') vm = Some i"
    "p_rx_list w' i = take 256 (p_rx_list w i @ [c])"
    "p_rx_dropped (pl011_slot w' i) = p_rx_dropped (pl011_slot w i) + (if length (p_rx_list w i) < 256 then 0 else 1)"
proof -
  have i: "i < MAX_VMS" by (rule pl011.of_vm_Some(1) [OF v])
  note D = pl011_okD [OF ok i]
  have l: "(256 \<le> r_count (p_rx (pl011_slot w i))) = (\<not> length (p_rx_list w i) < 256)"
    by (simp add: p_rx_list_def word_le_nat_alt not_less)
  have b: "length (p_rx_list w i) \<le> 256" using ring256.bounded [OF D(2)] by (simp add: p_rx_list_def)
  show "pl011_world_ok w'"
    using pl011_world_set [OF ok i] D l ring256.push_inv [OF D(2)]
    by (auto simp: w'_def vpl011_push_rx_def v Let_def pl011_ok_def p_rx_list_def)
  show "vpl011_of (cw_pool w') vm = Some i"
    using pl011_of_set [OF v _ D(1)] v by (auto simp: w'_def vpl011_push_rx_def Let_def)
  show "p_rx_list w' i = take 256 (p_rx_list w i @ [c])"
    using D(1) i l b ring256.push_contents [OF D(2)]
    by (auto simp: w'_def vpl011_push_rx_def v Let_def p_rx_list_def not_less)
  show "p_rx_dropped (pl011_slot w' i) = p_rx_dropped (pl011_slot w i) + (if length (p_rx_list w i) < 256 then 0 else 1)"
    using D(1) i l by (auto simp: w'_def vpl011_push_rx_def v Let_def)
qed

lemma pl011_read_dr_step:
  assumes ok: "pl011_world_ok w" and i: "i < MAX_VMS"
  shows "p_rx_list w i = [] \<Longrightarrow> vpl011_read w i 0 sz = (0, w)"
    "p_rx_list w i = c # cs \<Longrightarrow> \<exists>w'. vpl011_read w i 0 sz = (ucast c, w') \<and> pl011_world_ok w' \<and> p_rx_list w' i = cs"
proof -
  note D = pl011_okD [OF ok i]
  show "vpl011_read w i 0 sz = (0, w)" if "p_rx_list w i = []"
    using that by (simp add: vpl011_read_def Let_def count_pos p_rx_list_def)
  assume ne: "p_rx_list w i = c # cs"
  let ?s = "pl011_slot w i" and ?p = "ring_pop 256 (p_rx (pl011_slot w i))"
  have nn: "ring_list (p_rx ?s) \<noteq> []" using ne by (simp add: p_rx_list_def)
  have p: "fst ?p = c" "ring_list (snd ?p) = cs" "ring_ok 256 (snd ?p)"
    using ring256.pop_contents [OF D(2) nn] ring256.pop_inv [OF D(2) nn] ne by (simp_all add: p_rx_list_def)
  have "vpl011_read w i 0 sz = (ucast c, pl011_set w i (?s\<lparr>p_rx := snd ?p\<rparr>))"
    using nn p(1) by (simp add: vpl011_read_def Let_def count_pos prod.case_eq_if)
  moreover have "pl011_world_ok (pl011_set w i (?s\<lparr>p_rx := snd ?p\<rparr>))"
    using pl011_world_set [OF ok i] D(3) p(3) by (simp add: pl011_ok_def)
  ultimately show "\<exists>w'. vpl011_read w i 0 sz = (ucast c, w') \<and> pl011_world_ok w' \<and> p_rx_list w' i = cs"
    using D(1) i p(2) by (auto simp: p_rx_list_def)
qed

definition pl011_feed :: "pl011_world \<Rightarrow> vm_ref \<Rightarrow> u8 list \<Rightarrow> pl011_world" where
  "pl011_feed w vm cs = foldl (\<lambda>w. vpl011_push_rx w vm) w cs"

primrec pl011_read_n :: "nat \<Rightarrow> pl011_world \<Rightarrow> nat \<Rightarrow> u64 list \<times> pl011_world" where
  "pl011_read_n 0 w i = ([], w)"
| "pl011_read_n (Suc n) w i =
     (let (c, w) = vpl011_read w i 0 4; (cs, w) = pl011_read_n n w i in (c # cs, w))"

lemma pl011_feed_list:
  "pl011_world_ok w \<Longrightarrow> vpl011_of (cw_pool w) vm = Some i \<Longrightarrow>
   pl011_world_ok (pl011_feed w vm cs) \<and> p_rx_list (pl011_feed w vm cs) i = take 256 (p_rx_list w i @ cs)"
proof (induction cs arbitrary: w)
  case Nil
  then show ?case
    using ring256.bounded [OF pl011_okD(2) [OF Nil(1) pl011.of_vm_Some(1) [OF Nil(2)]]]
    by (simp add: pl011_feed_def p_rx_list_def)
next
  case (Cons c cs)
  note s = pl011_push_rx_step [OF Cons.prems(1,2), where c = c]
  have "take 256 (take 256 (p_rx_list w i @ [c]) @ cs) = take 256 (p_rx_list w i @ c # cs)"
    by (simp add: min_def take_Cons')
  with Cons.IH [OF s(1,2)] s(3) show ?case by (simp add: pl011_feed_def)
qed

lemma pl011_read_n_list:
  "pl011_world_ok w \<Longrightarrow> i < MAX_VMS \<Longrightarrow>
   fst (pl011_read_n (length (p_rx_list w i)) w i) = map ucast (p_rx_list w i)"
proof (induction "p_rx_list w i" arbitrary: w)
  case Nil
  then show ?case by (metis fst_conv length_0_conv map_is_Nil_conv pl011_read_n.simps(1))
next
  case (Cons c cs)
  from pl011_read_dr_step(2) [OF Cons.prems Cons.hyps(2) [symmetric], of 4] obtain w'
    where w': "vpl011_read w i 0 4 = (ucast c, w')" "pl011_world_ok w'" "p_rx_list w' i = cs" by blast
  from Cons.hyps(1) [of w'] w' Cons.prems Cons.hyps(2) [symmetric] show ?case by (auto simp: prod.case_eq_if)
qed

lemma pl011_put_char_step:
  fixes w :: pl011_world and c :: u8
  assumes ok: "pl011_world_ok w" and i: "i < MAX_VMS" and own: "cw_owned w (p_owner (pl011_slot w i))"
  defines "w' \<equiv> put_char_locked w i c"
  shows "pl011_world_ok w'" "p_tx_list w' i = take 8192 (p_tx_list w i @ [c])" "cw_owned w' = cw_owned w"
    "p_owner (pl011_slot w' i) = p_owner (pl011_slot w i)"
    "p_tx_dropped (pl011_slot w' i) = p_tx_dropped (pl011_slot w i) + (if length (p_tx_list w i) < 8192 then 0 else 1)"
proof -
  let ?s = "pl011_slot w i"
  note D = pl011_okD [OF ok i]
  have l: "(8192 \<le> r_count (p_tx ?s)) = (\<not> length (p_tx_list w i) < 8192)"
    by (simp add: p_tx_list_def word_le_nat_alt not_less)
  have b: "length (p_tx_list w i) \<le> 8192" using ring8192.bounded [OF D(3)] by (simp add: p_tx_list_def)
  show "pl011_world_ok w'"
    using pl011_world_set [OF ok i] D l own ring8192.push_inv [OF D(3)]
    by (auto simp: w'_def put_char_locked_def Let_def pl011_ok_def p_tx_list_def)
  show "p_tx_list w' i = take 8192 (p_tx_list w i @ [c])"
    using D(1) i l b own ring8192.push_contents [OF D(3)]
    by (auto simp: w'_def put_char_locked_def Let_def p_tx_list_def not_less)
  show "cw_owned w' = cw_owned w" "p_owner (pl011_slot w' i) = p_owner (pl011_slot w i)"
    "p_tx_dropped (pl011_slot w' i) = p_tx_dropped (pl011_slot w i) + (if length (p_tx_list w i) < 8192 then 0 else 1)"
    using D(1) i l own by (auto simp: w'_def put_char_locked_def Let_def)
qed

definition pl011_print :: "pl011_world \<Rightarrow> nat \<Rightarrow> u8 list \<Rightarrow> pl011_world" where
  "pl011_print w i cs = foldl (\<lambda>w c. vpl011_write w i 0 4 (ucast c)) w cs"

lemma pl011_print_list:
  assumes "pl011_world_ok w" "i < MAX_VMS" "cw_owned w (p_owner (pl011_slot w i))"
  shows "p_tx_list (pl011_print w i cs) i = take 8192 (p_tx_list w i @ cs) \<and>
    p_tx_dropped (pl011_slot (pl011_print w i cs) i) =
      p_tx_dropped (pl011_slot w i) + of_nat (length (p_tx_list w i @ cs) - 8192)"
  using assms
proof (induction cs arbitrary: w)
  case Nil
  then show ?case using ring8192.bounded [OF pl011_okD(3) [OF Nil(1,2)]]
    by (simp add: pl011_print_def p_tx_list_def)
next
  case (Cons c cs)
  let ?w = "put_char_locked w i c"
  note s = pl011_put_char_step [OF Cons.prems(1-3), where c = c]
  have b: "length (p_tx_list w i) \<le> 8192"
    using ring8192.bounded [OF pl011_okD(3) [OF Cons.prems(1,2)]] by (simp add: p_tx_list_def)
  have "pl011_print w i (c # cs) = pl011_print ?w i cs" by (simp add: pl011_print_def vpl011_write_def Let_def)
  moreover have "p_tx_list (pl011_print ?w i cs) i = take 8192 (p_tx_list ?w i @ cs) \<and>
    p_tx_dropped (pl011_slot (pl011_print ?w i cs) i) =
      p_tx_dropped (pl011_slot ?w i) + of_nat (length (p_tx_list ?w i @ cs) - 8192)"
    using s Cons.prems by (intro Cons.IH) simp_all
  moreover have "take 8192 (take 8192 (p_tx_list w i @ [c]) @ cs) = take 8192 (p_tx_list w i @ c # cs)"
    by (simp add: min_def take_Cons')
  moreover have "(if length (p_tx_list w i) < 8192 then 0 else 1) + of_nat (length (take 8192 (p_tx_list w i @ [c]) @ cs) - 8192) =
      (of_nat (length (p_tx_list w i @ c # cs) - 8192) :: u64)"
    using b by (auto simp: not_less)
  ultimately show ?case using s(2,5) by (simp add: add.assoc)
qed

section \<open>Properties\<close>

text \<open>One VM with a console in channel mode, for the witnesses.\<close>

definition pl011_vm :: vm_ref where
  "pl011_vm = \<lparr>vm_addr = 0x1000, vm_slot = 0\<rparr>"

definition pl011_w0 :: pl011_world where
  "pl011_w0 =
     \<lparr>cw_pool = \<lparr>p_st = vpl011_zero\<lparr>p_cr := 0x301, p_owner := 0x1000\<rparr>, p_dev_ready = True\<rparr> #
        replicate 31 \<lparr>p_st = vpl011_zero, p_dev_ready = False\<rparr>,
      cw_owned = (\<lambda>_. True), cw_klog = []\<rparr>"

lemma pl011_zero_ok: "pl011_ok vpl011_zero" "pl011_ok (vpl011_zero\<lparr>p_cr := b, p_owner := a\<rparr>)"
  by (simp_all add: pl011_ok_def vpl011_zero_def ring_zero_ok)

lemma pl011_w0_ok: "pl011_world_ok pl011_w0" "vpl011_of (cw_pool pl011_w0) pl011_vm = Some 0"
  "p_rx_list pl011_w0 0 = []" "p_tx_list pl011_w0 0 = []" "p_tx_dropped (pl011_slot pl011_w0 0) = 0"
proof -
  have "pl011_ok (pl011_slot pl011_w0 i)" if "i < 32" for i
    using that pl011_zero_ok by (cases i) (simp_all add: pl011_slot_def pl011_w0_def)
  then show "pl011_world_ok pl011_w0" by (simp add: pl011_world_ok_def pl011_w0_def)
  show "vpl011_of (cw_pool pl011_w0) pl011_vm = Some 0"
    by (simp add: vpl011_of_def pl011_w0_def pl011_vm_def)
  show "p_rx_list pl011_w0 0 = []" "p_tx_list pl011_w0 0 = []" "p_tx_dropped (pl011_slot pl011_w0 0) = 0"
    by (simp_all add: pl011_slot_def pl011_w0_def vpl011_zero_def p_lists)
qed

text \<open>
  C18: what the host types reaches the guest in order: reading the data register until the
  buffer is empty yields the first 256 of the bytes that were waiting followed by the new
  ones; input beyond that is dropped, never input that was accepted.
\<close>

theorem vpl011_rx_stream:
  assumes "pl011_world_ok w" and "vpl011_of (cw_pool w) vm = Some i"
  shows "fst (pl011_read_n (min 256 (length (p_rx_list w i @ cs))) (pl011_feed w vm cs) i) =
    map ucast (take 256 (p_rx_list w i @ cs))"
proof -
  note f = pl011_feed_list [OF assms, of cs]
  have "i < MAX_VMS" by (rule pl011.of_vm_Some(1) [OF assms(2)])
  from pl011_read_n_list [OF conjunct1 [OF f] this] show ?thesis
    by (simp only: conjunct2 [OF f] length_take min.commute)
qed

theorem vpl011_rx_stream_witness:
  "fst (pl011_read_n (min 256 (length (p_rx_list pl011_w0 0 @ [65, 66]))) (pl011_feed pl011_w0 pl011_vm [65, 66]) 0) =
    map ucast (take 256 (p_rx_list pl011_w0 0 @ [65, 66]))"
  by (rule vpl011_rx_stream [OF pl011_w0_ok(1,2)])





end
