(* ===== verification/Bits.thy ===== *)
theory Bits
  imports Avatar_Prelude
begin

text \<open>
  The bit tricks of the interrupt code: \<open>c AND (NOT c + 1)\<close> isolates the lowest set bit of \<open>c\<close>,
  \<open>c AND (c - 1)\<close> clears it, and the loop \<open>bit_number\<close> turns the isolated bit into its number. The
  code uses them on words of 16, 32 and 64 bits, so the lemmas hold for every width.
\<close>

unbundle bit_operations_syntax

function bit_number :: "'a :: len word \<Rightarrow> u32 \<Rightarrow> u32" where
  "bit_number t irq = (if t > 1 then bit_number (drop_bit 1 t) (irq + 1) else irq)"
  by auto
termination
proof (relation "measure (\<lambda>(t, irq). unat t)")
  fix t :: "'a word" and irq :: u32
  assume "1 < t"
  then have "0 < unat t" by (metis less_trans unat_gt_0 word_gt_0 word_not_simps(1) word_neq_0_conv)
  moreover have "unat (drop_bit 1 t) = unat t div 2"
    by (subst unsigned_drop_bit_eq) (simp add: drop_bit_eq_div take_bit_nat_eq_self)
  ultimately show "((drop_bit 1 t, irq + 1), (t, irq)) \<in> measure (\<lambda>(t, irq). unat t)"
    by simp
qed simp

declare bit_number.simps [simp del]

lemma clear_lowest_less: "(c :: 'a :: len word) \<noteq> 0 \<Longrightarrow> unat (c AND (c - 1)) < unat c"
proof -
  assume "c \<noteq> 0"
  have "c AND (c - 1) \<le> c - 1" by (simp add: word_and_le1)
  moreover have "c - 1 < c" using \<open>c \<noteq> 0\<close> by (simp add: word_less_nat_alt unat_minus_one unat_gt_0)
  ultimately show ?thesis by (simp add: word_less_nat_alt word_le_nat_alt)
qed

section \<open>The lowest set bit\<close>

lemma lowest_bit_ex:
  fixes c :: "'a :: len word"
  assumes "c \<noteq> 0"
  obtains k where "bit c k" "\<And>i. i < k \<Longrightarrow> \<not> bit c i" "k < LENGTH('a)"
proof -
  have ex: "\<exists>k. bit c k" using assms by (auto simp: bit_eq_iff)
  have "bit c (LEAST k. bit c k)" by (rule LeastI_ex [OF ex])
  moreover have "\<not> bit c i" if "i < (LEAST k. bit c k)" for i using that by (rule not_less_Least)
  ultimately show thesis using bit_imp_le_length by (intro that) blast+
qed

lemma lowest_bit_split:
  fixes c :: "'a :: len word"
  assumes k: "bit c k" and low: "\<And>i. i < k \<Longrightarrow> \<not> bit c i"
  shows "c - 1 = (c AND NOT (2 ^ k)) OR mask k"
proof -
  have c: "c = (c AND NOT (2 ^ k)) + 2 ^ k"
    using k by (subst disjunctive_add) (auto simp: bit_simps intro!: bit_word_eqI)
  have "(c AND NOT (2 ^ k)) OR mask k = (c AND NOT (2 ^ k)) + mask k"
    using low by (subst disjunctive_add) (auto simp: bit_simps)
  also have "\<dots> = (c AND NOT (2 ^ k)) + 2 ^ k - 1" by (simp add: mask_eq_exp_minus_1)
  also have "\<dots> = c - 1" using c by simp
  finally show ?thesis by simp
qed

lemma bit_dec:
  fixes c :: "'a :: len word"
  assumes "bit c k" "\<And>i. i < k \<Longrightarrow> \<not> bit c i"
  shows "bit (c - 1) n \<longleftrightarrow> n < LENGTH('a) \<and> (n < k \<or> n \<noteq> k \<and> bit c n)"
proof -
  have "bit (c - 1) n = bit ((c AND NOT (2 ^ k)) OR mask k) n"
    by (rule arg_cong [OF lowest_bit_split [OF assms]])
  then show ?thesis using bit_imp_le_length [of c] by (auto simp: bit_simps)
qed

lemma clear_lowest:
  fixes c :: "'a :: len word"
  assumes "bit c k" "\<And>i. i < k \<Longrightarrow> \<not> bit c i"
  shows "c AND (c - 1) = c AND NOT (2 ^ k)"
  using assms(2) by (auto simp: bit_simps bit_dec [OF assms] intro!: bit_word_eqI)

lemma isolate_lowest:
  fixes c :: "'a :: len word"
  assumes "bit c k" "\<And>i. i < k \<Longrightarrow> \<not> bit c i"
  shows "c AND (NOT c + 1) = 2 ^ k"
proof -
  have "NOT c + 1 = NOT (c - 1)" by (simp add: not_eq_complement)
  moreover have "c AND NOT (c - 1) = 2 ^ k"
    using assms by (auto simp: bit_simps bit_dec [OF assms] intro!: bit_word_eqI)
  ultimately show ?thesis by simp
qed

lemma unat_exp: "k < LENGTH('a) \<Longrightarrow> unat ((2 :: 'a :: len word) ^ k) = 2 ^ k"
proof -
  assume "k < LENGTH('a)"
  then have "(2 :: nat) ^ k < 2 ^ LENGTH('a)" by (rule power_strict_increasing) simp
  then have "unat (of_nat (2 ^ k) :: 'a word) = 2 ^ k" by (simp add: unat_of_nat del: of_nat_power)
  then show ?thesis by simp
qed

lemma bit_number_exp:
  fixes i :: u32
  shows "k < LENGTH('a) \<Longrightarrow> bit_number ((2 :: 'a :: len word) ^ k) i = i + of_nat k"
proof (induction k arbitrary: i)
  case 0
  then show ?case by (subst bit_number.simps) simp
next
  case (Suc k)
  have u: "unat ((2 :: 'a word) ^ Suc k) = 2 ^ Suc k" using Suc.prems by (rule unat_exp)
  have u1: "unat (1 :: 'a word) = 1" using Suc.prems by (cases "LENGTH('a)") simp_all
  have "1 < (2 :: 'a word) ^ Suc k"
    using one_less_power [of "2 :: nat" "Suc k"] u u1 by (simp add: word_less_nat_alt del: power_Suc)
  moreover have "drop_bit 1 ((2 :: 'a word) ^ Suc k) = 2 ^ k"
    using Suc.prems by (intro bit_word_eqI) (auto simp: bit_simps simp del: power_Suc)
  ultimately show ?case using Suc by (subst bit_number.simps) (simp add: ac_simps)
qed

text \<open>The three tricks together: the loop finds the number of the lowest set bit.\<close>

lemma lowest_bit_number:
  fixes c :: "'a :: len word" and i :: u32
  assumes "bit c k" "\<And>i. i < k \<Longrightarrow> \<not> bit c i"
  shows "bit_number (c AND (NOT c + 1)) i = i + of_nat k"
proof -
  have "k < LENGTH('a)" using assms(1) bit_imp_le_length by blast
  then show ?thesis using isolate_lowest [OF assms] bit_number_exp by metis
qed

end
