(* ===== verification/Vplic.thy ===== *)
theory Vplic
  imports Vdev Bits
begin

text \<open>
  The virtual RISC-V interrupt controller, \<^verbatim>\<open>kernel/vmm/vdev/vplic.c\<close> and
  \<^verbatim>\<open>include/vmm/vmm_vplic.h\<close>: 64 sources, one context per virtual CPU, one slot per VM. The
  slot lock makes every public operation and every MMIO access atomic.
\<close>

unbundle bit_operations_syntax

section \<open>State and operations\<close>

abbreviation VPLIC_MAX_IRQS :: nat where
  "VPLIC_MAX_IRQS \<equiv> 64"

abbreviation VPLIC_MAX_VCPUS :: nat where
  "VPLIC_MAX_VCPUS \<equiv> 12"

record vplic_state_t =
  pl_owner :: u64
  pl_priority :: "u32 list"
  pl_pending :: u64
  pl_active :: "u64 list"
  pl_enable :: "u64 list"
  pl_threshold :: "u32 list"
  pl_nr_vcpus :: u32

record vplic_slot_t =
  pl_st :: vplic_state_t
  pl_dev_ready :: bool

text \<open>The state after \<^verbatim>\<open>memset\<close>.\<close>

definition vplic_zero :: vplic_state_t where
  "vplic_zero =
     \<lparr>pl_owner = 0, pl_priority = replicate VPLIC_MAX_IRQS 0, pl_pending = 0,
      pl_active = replicate VPLIC_MAX_VCPUS 0, pl_enable = replicate VPLIC_MAX_VCPUS 0,
      pl_threshold = replicate VPLIC_MAX_VCPUS 0, pl_nr_vcpus = 0\<rparr>"

definition vplic_of :: "vplic_slot_t list \<Rightarrow> vm_ref \<Rightarrow> nat option" where
  "vplic_of g vm =
     (if vm_addr vm = 0 \<or> unat (vm_slot vm) \<ge> MAX_VMS then None
      else let d = g ! unat (vm_slot vm)
           in if pl_owner (pl_st d) \<noteq> vm_addr vm then None else Some (unat (vm_slot vm)))"

abbreviation VALID_IRQ_MASK :: u64 where
  "VALID_IRQ_MASK \<equiv> NOT 1"

text \<open>The search loop: remaining candidates, best source and best priority so far.\<close>

function best_loop :: "u32 list \<Rightarrow> u64 \<Rightarrow> u32 \<Rightarrow> u32 \<Rightarrow> u32" where
  "best_loop prio candidates best_irq best_prio =
     (if candidates \<noteq> 0
      then let t = candidates AND (NOT candidates + 1);
               irq = bit_number t 0;
               p = prio ! unat irq
           in if p > best_prio
              then best_loop prio (candidates AND (candidates - 1)) irq p
              else best_loop prio (candidates AND (candidates - 1)) best_irq best_prio
      else best_irq)"
  by auto
termination
  by (relation "measure (\<lambda>(prio, c, i, p). unat c)") (simp_all add: clear_lowest_less)

declare best_loop.simps [simp del]

definition vplic_next_deliverable_locked :: "vplic_state_t \<Rightarrow> u32 \<Rightarrow> u32" where
  "vplic_next_deliverable_locked s vcpu_id =
     (if vcpu_id \<ge> pl_nr_vcpus s \<or> unat vcpu_id \<ge> VPLIC_MAX_VCPUS then 0
      else let v = unat vcpu_id;
               candidates = pl_pending s AND (pl_enable s ! v) AND NOT (pl_active s ! v) AND VALID_IRQ_MASK
           in best_loop (pl_priority s) candidates 0 (pl_threshold s ! v))"

definition vplic_claim_locked :: "vplic_state_t \<Rightarrow> u32 \<Rightarrow> u32 \<times> vplic_state_t" where
  "vplic_claim_locked s vcpu_id =
     (if unat vcpu_id \<ge> VPLIC_MAX_VCPUS then (0, s)
      else let irq = vplic_next_deliverable_locked s vcpu_id;
               v = unat vcpu_id
           in if irq = 0 then (0, s)
              else (irq, s\<lparr>pl_pending := pl_pending s AND NOT (push_bit (unat irq) 1),
                           pl_active := (pl_active s)[v := pl_active s ! v OR push_bit (unat irq) 1]\<rparr>))"

definition vplic_complete_locked :: "vplic_state_t \<Rightarrow> u32 \<Rightarrow> u32 \<Rightarrow> vplic_state_t" where
  "vplic_complete_locked s vcpu_id irq =
     (if unat vcpu_id \<ge> VPLIC_MAX_VCPUS \<or> irq = 0 \<or> unat irq \<ge> VPLIC_MAX_IRQS then s
      else let v = unat vcpu_id
           in s\<lparr>pl_active := (pl_active s)[v := pl_active s ! v AND NOT (push_bit (unat irq) 1)]\<rparr>)"

text \<open>The public operations look the slot up first; \<open>on_slot\<close> is the update of the slot's state.\<close>

definition on_slot :: "vplic_slot_t list \<Rightarrow> nat \<Rightarrow> vplic_state_t \<Rightarrow> vplic_slot_t list" where
  "on_slot g i st = g[i := (g ! i)\<lparr>pl_st := st\<rparr>]"

definition vplic_set_pending :: "vplic_slot_t list \<Rightarrow> vm_ref \<Rightarrow> u32 \<Rightarrow> vplic_slot_t list" where
  "vplic_set_pending g vm irq =
     (case vplic_of g vm of
        None \<Rightarrow> g
      | Some i \<Rightarrow>
          if irq = 0 \<or> unat irq \<ge> VPLIC_MAX_IRQS then g
          else let s = pl_st (g ! i)
               in on_slot g i (s\<lparr>pl_pending := pl_pending s OR push_bit (unat irq) 1\<rparr>))"

definition vplic_next_deliverable :: "vplic_slot_t list \<Rightarrow> vm_ref \<Rightarrow> u32 \<Rightarrow> u32" where
  "vplic_next_deliverable g vm vcpu_id =
     (case vplic_of g vm of None \<Rightarrow> 0 | Some i \<Rightarrow> vplic_next_deliverable_locked (pl_st (g ! i)) vcpu_id)"

definition vplic_claim :: "vplic_slot_t list \<Rightarrow> vm_ref \<Rightarrow> u32 \<Rightarrow> u32 \<times> vplic_slot_t list" where
  "vplic_claim g vm vcpu_id =
     (case vplic_of g vm of
        None \<Rightarrow> (0, g)
      | Some i \<Rightarrow> let (irq, s) = vplic_claim_locked (pl_st (g ! i)) vcpu_id in (irq, on_slot g i s))"

definition vplic_complete :: "vplic_slot_t list \<Rightarrow> vm_ref \<Rightarrow> u32 \<Rightarrow> u32 \<Rightarrow> vplic_slot_t list" where
  "vplic_complete g vm vcpu_id irq =
     (case vplic_of g vm of
        None \<Rightarrow> g
      | Some i \<Rightarrow> on_slot g i (vplic_complete_locked (pl_st (g ! i)) vcpu_id irq))"

section \<open>The register window\<close>

abbreviation PENDING_OFFSET :: u64 where
  "PENDING_OFFSET \<equiv> 0x1000"

abbreviation ENABLE_OFFSET :: u64 where
  "ENABLE_OFFSET \<equiv> 0x2000"

abbreviation ENABLE_STRIDE :: u64 where
  "ENABLE_STRIDE \<equiv> 0x80"

abbreviation CONTEXT_OFFSET :: u64 where
  "CONTEXT_OFFSET \<equiv> 0x200000"

abbreviation CONTEXT_STRIDE :: u64 where
  "CONTEXT_STRIDE \<equiv> 0x1000"

definition vplic_read :: "vplic_state_t \<Rightarrow> u64 \<Rightarrow> u8 \<Rightarrow> u64 \<times> vplic_state_t" where
  "vplic_read s off sz =
     (if off < 64 * 4
      then let irq = ucast (off div 4) :: u32
           in (if unat irq < VPLIC_MAX_IRQS then ucast (pl_priority s ! unat irq) else 0, s)
      else if off \<ge> PENDING_OFFSET \<and> off < PENDING_OFFSET + 8
      then let word = ucast ((off - PENDING_OFFSET) div 4) :: u32
           in (if word \<ge> 2 then 0 else drop_bit (unat (word * 32)) (pl_pending s) AND 0xFFFFFFFF, s)
      else if off \<ge> ENABLE_OFFSET \<and> off < ENABLE_OFFSET + ENABLE_STRIDE * 12
      then let ctx = ucast ((off - ENABLE_OFFSET) div ENABLE_STRIDE) :: u32;
               word = ucast (((off - ENABLE_OFFSET) mod ENABLE_STRIDE) div 4) :: u32
           in (if ctx < pl_nr_vcpus s \<and> word < 2
               then drop_bit (unat (word * 32)) (pl_enable s ! unat ctx) AND 0xFFFFFFFF else 0, s)
      else if off \<ge> CONTEXT_OFFSET
      then let ctx = ucast ((off - CONTEXT_OFFSET) div CONTEXT_STRIDE) :: u32;
               reg = ucast ((off - CONTEXT_OFFSET) mod CONTEXT_STRIDE) :: u32
           in if ctx < pl_nr_vcpus s
              then if reg = 0 then (ucast (pl_threshold s ! unat ctx), s)
                   else if reg = 4 then let (irq, s) = vplic_claim_locked s ctx in (ucast irq, s)
                   else (0, s)
              else (0, s)
      else (0, s))"

definition vplic_write :: "vplic_state_t \<Rightarrow> u64 \<Rightarrow> u8 \<Rightarrow> u64 \<Rightarrow> vplic_state_t" where
  "vplic_write s off sz value =
     (let v = ucast value :: u32
      in if off < 64 * 4
      then let irq = ucast (off div 4) :: u32
           in if irq > 0 \<and> unat irq < VPLIC_MAX_IRQS then s\<lparr>pl_priority := (pl_priority s)[unat irq := v]\<rparr> else s
      else if off \<ge> ENABLE_OFFSET \<and> off < ENABLE_OFFSET + ENABLE_STRIDE * 12
      then let ctx = ucast ((off - ENABLE_OFFSET) div ENABLE_STRIDE) :: u32;
               word = ucast (((off - ENABLE_OFFSET) mod ENABLE_STRIDE) div 4) :: u32
           in if ctx < pl_nr_vcpus s \<and> word < 2
              then let sh = unat (word * 32);
                       e = pl_enable s ! unat ctx AND NOT (push_bit sh 0xFFFFFFFF);
                       e = e OR (push_bit sh (ucast v) AND VALID_IRQ_MASK)
                   in s\<lparr>pl_enable := (pl_enable s)[unat ctx := e]\<rparr>
              else s
      else if off \<ge> CONTEXT_OFFSET
      then let ctx = ucast ((off - CONTEXT_OFFSET) div CONTEXT_STRIDE) :: u32;
               reg = ucast ((off - CONTEXT_OFFSET) mod CONTEXT_STRIDE) :: u32
           in if ctx < pl_nr_vcpus s
              then if reg = 0 then s\<lparr>pl_threshold := (pl_threshold s)[unat ctx := v]\<rparr>
                   else if reg = 4 then vplic_complete_locked s ctx v
                   else s
              else s
      else s)"

definition vplic_ops :: "nat \<Rightarrow> vplic_slot_t list mmio_dev_ops_t" where
  "vplic_ops i =
     \<lparr>op_name = ''vplic'', op_base = 0x0c000000, op_size = 0x400000,
      op_read = Some (\<lambda>g off sz. let (v, s) = vplic_read (pl_st (g ! i)) off sz in (v, on_slot g i s)),
      op_write = Some (\<lambda>g off sz value. on_slot g i (vplic_write (pl_st (g ! i)) off sz value)),
      op_read_for_vcpu = None, op_write_for_vcpu = None\<rparr>"

text \<open>\<open>place\<close> is the place of the pool in the state of the machine that the bus acts on.\<close>

definition vplic_init ::
  "(vplic_slot_t list mmio_dev_ops_t \<Rightarrow> 's mmio_dev_ops_t) \<Rightarrow> vplic_slot_t list \<Rightarrow> vm_ref \<Rightarrow>
   's mmio_bus_t option \<Rightarrow> u32 \<Rightarrow> int \<times> vplic_slot_t list \<times> 's mmio_bus_t option" where
  "vplic_init place g vm bus nr_vcpus =
     (case bus of
        None \<Rightarrow> (- 1, g, bus)
      | Some b \<Rightarrow>
          if vm_addr vm = 0 \<or> unat (vm_slot vm) \<ge> MAX_VMS then (- 1, g, bus)
          else let i = unat (vm_slot vm);
                   nr_vcpus = (if nr_vcpus < 1 then 1 else nr_vcpus);
                   nr_vcpus = (if nr_vcpus > 12 then 12 else nr_vcpus);
                   g = g[i := \<lparr>pl_st = vplic_zero\<lparr>pl_nr_vcpus := nr_vcpus, pl_owner := vm_addr vm\<rparr>, pl_dev_ready = True\<rparr>];
                   (r, b) = mmio_bus_register b (Some (place (vplic_ops i)))
               in (r, g, Some b))"

definition vplic_destroy :: "vplic_slot_t list \<Rightarrow> vm_ref \<Rightarrow> vplic_slot_t list" where
  "vplic_destroy g vm =
     (if vm_addr vm = 0 \<or> unat (vm_slot vm) \<ge> MAX_VMS then g
      else g[unat (vm_slot vm) := \<lparr>pl_st = vplic_zero, pl_dev_ready = False\<rparr>])"

interpretation vplic: vdev_pool "\<lambda>d. pl_owner (pl_st d)" vplic_of
  by unfold_locales (simp add: vplic_of_def Let_def)

section \<open>Selection of the best source\<close>

text \<open>The numbers of the set bits, ascending.\<close>

definition bits_of :: "u64 \<Rightarrow> nat list" where
  "bits_of c = filter (bit c) [0..<64]"

lemma set_bits_of [simp]: "set (bits_of c) = {i. bit c i}"
  using bit_imp_le_length [of c] by (auto simp: bits_of_def)

lemma bits_of_0 [simp]: "bits_of 0 = []"
  by (simp add: bits_of_def)

lemma bits_of_Cons:
  assumes "c \<noteq> 0"
  obtains k where "bit c k" "\<And>i. i < k \<Longrightarrow> \<not> bit c i" "k < 64" "bits_of c = k # bits_of (c AND NOT (2 ^ k))"
proof -
  obtain k where k: "bit c k" "k < 64" and low: "\<And>i. i < k \<Longrightarrow> \<not> bit c i"
    using lowest_bit_ex [OF assms] by auto
  have split: "[0..<64] = [0..<k] @ k # [Suc k..<64]"
    using k(2) by (metis less_imp_le upt_conv_Cons upt_add_eq_append le_add_diff_inverse zero_le)
  have "filter (bit c) [0..<k] = []" "filter (bit (c AND NOT (2 ^ k))) [0..<k] = []"
    using low by (auto simp: filter_empty_conv bit_simps)
  moreover have "filter (bit (c AND NOT (2 ^ k))) [Suc k..<64] = filter (bit c) [Suc k..<64]"
    by (rule filter_cong) (auto simp: bit_simps)
  moreover have "\<not> bit (c AND NOT (2 ^ k)) k" using k by (simp add: bit_simps)
  ultimately have "bits_of c = k # bits_of (c AND NOT (2 ^ k))"
    using k unfolding bits_of_def split by simp
  with k low show thesis by (intro that)
qed

text \<open>The loop as a fold over the set bits.\<close>

definition better :: "u32 list \<Rightarrow> u32 \<times> u32 \<Rightarrow> nat \<Rightarrow> u32 \<times> u32" where
  "better prio b i = (if prio ! i > snd b then (of_nat i, prio ! i) else b)"

lemma better_pair: "better prio (b, p) i = (if prio ! i > p then (of_nat i, prio ! i) else (b, p))"
  by (simp add: better_def)

lemma best_loop_fold: "best_loop prio c bi bp = fst (foldl (better prio) (bi, bp) (bits_of c))"
proof (induction prio c bi bp rule: best_loop.induct)
  case (1 prio c bi bp)
  show ?case
  proof (cases "c = 0")
    case True
    then show ?thesis by (simp add: best_loop.simps)
  next
    case False
    then obtain k where k: "bit c k" "\<And>i. i < k \<Longrightarrow> \<not> bit c i" "k < 64" "bits_of c = k # bits_of (c AND NOT (2 ^ k))"
      using bits_of_Cons by blast
    note cl = clear_lowest [OF k(1,2)]
    have irq: "bit_number (c AND (NOT c + 1)) 0 = of_nat k"
      using lowest_bit_number [OF k(1,2), of 0] by (simp only: add_0)
    have uk: "unat (of_nat k :: u32) = k" using k(3) by (simp add: unat_of_nat)
    show ?thesis
    proof (cases "prio ! k > bp")
      case True
      then have "best_loop prio c bi bp = best_loop prio (c AND NOT (2 ^ k)) (of_nat k) (prio ! k)"
        using False by (subst best_loop.simps) (simp only: Let_def irq uk cl if_True simp_thms)
      also have "\<dots> = fst (foldl (better prio) (of_nat k, prio ! k) (bits_of (c AND NOT (2 ^ k))))"
        using "1.IH"(1) [OF False refl refl refl] True by (simp only: irq uk cl)
      also have "(of_nat k, prio ! k) = better prio (bi, bp) k" using True by (simp add: better_def)
      finally show ?thesis by (simp only: k(4) foldl_Cons)
    next
      case no: False
      then have "best_loop prio c bi bp = best_loop prio (c AND NOT (2 ^ k)) bi bp"
        using False by (subst best_loop.simps) (simp only: Let_def irq uk cl if_True if_False simp_thms)
      also have "\<dots> = fst (foldl (better prio) (bi, bp) (bits_of (c AND NOT (2 ^ k))))"
        using "1.IH"(2) [OF False refl refl refl] no by (simp only: irq uk cl simp_thms)
      also have "(bi, bp) = better prio (bi, bp) k" using no by (simp add: better_def)
      finally show ?thesis by (simp only: k(4) foldl_Cons)
    qed
  qed
qed

text \<open>The fold finds the highest priority above the start value, the lowest number first.\<close>

lemma foldl_better:
  fixes prio :: "u32 list" and bst thr :: u32
  assumes "sorted_wrt (<) js"
  defines "b \<equiv> foldl (better prio) (bst, thr) js"
  shows "(b = (bst, thr) \<and> (\<forall>i \<in> set js. prio ! i \<le> thr)) \<or>
    (\<exists>i \<in> set js. b = (of_nat i, prio ! i) \<and> thr < prio ! i \<and>
       (\<forall>j \<in> set js. prio ! j \<le> prio ! i \<and> (prio ! j = prio ! i \<longrightarrow> i \<le> j)))"
  using assms(1) unfolding b_def
proof (induction js rule: rev_induct)
  case (snoc k js)
  have lt: "\<forall>j \<in> set js. j < k" and s: "sorted_wrt (<) js" using snoc.prems by (simp_all add: sorted_wrt_append)
  let ?b = "foldl (better prio) (bst, thr) js"
  from snoc.IH s
  consider (none) "?b = (bst, thr)" "\<forall>i \<in> set js. prio ! i \<le> thr"
    | (some) i where "i \<in> set js" "?b = (of_nat i, prio ! i)" "thr < prio ! i"
        "\<forall>j \<in> set js. prio ! j \<le> prio ! i \<and> (prio ! j = prio ! i \<longrightarrow> i \<le> j)" by auto
  then show ?case
  proof cases
    case none
    then show ?thesis using lt by (cases "thr < prio ! k") (auto simp: better_pair)
  next
    case (some i)
    then show ?thesis
    proof (cases "prio ! i < prio ! k")
      case True
      with some lt show ?thesis by (intro disjI2 bexI [of _ k]) (auto simp: better_pair)
    next
      case False
      with some lt show ?thesis by (intro disjI2 bexI [of _ i]) (auto simp: better_pair)
    qed
  qed
qed simp

lemma sorted_bits_of: "sorted_wrt (<) (bits_of c)"
  by (simp add: bits_of_def sorted_wrt_filter)

section \<open>Invariant\<close>

definition vplic_ok :: "vplic_state_t \<Rightarrow> bool" where
  "vplic_ok s \<longleftrightarrow>
     length (pl_priority s) = VPLIC_MAX_IRQS \<and> length (pl_active s) = VPLIC_MAX_VCPUS \<and>
     length (pl_enable s) = VPLIC_MAX_VCPUS \<and> length (pl_threshold s) = VPLIC_MAX_VCPUS \<and>
     unat (pl_nr_vcpus s) \<le> VPLIC_MAX_VCPUS \<and> \<not> bit (pl_pending s) 0"

text \<open>Source \<open>i\<close> may be delivered to context \<open>v\<close>.\<close>

definition deliverable :: "vplic_state_t \<Rightarrow> nat \<Rightarrow> nat \<Rightarrow> bool" where
  "deliverable s v i \<longleftrightarrow>
     0 < i \<and> i < VPLIC_MAX_IRQS \<and> bit (pl_pending s) i \<and> bit (pl_enable s ! v) i \<and>
     \<not> bit (pl_active s ! v) i \<and> pl_threshold s ! v < pl_priority s ! i"

lemma next_deliverable_cases:
  assumes ok: "vplic_ok s" and v: "v < pl_nr_vcpus s"
  shows "(vplic_next_deliverable_locked s v = 0 \<and> (\<forall>i. \<not> deliverable s (unat v) i)) \<or>
    (\<exists>i. vplic_next_deliverable_locked s v = of_nat i \<and> deliverable s (unat v) i \<and>
       (\<forall>j. deliverable s (unat v) j \<longrightarrow>
          pl_priority s ! j \<le> pl_priority s ! i \<and> (pl_priority s ! j = pl_priority s ! i \<longrightarrow> i \<le> j)))"
proof -
  define cc where "cc = pl_pending s AND (pl_enable s ! unat v) AND NOT (pl_active s ! unat v) AND NOT 1"
  have nv: "vplic_next_deliverable_locked s v = fst (foldl (better (pl_priority s)) (0, pl_threshold s ! unat v) (bits_of cc))"
    using v ok by (simp add: vplic_next_deliverable_locked_def Let_def best_loop_fold vplic_ok_def word_less_nat_alt word_le_nat_alt cc_def)
  have c: "bit cc i \<longleftrightarrow> 0 < i \<and> i < 64 \<and> bit (pl_pending s) i \<and> bit (pl_enable s ! unat v) i \<and> \<not> bit (pl_active s ! unat v) i" for i
    using bit_imp_le_length [of "pl_pending s" i] by (auto simp: cc_def bit_simps)
  have d: "deliverable s (unat v) i \<longleftrightarrow> bit cc i \<and> pl_threshold s ! unat v < pl_priority s ! i" for i
    by (auto simp: deliverable_def c)
  from foldl_better [where js = "bits_of cc" and prio = "pl_priority s" and bst = 0 and thr = "pl_threshold s ! unat v",
      OF sorted_bits_of]
  show ?thesis
  proof (elim disjE conjE bexE)
    assume "foldl (better (pl_priority s)) (0, pl_threshold s ! unat v) (bits_of cc) = (0, pl_threshold s ! unat v)"
      and "\<forall>i \<in> set (bits_of cc). pl_priority s ! i \<le> pl_threshold s ! unat v"
    then show ?thesis by (intro disjI1) (simp add: nv d not_less)
  next
    fix i
    assume "i \<in> set (bits_of cc)" "foldl (better (pl_priority s)) (0, pl_threshold s ! unat v) (bits_of cc) = (of_nat i, pl_priority s ! i)"
      "pl_threshold s ! unat v < pl_priority s ! i"
      "\<forall>j \<in> set (bits_of cc). pl_priority s ! j \<le> pl_priority s ! i \<and> (pl_priority s ! j = pl_priority s ! i \<longrightarrow> i \<le> j)"
    then show ?thesis by (intro disjI2 exI [of _ i]) (simp add: nv d)
  qed
qed

lemma claim_deliverable:
  assumes ok: "vplic_ok s" and c: "vplic_claim_locked s v = (irq, s')" and irq: "irq \<noteq> 0"
  shows "v < pl_nr_vcpus s" "deliverable s (unat v) (unat irq)" "\<not> bit (pl_pending s') (unat irq)"
    "bit (pl_active s' ! unat v) (unat irq)" "unat irq < 64"
    "s' = s\<lparr>pl_pending := pl_pending s AND NOT (2 ^ unat irq),
            pl_active := (pl_active s)[unat v := pl_active s ! unat v OR 2 ^ unat irq]\<rparr>"
proof -
  have n: "vplic_next_deliverable_locked s v = irq" "unat v < 12"
    and s': "s' = s\<lparr>pl_pending := pl_pending s AND NOT (2 ^ unat irq),
            pl_active := (pl_active s)[unat v := pl_active s ! unat v OR 2 ^ unat irq]\<rparr>"
    using c irq by (auto simp: vplic_claim_locked_def Let_def split: if_splits)
  show v: "v < pl_nr_vcpus s"
    using n irq by (auto simp: vplic_next_deliverable_locked_def split: if_splits)
  from next_deliverable_cases [OF ok v] n irq obtain i where i: "irq = of_nat i" "deliverable s (unat v) i" by auto
  then have "unat irq = i" by (simp add: deliverable_def unat_of_nat)
  with i show d: "deliverable s (unat v) (unat irq)" by simp
  then show l: "unat irq < 64" by (simp add: deliverable_def)
  show "s' = s\<lparr>pl_pending := pl_pending s AND NOT (2 ^ unat irq),
            pl_active := (pl_active s)[unat v := pl_active s ! unat v OR 2 ^ unat irq]\<rparr>" by (rule s')
  show "\<not> bit (pl_pending s') (unat irq)" using l by (simp add: s' bit_simps)
  show "bit (pl_active s' ! unat v) (unat irq)"
    using l n(2) ok by (simp add: s' vplic_ok_def bit_simps)
qed

lemma claim_zero: "vplic_claim_locked s v = (0, s') \<Longrightarrow> s' = s"
  by (auto simp: vplic_claim_locked_def Let_def split: if_splits)

lemma vplic_ok_claim: "vplic_ok s \<Longrightarrow> vplic_ok (snd (vplic_claim_locked s v))"
  by (auto simp: vplic_claim_locked_def Let_def vplic_ok_def bit_simps)

lemma vplic_ok_complete: "vplic_ok s \<Longrightarrow> vplic_ok (vplic_complete_locked s v irq)"
  by (auto simp: vplic_complete_locked_def Let_def vplic_ok_def)

text \<open>A register read changes the state only as a claim does, and then reports the claimed source.\<close>

lemma vplic_read_cases:
  obtains (same) x where "vplic_read s off sz = (x, s)"
  | (claim) v irq s' where "vplic_claim_locked s v = (irq, s')" "vplic_read s off sz = (ucast irq, s')"
proof -
  let ?v = "ucast ((off - CONTEXT_OFFSET) div CONTEXT_STRIDE) :: u32"
  obtain irq s' where c: "vplic_claim_locked s ?v = (irq, s')" by force
  show thesis
  proof (cases "\<exists>x. vplic_read s off sz = (x, s)")
    case False
    with c have "vplic_read s off sz = (ucast irq, s')"
      by (auto simp: vplic_read_def Let_def split: if_splits)
    with c show thesis by (intro claim) auto
  qed (use same in blast)
qed

lemma vplic_ok_read: "vplic_ok s \<Longrightarrow> vplic_ok (snd (vplic_read s off sz))"
  by (cases rule: vplic_read_cases [of s off sz]) (use vplic_ok_claim in \<open>metis snd_conv\<close>)+

lemma vplic_ok_write: "vplic_ok s \<Longrightarrow> vplic_ok (vplic_write s off sz value)"
  by (auto simp: vplic_write_def Let_def vplic_ok_complete) (simp_all add: vplic_ok_def)

lemma vplic_ok_pending:
  "vplic_ok s \<Longrightarrow> irq \<noteq> 0 \<Longrightarrow> vplic_ok (s\<lparr>pl_pending := pl_pending s OR 2 ^ unat (irq :: u32)\<rparr>)"
  by (simp add: vplic_ok_def bit_simps unat_eq_0)

text \<open>
  Everything that can happen to one interrupt controller: a device raises a source, the
  virtual CPUs and the VMM claim and complete, the guest reads and writes registers.
\<close>

datatype plic_op = Raise u32 | Claim u32 | Complete u32 u32 | Read u64 u8 | Write u64 u8 u64

fun plic_step :: "plic_op \<Rightarrow> vplic_state_t \<Rightarrow> vplic_state_t" where
  "plic_step (Raise irq) s =
     (if irq = 0 \<or> unat irq \<ge> VPLIC_MAX_IRQS then s else s\<lparr>pl_pending := pl_pending s OR push_bit (unat irq) 1\<rparr>)"
| "plic_step (Claim v) s = snd (vplic_claim_locked s v)"
| "plic_step (Complete v irq) s = vplic_complete_locked s v irq"
| "plic_step (Read off sz) s = snd (vplic_read s off sz)"
| "plic_step (Write off sz value) s = vplic_write s off sz value"

lemma plic_step_ok: "vplic_ok s \<Longrightarrow> vplic_ok (plic_step op s)"
  by (cases op) (simp_all add: vplic_ok_claim vplic_ok_complete vplic_ok_read vplic_ok_write vplic_ok_pending)

lemma claim_pending_mono: "bit (pl_pending (snd (vplic_claim_locked s v))) i \<Longrightarrow> bit (pl_pending s) i"
  by (auto simp: vplic_claim_locked_def Let_def bit_simps split: if_splits)

lemma complete_pending [simp]: "pl_pending (vplic_complete_locked s v irq) = pl_pending s"
  by (simp add: vplic_complete_locked_def Let_def)

text \<open>Only raising a source makes it pending.\<close>

lemma plic_step_pending:
  "bit (pl_pending (plic_step op s)) i \<Longrightarrow> bit (pl_pending s) i \<or> (\<exists>irq. op = Raise irq \<and> unat irq = i)"
proof (cases op)
  case (Read off sz)
  then show "bit (pl_pending (plic_step op s)) i \<Longrightarrow> ?thesis"
    by (cases rule: vplic_read_cases [of s off sz]) (use claim_pending_mono [of s] in \<open>auto dest!: arg_cong [where f = snd]\<close>)
next
  case (Write off sz val)
  then show "bit (pl_pending (plic_step op s)) i \<Longrightarrow> ?thesis"
    by (auto simp: vplic_write_def Let_def split: if_splits)
qed (auto simp: bit_simps dest: claim_pending_mono split: if_splits)

lemma plic_steps_pending:
  "vplic_ok s \<Longrightarrow> \<not> bit (pl_pending s) i \<Longrightarrow> (\<And>irq. Raise irq \<in> set ops \<Longrightarrow> unat irq \<noteq> i) \<Longrightarrow>
   vplic_ok (fold plic_step ops s) \<and> \<not> bit (pl_pending (fold plic_step ops s)) i"
proof (induction ops arbitrary: s)
  case (Cons op ops)
  have "\<not> bit (pl_pending (plic_step op s)) i"
    using plic_step_pending [of op s i] Cons.prems by auto
  with Cons plic_step_ok show ?case by simp
qed simp

section \<open>Isolation of the VMs\<close>

definition pool_ok :: "vplic_slot_t list \<Rightarrow> bool" where
  "pool_ok g \<longleftrightarrow> length g = MAX_VMS"

lemma claim_owner [simp]: "pl_owner (snd (vplic_claim_locked s v)) = pl_owner s"
  by (simp add: vplic_claim_locked_def Let_def)

lemma complete_owner [simp]: "pl_owner (vplic_complete_locked s v irq) = pl_owner s"
  by (simp add: vplic_complete_locked_def Let_def)

lemma read_owner [simp]: "pl_owner (snd (vplic_read s off sz)) = pl_owner s"
  by (cases rule: vplic_read_cases [of s off sz]) (simp, metis claim_owner snd_conv)

lemma write_owner [simp]: "pl_owner (vplic_write s off sz value) = pl_owner s"
  by (simp add: vplic_write_def Let_def)

text \<open>What a VM sees of the pool: its slot, if it has one.\<close>

definition view :: "vplic_slot_t list \<Rightarrow> vm_ref \<Rightarrow> vplic_slot_t option" where
  "view g vm = map_option (\<lambda>i. g ! i) (vplic_of g vm)"

lemma view_on_slot:
  assumes "vplic_of g vm = Some i" "vm_addr vm \<noteq> vm_addr vm'" "pl_owner st = vm_addr vm" "pool_ok g"
  shows "view (on_slot g i st) vm' = view g vm'"
proof -
  let ?d = "(g ! i)\<lparr>pl_st := st\<rparr>"
  have "vplic_of (g[i := ?d]) vm' = vplic_of g vm'"
    using assms by (intro vplic.of_vm_update_other(1) [OF assms(1,2)]) (simp_all add: pool_ok_def)
  moreover have "(g[i := ?d]) ! j = g ! j" if "vplic_of g vm' = Some j" for j
    using assms that by (intro vplic.of_vm_update_other(2) [OF assms(1,2)]) (simp_all add: pool_ok_def)
  ultimately show ?thesis by (cases "vplic_of g vm'") (simp_all add: view_def on_slot_def)
qed

lemma view_public:
  assumes "vm_addr vm \<noteq> vm_addr vm'" "pool_ok g"
  shows "view (vplic_set_pending g vm irq) vm' = view g vm'"
    "view (snd (vplic_claim g vm v)) vm' = view g vm'"
    "view (vplic_complete g vm v irq) vm' = view g vm'"
proof -
  have o: "pl_owner (pl_st (g ! i)) = vm_addr vm" if "vplic_of g vm = Some i" for i
    using vplic.of_vm_Some(3) [OF that] .
  show "view (vplic_set_pending g vm irq) vm' = view g vm'"
    using assms o by (auto simp: vplic_set_pending_def Let_def view_on_slot split: option.splits)
  show "view (snd (vplic_claim g vm v)) vm' = view g vm'"
  proof (cases "vplic_of g vm")
    case (Some i)
    obtain q s where c: "vplic_claim_locked (pl_st (g ! i)) v = (q, s)" by force
    then have "pl_owner s = vm_addr vm" using o [OF Some] claim_owner [of "pl_st (g ! i)" v] by simp
    with c Some assms show ?thesis by (simp add: vplic_claim_def view_on_slot)
  qed (simp add: vplic_claim_def)
  show "view (vplic_complete g vm v irq) vm' = view g vm'"
    using assms o by (auto simp: vplic_complete_def view_on_slot split: option.splits)
qed

lemma view_mmio:
  assumes "vm_addr vm \<noteq> vm_addr vm'" "pool_ok g" "vplic_of g vm = Some i"
  shows "view (snd (mmio_access (vplic_ops i) off wr sz val c g)) vm' = view g vm'"
proof -
  have o: "pl_owner (pl_st (g ! i)) = vm_addr vm" using vplic.of_vm_Some(3) [OF assms(3)] .
  obtain x s where r: "vplic_read (pl_st (g ! i)) off sz = (x, s)" by force
  then have "pl_owner s = vm_addr vm" using o read_owner [of "pl_st (g ! i)" off sz] by simp
  with assms o r show ?thesis
    by (simp add: mmio_access_def vplic_ops_def view_on_slot)
qed

section \<open>Properties\<close>

text \<open>
  C11: for a virtual CPU of the VM, \<open>vplic_next_deliverable_locked\<close> returns 0 exactly when no
  source is deliverable to it (pending, enabled, not being handled, priority above the
  threshold), and otherwise the deliverable source of highest priority, the lowest number
  among equals. The bit-trick loops always end.
\<close>

theorem vplic_selects_best:
  assumes "vplic_ok s" and "v < pl_nr_vcpus s"
  shows "case vplic_next_deliverable_locked s v of irq \<Rightarrow>
    if irq = 0 then \<forall>i. \<not> deliverable s (unat v) i
    else deliverable s (unat v) (unat irq) \<and>
      (\<forall>j. deliverable s (unat v) j \<and> j \<noteq> unat irq \<longrightarrow>
         pl_priority s ! j < pl_priority s ! unat irq \<or>
         pl_priority s ! j = pl_priority s ! unat irq \<and> unat irq < j)"
  using next_deliverable_cases [OF assms]
proof (elim disjE conjE exE)
  fix i
  assume i: "vplic_next_deliverable_locked s v = of_nat i" "deliverable s (unat v) i"
    and best: "\<forall>j. deliverable s (unat v) j \<longrightarrow>
      pl_priority s ! j \<le> pl_priority s ! i \<and> (pl_priority s ! j = pl_priority s ! i \<longrightarrow> i \<le> j)"
  have u: "unat (of_nat i :: u32) = i" "(of_nat i :: u32) \<noteq> 0"
    using i(2) by (auto simp: deliverable_def unat_of_nat word_unat_eq_iff)
  have "pl_priority s ! j < pl_priority s ! i \<or> pl_priority s ! j = pl_priority s ! i \<and> i < j"
    if "deliverable s (unat v) j" "j \<noteq> i" for j
    using best that by (auto simp: order.order_iff_strict)
  with i u show ?thesis by simp
qed simp

text \<open>Sources 3 and 5 pending, 5 with the higher priority, one virtual CPU.\<close>

definition plic35 :: vplic_state_t where
  "plic35 = vplic_zero\<lparr>pl_owner := 0x1000, pl_nr_vcpus := 2, pl_pending := 0x28,
     pl_enable := (replicate 12 0)[0 := 0x28, 1 := 0x28],
     pl_priority := (replicate 64 0)[3 := 1, 5 := 2]\<rparr>"

lemma plic35_ok: "vplic_ok plic35"
  by (simp add: plic35_def vplic_zero_def vplic_ok_def bit_simps)

lemma plic35_claim: "vplic_claim_locked plic35 0 = (5, plic_step (Claim 0) plic35)"
proof -
  have "fst (vplic_claim_locked plic35 0) = 5" by code_simp
  then show ?thesis by (simp add: prod_eq_iff)
qed

theorem vplic_selects_best_witness:
  "case vplic_next_deliverable_locked plic35 1 of irq \<Rightarrow>
    if irq = 0 then \<forall>i. \<not> deliverable plic35 (unat (1 :: u32)) i
    else deliverable plic35 (unat (1 :: u32)) (unat irq) \<and>
      (\<forall>j. deliverable plic35 (unat (1 :: u32)) j \<and> j \<noteq> unat irq \<longrightarrow>
         pl_priority plic35 ! j < pl_priority plic35 ! unat irq \<or>
         pl_priority plic35 ! j = pl_priority plic35 ! unat irq \<and> unat irq < j)"
  by (rule vplic_selects_best [OF plic35_ok]) (simp add: plic35_def)

text \<open>
  C10: once a virtual CPU has claimed a source, neither it nor any other one gets the same
  source again, by a claim or by reading a claim register, whatever claims, completions and
  register accesses follow, until the device raises the source again.
\<close>

theorem vplic_claim_exclusive:
  assumes "vplic_ok s" and "vplic_claim_locked s v = (irq, s1)" and "irq \<noteq> 0"
    and "Raise irq \<notin> set ops"
  shows "fst (vplic_claim_locked (fold plic_step ops s1) w) \<noteq> irq"
proof -
  note c = claim_deliverable [OF assms(1-3)]
  have "vplic_ok s1" using vplic_ok_claim [OF assms(1), of v] assms(2) by simp
  moreover have "unat irq' \<noteq> unat irq" if "Raise irq' \<in> set ops" for irq'
    using that assms(4) by (metis word_unat_eq_iff)
  ultimately have s2: "vplic_ok (fold plic_step ops s1)" "\<not> bit (pl_pending (fold plic_step ops s1)) (unat irq)"
    using plic_steps_pending [of s1 "unat irq" ops] c(3) by auto
  show ?thesis
  proof
    assume "fst (vplic_claim_locked (fold plic_step ops s1) w) = irq"
    then have "vplic_claim_locked (fold plic_step ops s1) w = (irq, snd (vplic_claim_locked (fold plic_step ops s1) w))"
      by (simp add: prod_eq_iff)
    from claim_deliverable(2) [OF s2(1) this assms(3)] s2(2) show False by (simp add: deliverable_def)
  qed
qed

theorem vplic_claim_exclusive_witness:
  "fst (vplic_claim_locked plic35 0) = 5 \<and>
   fst (vplic_claim_locked (fold plic_step [Complete 0 5, Raise 3, Read 0x201004 4] (plic_step (Claim 0) plic35)) 1) \<noteq> 5"
proof
  show "fst (vplic_claim_locked plic35 0) = 5" by (simp only: plic35_claim fst_conv)
  show "fst (vplic_claim_locked (fold plic_step [Complete 0 5, Raise 3, Read 0x201004 4] (plic_step (Claim 0) plic35)) 1) \<noteq> 5"
    by (rule vplic_claim_exclusive [OF plic35_ok plic35_claim]) simp_all
qed

text \<open>
  C12: what a VM does with its interrupt controller, by the public operations or through its
  register window, is invisible to every other VM; a VM pointer that no longer owns its
  slot reaches nothing.
\<close>

theorem vplic_vm_isolated:
  assumes "vm_addr vm \<noteq> vm_addr vm'" and "pool_ok g"
  shows "view (vplic_set_pending g vm irq) vm' = view g vm' \<and>
    view (snd (vplic_claim g vm v)) vm' = view g vm' \<and>
    view (vplic_complete g vm v irq) vm' = view g vm' \<and>
    (\<forall>i. vplic_of g vm = Some i \<longrightarrow>
       view (snd (mmio_access (vplic_ops i) off wr sz val c g)) vm' = view g vm') \<and>
    (vplic_of g vm = None \<longrightarrow>
       vplic_set_pending g vm irq = g \<and> vplic_claim g vm v = (0, g) \<and> vplic_complete g vm v irq = g)"
  using view_public [OF assms] view_mmio [OF assms]
  by (simp add: vplic_set_pending_def vplic_claim_def vplic_complete_def)

definition plic_pool :: "vplic_slot_t list" where
  "plic_pool = (replicate 32 \<lparr>pl_st = vplic_zero, pl_dev_ready = False\<rparr>)
     [0 := \<lparr>pl_st = plic35, pl_dev_ready = True\<rparr>,
      1 := \<lparr>pl_st = plic35\<lparr>pl_owner := 0x2000\<rparr>, pl_dev_ready = True\<rparr>]"

theorem vplic_vm_isolated_witness:
  "vplic_of plic_pool \<lparr>vm_addr = 0x1000, vm_slot = 0\<rparr> = Some 0 \<and>
   vplic_of plic_pool \<lparr>vm_addr = 0x2000, vm_slot = 1\<rparr> = Some 1 \<and>
   view (snd (vplic_claim plic_pool \<lparr>vm_addr = 0x1000, vm_slot = 0\<rparr> 0)) \<lparr>vm_addr = 0x2000, vm_slot = 1\<rparr> =
   view plic_pool \<lparr>vm_addr = 0x2000, vm_slot = 1\<rparr>"
  using vplic_vm_isolated [of "\<lparr>vm_addr = 0x1000, vm_slot = 0\<rparr>" "\<lparr>vm_addr = 0x2000, vm_slot = 1\<rparr>" plic_pool _ 0]
  by (simp add: pool_ok_def plic_pool_def vplic_of_def plic35_def)

end
