(* ===== verification/Vuart16550.thy ===== *)
theory Vuart16550
  imports Vdev Ring
begin

text \<open>
  The virtual 16550A console, \<^verbatim>\<open>kernel/vmm/vdev/console/vuart16550.c\<close> and
  \<^verbatim>\<open>include/vmm/vmm_uart16550.h\<close>. The four fields of each ring buffer are one \<open>ring\<close>; the state the
  device reaches outside its pool is in \<open>console_world\<close>. The slot lock makes every operation
  atomic.
\<close>

unbundle bit_operations_syntax

section \<open>State\<close>

record uart16550_state_t =
  u_owner :: u64
  u_ier :: u8
  u_lcr :: u8
  u_mcr :: u8
  u_scr :: u8
  u_fcr :: u8
  u_dll :: u8
  u_dlm :: u8
  u_rx :: ring
  u_rx_drops :: u32
  u_tx :: ring

record uart16550_slot_t =
  u_st :: uart16550_state_t
  u_dev_ready :: bool

type_synonym uart_world = "uart16550_slot_t console_world"

abbreviation UART_RX_FIFO_SIZE :: u32 where
  "UART_RX_FIFO_SIZE \<equiv> 4096"

abbreviation UART_TX_FIFO_SIZE :: u32 where
  "UART_TX_FIFO_SIZE \<equiv> 8192"

definition uart16550_zero :: uart16550_state_t where
  "uart16550_zero =
     \<lparr>u_owner = 0, u_ier = 0, u_lcr = 0, u_mcr = 0, u_scr = 0, u_fcr = 0, u_dll = 0, u_dlm = 0,
      u_rx = ring_zero UART_RX_FIFO_SIZE, u_rx_drops = 0, u_tx = ring_zero UART_TX_FIFO_SIZE\<rparr>"

definition uart16550_of :: "uart16550_slot_t list \<Rightarrow> vm_ref \<Rightarrow> nat option" where
  "uart16550_of g vm =
     (if vm_addr vm = 0 \<or> unat (vm_slot vm) \<ge> MAX_VMS then None
      else let d = g ! unat (vm_slot vm)
           in if u_owner (u_st d) \<noteq> vm_addr vm then None else Some (unat (vm_slot vm)))"

definition uart_slot :: "uart_world \<Rightarrow> nat \<Rightarrow> uart16550_state_t" where
  "uart_slot w i = u_st (cw_pool w ! i)"

definition uart_set :: "uart_world \<Rightarrow> nat \<Rightarrow> uart16550_state_t \<Rightarrow> uart_world" where
  "uart_set w i st = w\<lparr>cw_pool := (cw_pool w)[i := (cw_pool w ! i)\<lparr>u_st := st\<rparr>]\<rparr>"

section \<open>Host side\<close>

definition rx_irq_asserted_locked :: "uart16550_state_t \<Rightarrow> bool" where
  "rx_irq_asserted_locked s =
     (if r_count (u_rx s) > 0 \<and> u_ier s AND 1 \<noteq> 0 then True else u_ier s AND 2 \<noteq> 0)"

definition uart16550_push_rx :: "uart_world \<Rightarrow> vm_ref \<Rightarrow> u8 \<Rightarrow> uart_world" where
  "uart16550_push_rx w vm c =
     (case uart16550_of (cw_pool w) vm of
        None \<Rightarrow> w
      | Some i \<Rightarrow>
          let s = uart_slot w i
          in if r_count (u_rx s) \<ge> UART_RX_FIFO_SIZE
             then uart_set w i (s\<lparr>u_rx_drops := u_rx_drops s + 1\<rparr>)
             else uart_set w i (s\<lparr>u_rx := ring_push UART_RX_FIFO_SIZE (u_rx s) c\<rparr>))"

definition uart16550_irq_asserted :: "uart_world \<Rightarrow> vm_ref \<Rightarrow> bool" where
  "uart16550_irq_asserted w vm =
     (case uart16550_of (cw_pool w) vm of None \<Rightarrow> False | Some i \<Rightarrow> rx_irq_asserted_locked (uart_slot w i))"

definition uart16550_rx_flush :: "uart_world \<Rightarrow> vm_ref \<Rightarrow> uart_world" where
  "uart16550_rx_flush w vm =
     (case uart16550_of (cw_pool w) vm of
        None \<Rightarrow> w
      | Some i \<Rightarrow> let s = uart_slot w i in uart_set w i (s\<lparr>u_rx := ring_reset (u_rx s), u_rx_drops := 0\<rparr>))"

definition uart16550_tx_set_enabled :: "uart_world \<Rightarrow> vm_ref \<Rightarrow> bool \<Rightarrow> uart_world" where
  "uart16550_tx_set_enabled w vm enabled =
     (case uart16550_of (cw_pool w) vm of
        None \<Rightarrow> (if vm_addr vm \<noteq> 0 then w\<lparr>cw_owned := (cw_owned w)(vm_addr vm := enabled)\<rparr> else w)
      | Some i \<Rightarrow>
          let w = w\<lparr>cw_owned := (cw_owned w)(vm_addr vm := enabled)\<rparr>;
              s = uart_slot w i
          in if \<not> enabled then uart_set w i (s\<lparr>u_tx := ring_reset (u_tx s)\<rparr>) else w)"

definition uart16550_tx_channel_enabled :: "uart_world \<Rightarrow> vm_ref \<Rightarrow> bool" where
  "uart16550_tx_channel_enabled w vm =
     (case uart16550_of (cw_pool w) vm of
        None \<Rightarrow> (if vm_addr vm \<noteq> 0 then cw_owned w (vm_addr vm) else False)
      | Some i \<Rightarrow> cw_owned w (vm_addr vm))"

text \<open>\<open>None\<close>: nothing was popped, \<^verbatim>\<open>*c\<close> is not written.\<close>

definition uart16550_tx_pop :: "uart_world \<Rightarrow> vm_ref \<Rightarrow> u8 option \<times> uart_world" where
  "uart16550_tx_pop w vm =
     (case uart16550_of (cw_pool w) vm of
        None \<Rightarrow> (None, w)
      | Some i \<Rightarrow>
          let s = uart_slot w i
          in if r_count (u_tx s) > 0
             then let (c, r) = ring_pop UART_TX_FIFO_SIZE (u_tx s) in (Some c, uart_set w i (s\<lparr>u_tx := r\<rparr>))
             else (None, w))"

definition uart16550_tx_has_data :: "uart_world \<Rightarrow> vm_ref \<Rightarrow> bool" where
  "uart16550_tx_has_data w vm =
     (case uart16550_of (cw_pool w) vm of None \<Rightarrow> False | Some i \<Rightarrow> r_count (u_tx (uart_slot w i)) > 0)"

text \<open>One byte written by the guest to THR: to the kernel log, or into the TX ring.\<close>

definition uart_put_char :: "uart_world \<Rightarrow> nat \<Rightarrow> u8 \<Rightarrow> uart_world" where
  "uart_put_char w i c =
     (let s = uart_slot w i
      in if \<not> cw_owned w (u_owner s) then w\<lparr>cw_klog := cw_klog w @ [c]\<rparr>
         else let r = (if r_count (u_tx s) \<ge> UART_TX_FIFO_SIZE
                       then snd (ring_pop UART_TX_FIFO_SIZE (u_tx s)) else u_tx s)
              in uart_set w i (s\<lparr>u_tx := ring_push UART_TX_FIFO_SIZE r c\<rparr>))"

definition uart16550_putchar :: "uart_world \<Rightarrow> vm_ref \<Rightarrow> u8 \<Rightarrow> uart_world" where
  "uart16550_putchar w vm c =
     (case uart16550_of (cw_pool w) vm of None \<Rightarrow> w | Some i \<Rightarrow> uart_put_char w i c)"

section \<open>Registers\<close>

definition uart16550_read :: "uart_world \<Rightarrow> nat \<Rightarrow> u64 \<Rightarrow> u8 \<Rightarrow> u64 \<times> uart_world" where
  "uart16550_read w i off sz =
     (if sz \<noteq> 1 \<and> sz \<noteq> 4 then (0, w)
      else let s = uart_slot w i;
               dlab = (u_lcr s AND 0x80 \<noteq> 0)
           in if off = 0 then
                (if dlab then (ucast (u_dll s), w)
                 else if r_count (u_rx s) > 0
                 then let (c, r) = ring_pop UART_RX_FIFO_SIZE (u_rx s) in (ucast c, uart_set w i (s\<lparr>u_rx := r\<rparr>))
                 else (0, w))
              else if off = 1 then (ucast (if dlab then u_dlm s else u_ier s), w)
              else if off = 2 then
                (let ret = (if r_count (u_rx s) > 0 \<and> u_ier s AND 1 \<noteq> 0 then 4
                            else if u_ier s AND 2 \<noteq> 0 then 2 else 1)
                 in (if u_fcr s AND 1 \<noteq> 0 then ret OR 0xC0 else ret, w))
              else if off = 3 then (ucast (u_lcr s), w)
              else if off = 4 then (ucast (u_mcr s), w)
              else if off = 5 then (if r_count (u_rx s) > 0 then (0x20 OR 0x40) OR 1 else 0x20 OR 0x40, w)
              else if off = 6 then (0, w)
              else if off = 7 then (ucast (u_scr s), w)
              else (0, w))"

definition uart16550_write :: "uart_world \<Rightarrow> nat \<Rightarrow> u64 \<Rightarrow> u8 \<Rightarrow> u64 \<Rightarrow> uart_world" where
  "uart16550_write w i off sz val =
     (if sz \<noteq> 1 \<and> sz \<noteq> 4 then w
      else let s = uart_slot w i;
               v = ucast val :: u8;
               dlab = (u_lcr s AND 0x80 \<noteq> 0)
           in if off = 0 then (if dlab then uart_set w i (s\<lparr>u_dll := v\<rparr>) else uart_put_char w i v)
              else if off = 1 then (if dlab then uart_set w i (s\<lparr>u_dlm := v\<rparr>) else uart_set w i (s\<lparr>u_ier := v\<rparr>))
              else if off = 2 then uart_set w i (s\<lparr>u_fcr := v\<rparr>)
              else if off = 3 then uart_set w i (s\<lparr>u_lcr := v\<rparr>)
              else if off = 4 then uart_set w i (s\<lparr>u_mcr := v\<rparr>)
              else if off = 7 then uart_set w i (s\<lparr>u_scr := v\<rparr>)
              else w)"

definition uart16550_ops :: "nat \<Rightarrow> uart_world mmio_dev_ops_t" where
  "uart16550_ops i =
     \<lparr>op_name = ''uart16550'', op_base = 0x10000000, op_size = 0x100,
      op_read = Some (\<lambda>w. uart16550_read w i), op_write = Some (\<lambda>w. uart16550_write w i),
      op_read_for_vcpu = None, op_write_for_vcpu = None\<rparr>"

definition uart16550_port_read :: "uart_world \<Rightarrow> nat \<Rightarrow> u64 \<Rightarrow> u64 \<times> uart_world" where
  "uart16550_port_read w i off = uart16550_read w i off 1"

definition uart16550_port_write :: "uart_world \<Rightarrow> nat \<Rightarrow> u64 \<Rightarrow> u8 \<Rightarrow> uart_world" where
  "uart16550_port_write w i off val = uart16550_write w i off 1 (ucast val)"

text \<open>\<open>place\<close> is the place of the console in the state of the machine that the bus acts on.\<close>

definition uart16550_init ::
  "(uart_world mmio_dev_ops_t \<Rightarrow> 's mmio_dev_ops_t) \<Rightarrow> uart_world \<Rightarrow> vm_ref \<Rightarrow> 's mmio_bus_t option \<Rightarrow>
   int \<times> uart_world \<times> 's mmio_bus_t option" where
  "uart16550_init place w vm bus =
     (case bus of
        None \<Rightarrow> (- 1, w, bus)
      | Some b \<Rightarrow>
          if vm_addr vm = 0 \<or> unat (vm_slot vm) \<ge> MAX_VMS then (- 1, w, bus)
          else let i = unat (vm_slot vm);
                   w = w\<lparr>cw_pool := (cw_pool w)[i := \<lparr>u_st = uart16550_zero\<lparr>u_owner := vm_addr vm\<rparr>, u_dev_ready = True\<rparr>]\<rparr>;
                   (r, b) = mmio_bus_register b (Some (place (uart16550_ops i)))
               in (r, w, Some b))"

text \<open>The device object, as the number of the slot that holds it.\<close>

definition uart16550_dev :: "uart_world \<Rightarrow> vm_ref \<Rightarrow> nat option" where
  "uart16550_dev w vm = uart16550_of (cw_pool w) vm"

definition uart16550_destroy :: "uart_world \<Rightarrow> vm_ref \<Rightarrow> uart_world" where
  "uart16550_destroy w vm =
     (if vm_addr vm = 0 \<or> unat (vm_slot vm) \<ge> MAX_VMS then w
      else w\<lparr>cw_pool := (cw_pool w)[unat (vm_slot vm) := \<lparr>u_st = uart16550_zero, u_dev_ready = False\<rparr>]\<rparr>)"

interpretation uart: vdev_pool "\<lambda>d. u_owner (u_st d)" uart16550_of
  by unfold_locales (simp add: uart16550_of_def Let_def)

section \<open>Invariant\<close>

definition uart_ok :: "uart16550_state_t \<Rightarrow> bool" where
  "uart_ok s \<longleftrightarrow> ring_ok UART_RX_FIFO_SIZE (u_rx s) \<and> ring_ok UART_TX_FIFO_SIZE (u_tx s)"

definition uart_world_ok :: "uart_world \<Rightarrow> bool" where
  "uart_world_ok w \<longleftrightarrow> length (cw_pool w) = MAX_VMS \<and> (\<forall>i < MAX_VMS. uart_ok (uart_slot w i))"

text \<open>The bytes waiting in the two directions.\<close>

definition u_rx_list :: "uart_world \<Rightarrow> nat \<Rightarrow> u8 list" where
  "u_rx_list w i = ring_list (u_rx (uart_slot w i))"

definition u_tx_list :: "uart_world \<Rightarrow> nat \<Rightarrow> u8 list" where
  "u_tx_list w i = ring_list (u_tx (uart_slot w i))"

lemmas u_lists = u_rx_list_def u_tx_list_def

lemma uart_slot_set [simp]:
  "i < MAX_VMS \<Longrightarrow> length (cw_pool w) = MAX_VMS \<Longrightarrow> uart_slot (uart_set w i st) j = (if j = i then st else uart_slot w j)"
  by (auto simp: uart_slot_def uart_set_def nth_list_update)

lemma uart_set_frame [simp]:
  "cw_owned (uart_set w i st) = cw_owned w" "cw_klog (uart_set w i st) = cw_klog w"
  "length (cw_pool (uart_set w i st)) = length (cw_pool w)"
  by (simp_all add: uart_set_def)

lemma uart_world_set:
  "uart_world_ok w \<Longrightarrow> i < MAX_VMS \<Longrightarrow> uart_ok st \<Longrightarrow> uart_world_ok (uart_set w i st)"
  by (simp add: uart_world_ok_def)

lemma uart_okD:
  assumes "uart_world_ok w" "i < MAX_VMS"
  shows "length (cw_pool w) = MAX_VMS" "ring_ok 4096 (u_rx (uart_slot w i))" "ring_ok 8192 (u_tx (uart_slot w i))"
  using assms by (simp_all add: uart_world_ok_def uart_ok_def)

lemma uart_of_set:
  assumes "uart16550_of (cw_pool w) vm = Some i" "u_owner st = u_owner (uart_slot w i)" "length (cw_pool w) = MAX_VMS"
  shows "uart16550_of (cw_pool (uart_set w i st)) vm = Some i"
  using uart.of_vm_update_own [of "cw_pool w" vm i "(cw_pool w ! i)\<lparr>u_st := st\<rparr>"] assms uart.of_vm_Some [OF assms(1)]
  by (simp add: uart_set_def uart_slot_def)

section \<open>Input\<close>

lemma push_rx_step:
  fixes w :: uart_world and vm :: vm_ref and c :: u8
  assumes ok: "uart_world_ok w" and v: "uart16550_of (cw_pool w) vm = Some i"
  defines "w' \<equiv> uart16550_push_rx w vm c"
  shows "uart_world_ok w'" "uart16550_of (cw_pool w') vm = Some i"
    "u_rx_list w' i = (if length (u_rx_list w i) < 4096 then u_rx_list w i @ [c] else u_rx_list w i)"
    "u_tx_list w' i = u_tx_list w i" "u_lcr (uart_slot w' i) = u_lcr (uart_slot w i)"
    "cw_owned w' = cw_owned w" "cw_klog w' = cw_klog w" "j \<noteq> i \<Longrightarrow> uart_slot w' j = uart_slot w j"
    "u_rx_drops (uart_slot w' i) = u_rx_drops (uart_slot w i) + (if length (u_rx_list w i) < 4096 then 0 else 1)"
proof -
  have i: "i < MAX_VMS" by (rule uart.of_vm_Some(1) [OF v])
  note D = uart_okD [OF ok i]
  have l: "(4096 \<le> r_count (u_rx (uart_slot w i))) = (\<not> length (u_rx_list w i) < 4096)"
    by (simp add: u_rx_list_def word_le_nat_alt not_less)
  show "uart_world_ok w'"
    using uart_world_set [OF ok i] D l ring4096.push_inv [OF D(2)]
    by (auto simp: w'_def uart16550_push_rx_def v Let_def uart_ok_def u_rx_list_def)
  show "uart16550_of (cw_pool w') vm = Some i"
    using uart_of_set [OF v _ D(1)] v by (auto simp: w'_def uart16550_push_rx_def Let_def)
  show "u_rx_list w' i = (if length (u_rx_list w i) < 4096 then u_rx_list w i @ [c] else u_rx_list w i)"
    using D(1) i l ring4096.push_contents [OF D(2)]
    by (auto simp: w'_def uart16550_push_rx_def v Let_def u_rx_list_def)
qed (use uart_okD(1) [OF ok uart.of_vm_Some(1) [OF v]] uart.of_vm_Some(1) [OF v]
     in \<open>auto simp: w'_def uart16550_push_rx_def v Let_def u_lists word_le_nat_alt\<close>)

lemma read_rbr_step:
  assumes ok: "uart_world_ok w" and i: "i < MAX_VMS" and dlab: "u_lcr (uart_slot w i) AND 0x80 = 0"
  shows "u_rx_list w i = [] \<Longrightarrow> uart16550_read w i 0 1 = (0, w)"
    "u_rx_list w i = c # cs \<Longrightarrow> \<exists>w'. uart16550_read w i 0 1 = (ucast c, w') \<and> uart_world_ok w' \<and>
       u_rx_list w' i = cs \<and> u_lcr (uart_slot w' i) = u_lcr (uart_slot w i)"
proof -
  note D = uart_okD [OF ok i]
  show "uart16550_read w i 0 1 = (0, w)" if "u_rx_list w i = []"
    using that dlab by (simp add: uart16550_read_def Let_def count_pos u_rx_list_def)
  assume ne: "u_rx_list w i = c # cs"
  let ?s = "uart_slot w i" and ?p = "ring_pop 4096 (u_rx (uart_slot w i))"
  have nn: "ring_list (u_rx ?s) \<noteq> []" using ne by (simp add: u_rx_list_def)
  have p: "fst ?p = c" "ring_list (snd ?p) = cs" "ring_ok 4096 (snd ?p)"
    using ring4096.pop_contents [OF D(2) nn] ring4096.pop_inv [OF D(2) nn] ne by (simp_all add: u_rx_list_def)
  have "uart16550_read w i 0 1 = (ucast c, uart_set w i (?s\<lparr>u_rx := snd ?p\<rparr>))"
    using dlab nn p(1) by (simp add: uart16550_read_def Let_def count_pos prod.case_eq_if)
  moreover have "uart_world_ok (uart_set w i (?s\<lparr>u_rx := snd ?p\<rparr>))"
    using uart_world_set [OF ok i] D(3) p(3) by (simp add: uart_ok_def)
  ultimately show "\<exists>w'. uart16550_read w i 0 1 = (ucast c, w') \<and> uart_world_ok w' \<and>
       u_rx_list w' i = cs \<and> u_lcr (uart_slot w' i) = u_lcr (uart_slot w i)"
    using D(1) i p(2) by (auto simp: u_rx_list_def)
qed

text \<open>The host feeds bytes, the guest reads the data register a number of times.\<close>

definition uart_feed :: "uart_world \<Rightarrow> vm_ref \<Rightarrow> u8 list \<Rightarrow> uart_world" where
  "uart_feed w vm cs = foldl (\<lambda>w. uart16550_push_rx w vm) w cs"

primrec uart_read_n :: "nat \<Rightarrow> uart_world \<Rightarrow> nat \<Rightarrow> u64 list \<times> uart_world" where
  "uart_read_n 0 w i = ([], w)"
| "uart_read_n (Suc n) w i =
     (let (c, w) = uart16550_read w i 0 1; (cs, w) = uart_read_n n w i in (c # cs, w))"

lemma uart_feed_list:
  "uart_world_ok w \<Longrightarrow> uart16550_of (cw_pool w) vm = Some i \<Longrightarrow> length (u_rx_list w i) + length cs \<le> 4096 \<Longrightarrow>
   uart_world_ok (uart_feed w vm cs) \<and> u_rx_list (uart_feed w vm cs) i = u_rx_list w i @ cs \<and>
   u_lcr (uart_slot (uart_feed w vm cs) i) = u_lcr (uart_slot w i)"
proof (induction cs arbitrary: w)
  case (Cons c cs)
  note s = push_rx_step [OF Cons.prems(1,2), where c = c]
  have "length (u_rx_list (uart16550_push_rx w vm c) i) + length cs \<le> 4096" using s(3) Cons.prems(3) by simp
  from Cons.IH [OF s(1,2) this] s(3,5) Cons.prems(3) show ?case by (simp add: uart_feed_def)
qed (simp add: uart_feed_def)

lemma uart_read_n_list:
  "uart_world_ok w \<Longrightarrow> i < MAX_VMS \<Longrightarrow> u_lcr (uart_slot w i) AND 0x80 = 0 \<Longrightarrow>
   fst (uart_read_n (length (u_rx_list w i)) w i) = map ucast (u_rx_list w i) \<and>
   u_rx_list (snd (uart_read_n (length (u_rx_list w i)) w i)) i = []"
proof (induction "u_rx_list w i" arbitrary: w)
  case Nil
  then show ?case by (metis fst_conv length_0_conv map_is_Nil_conv snd_conv uart_read_n.simps(1))
next
  case (Cons c cs)
  from read_rbr_step(2) [OF Cons.prems Cons.hyps(2) [symmetric]] obtain w'
    where w': "uart16550_read w i 0 1 = (ucast c, w')" "uart_world_ok w'" "u_rx_list w' i = cs"
      "u_lcr (uart_slot w' i) = u_lcr (uart_slot w i)" by blast
  from Cons.hyps(1) [of w'] w' Cons.prems Cons.hyps(2) [symmetric] show ?case
    by (auto simp: prod.case_eq_if)
qed

section \<open>Output\<close>

text \<open>The last \<open>n\<close> elements of a list.\<close>

definition last_n :: "nat \<Rightarrow> 'a list \<Rightarrow> 'a list" where
  "last_n n xs = drop (length xs - n) xs"

lemma last_n_append: "last_n n (last_n n xs @ ys) = last_n n (xs @ ys)"
proof (cases "length xs \<le> n")
  case False
  then have "length xs + length ys - n = (length xs - n) + (length (drop (length xs - n) xs) + length ys - n)" by simp
  then show ?thesis using False by (simp add: last_n_def add.commute)
qed (simp add: last_n_def)

lemma put_char_step:
  fixes w :: uart_world and c :: u8
  assumes ok: "uart_world_ok w" and i: "i < MAX_VMS" and own: "cw_owned w (u_owner (uart_slot w i))"
  defines "w' \<equiv> uart_put_char w i c"
  shows "uart_world_ok w'" "u_tx_list w' i = last_n 8192 (u_tx_list w i @ [c])"
    "u_rx_list w' i = u_rx_list w i" "cw_owned w' = cw_owned w" "cw_klog w' = cw_klog w"
    "u_owner (uart_slot w' i) = u_owner (uart_slot w i)" "u_lcr (uart_slot w' i) = u_lcr (uart_slot w i)"
proof -
  let ?s = "uart_slot w i"
  let ?r = "if r_count (u_tx ?s) \<ge> 8192 then snd (ring_pop 8192 (u_tx ?s)) else u_tx ?s"
  note D = uart_okD [OF ok i]
  have w': "w' = uart_set w i (?s\<lparr>u_tx := ring_push 8192 ?r c\<rparr>)"
    using own by (simp add: w'_def uart_put_char_def Let_def)
  have full: "(8192 \<le> r_count (u_tx ?s)) = (8192 \<le> length (ring_list (u_tx ?s)))" by (simp add: word_le_nat_alt)
  note pd = ring8192.push_drop_oldest [OF D(3), of c]
  have r: "ring_ok 8192 (ring_push 8192 ?r c)"
    "ring_list (ring_push 8192 ?r c) = (if 8192 \<le> length (ring_list (u_tx ?s))
       then tl (ring_list (u_tx ?s)) @ [c] else ring_list (u_tx ?s) @ [c])"
    using pd by (simp_all only: full)
  show "uart_world_ok w'" using uart_world_set [OF ok i] D(2) r(1) by (simp add: w' uart_ok_def)
  have "length (ring_list (u_tx ?s)) \<le> 8192" by (rule ring8192.bounded [OF D(3)])
  then have "ring_list (ring_push 8192 ?r c) = last_n 8192 (ring_list (u_tx ?s) @ [c])"
    unfolding r(2) by (auto simp: last_n_def tl_drop drop_Suc)
  then show "u_tx_list w' i = last_n 8192 (u_tx_list w i @ [c])" using D(1) i by (simp add: w' u_tx_list_def)
qed (use uart_okD(1) [OF ok i] i own in \<open>simp_all add: w'_def uart_put_char_def Let_def u_lists\<close>)

definition uart_print :: "uart_world \<Rightarrow> nat \<Rightarrow> u8 list \<Rightarrow> uart_world" where
  "uart_print w i cs = foldl (\<lambda>w c. uart16550_write w i 0 1 (ucast c)) w cs"

lemma write_thr:
  "u_lcr (uart_slot w i) AND 0x80 = 0 \<Longrightarrow> uart16550_write w i 0 1 (ucast (c :: u8)) = uart_put_char w i c"
  by (simp add: uart16550_write_def Let_def)

lemma uart_print_list:
  assumes "uart_world_ok w" "i < MAX_VMS" "cw_owned w (u_owner (uart_slot w i))" "u_lcr (uart_slot w i) AND 0x80 = 0"
  shows "uart_world_ok (uart_print w i cs) \<and> u_tx_list (uart_print w i cs) i = last_n 8192 (u_tx_list w i @ cs)"
  using assms
proof (induction cs arbitrary: w rule: list.induct)
  case Nil
  then show ?case using ring8192.bounded [OF uart_okD(3) [OF Nil(1,2)]]
    by (simp add: uart_print_def last_n_def u_tx_list_def)
next
  case (Cons c cs)
  let ?w = "uart_put_char w i c"
  note s = put_char_step [OF Cons.prems(1-3), where c = c]
  have "uart_print w i (c # cs) = uart_print ?w i cs"
    using write_thr [OF Cons.prems(4), of c] by (simp add: uart_print_def)
  moreover have "uart_world_ok (uart_print ?w i cs) \<and> u_tx_list (uart_print ?w i cs) i = last_n 8192 (u_tx_list ?w i @ cs)"
    using s Cons.prems by (intro Cons.IH) simp_all
  ultimately show ?case using s(2) last_n_append [of 8192 "u_tx_list w i @ [c]" cs] by simp
qed

section \<open>Isolation\<close>

definition uart_view :: "uart_world \<Rightarrow> vm_ref \<Rightarrow> uart16550_slot_t option" where
  "uart_view w vm = map_option (\<lambda>i. cw_pool w ! i) (uart16550_of (cw_pool w) vm)"

lemma uart_view_set:
  assumes "uart16550_of (cw_pool w) vm = Some i" "vm_addr vm \<noteq> vm_addr vm'"
    "u_owner st = vm_addr vm" "length (cw_pool w) = MAX_VMS"
  shows "uart_view (uart_set w i st) vm' = uart_view w vm'"
proof -
  let ?d = "(cw_pool w ! i)\<lparr>u_st := st\<rparr>"
  have "uart16550_of ((cw_pool w)[i := ?d]) vm' = uart16550_of (cw_pool w) vm'"
    using assms(3,4) by (intro uart.of_vm_update_other(1) [OF assms(1,2)]) simp_all
  moreover have "(cw_pool w)[i := ?d] ! j = cw_pool w ! j" if "uart16550_of (cw_pool w) vm' = Some j" for j
    using assms(3,4) that by (intro uart.of_vm_update_other(2) [OF assms(1,2)]) simp_all
  ultimately show ?thesis by (cases "uart16550_of (cw_pool w) vm'") (simp_all add: uart_view_def uart_set_def)
qed

lemma uart_view_frame [simp]:
  "uart_view (w\<lparr>cw_owned := f\<rparr>) vm = uart_view w vm" "uart_view (w\<lparr>cw_klog := l\<rparr>) vm = uart_view w vm"
  by (simp_all add: uart_view_def)

lemma uart_slot_frame [simp]:
  "uart_slot (w\<lparr>cw_owned := f\<rparr>) i = uart_slot w i" "uart_slot (w\<lparr>cw_klog := l\<rparr>) i = uart_slot w i"
  by (simp_all add: uart_slot_def)

text \<open>Every operation of a VM leaves what the others see of the pool as it was.\<close>

lemma uart_views:
  assumes v: "uart16550_of (cw_pool w) vm = Some i" and ne: "vm_addr vm \<noteq> vm_addr vm'" and l: "length (cw_pool w) = MAX_VMS"
  shows "uart_view (uart16550_push_rx w vm c) vm' = uart_view w vm'"
    "uart_view (uart16550_rx_flush w vm) vm' = uart_view w vm'"
    "uart_view (uart16550_tx_set_enabled w vm b) vm' = uart_view w vm'"
    "uart_view (snd (uart16550_tx_pop w vm)) vm' = uart_view w vm'"
    "uart_view (uart_put_char w i c) vm' = uart_view w vm'"
    "uart_view (snd (uart16550_read w i off sz)) vm' = uart_view w vm'"
    "uart_view (uart16550_write w i off sz val) vm' = uart_view w vm'"
proof -
  have own: "u_owner (uart_slot w i) = vm_addr vm" using uart.of_vm_Some(3) [OF v] by (simp add: uart_slot_def)
  have set: "uart_view (uart_set w i st) vm' = uart_view w vm'" if "u_owner st = vm_addr vm" for st
    by (rule uart_view_set [OF v ne that l])
  have setf: "uart_view (uart_set (w\<lparr>cw_owned := f\<rparr>) i st) vm' = uart_view w vm'" if "u_owner st = vm_addr vm" for st f
    using uart_view_set [of "w\<lparr>cw_owned := f\<rparr>" vm i vm' st] v ne that l by simp
  show "uart_view (uart16550_push_rx w vm c) vm' = uart_view w vm'"
    "uart_view (uart16550_rx_flush w vm) vm' = uart_view w vm'"
    "uart_view (snd (uart16550_tx_pop w vm)) vm' = uart_view w vm'"
    "uart_view (snd (uart16550_read w i off sz)) vm' = uart_view w vm'"
    using own set by (simp_all add: uart16550_push_rx_def uart16550_rx_flush_def uart16550_tx_pop_def
        uart16550_read_def v Let_def prod.case_eq_if)
  show "uart_view (uart16550_tx_set_enabled w vm b) vm' = uart_view w vm'"
    using own setf v by (simp add: uart16550_tx_set_enabled_def Let_def)
  show put: "uart_view (uart_put_char w i c) vm' = uart_view w vm'" for c
    using own set by (simp add: uart_put_char_def Let_def)
  show "uart_view (uart16550_write w i off sz val) vm' = uart_view w vm'"
    using own set put by (simp add: uart16550_write_def Let_def)
qed

section \<open>Properties\<close>

text \<open>One VM with a console in channel mode, for the witnesses.\<close>

definition uart_vm :: vm_ref where
  "uart_vm = \<lparr>vm_addr = 0x1000, vm_slot = 0\<rparr>"

definition uart_w0 :: uart_world where
  "uart_w0 =
     \<lparr>cw_pool = \<lparr>u_st = uart16550_zero\<lparr>u_owner := 0x1000\<rparr>, u_dev_ready = True\<rparr> #
        replicate 31 \<lparr>u_st = uart16550_zero, u_dev_ready = False\<rparr>,
      cw_owned = (\<lambda>_. True), cw_klog = []\<rparr>"

lemma uart_zero_ok: "uart_ok uart16550_zero" "uart_ok (uart16550_zero\<lparr>u_owner := a\<rparr>)"
  by (simp_all add: uart_ok_def uart16550_zero_def ring_zero_ok)

lemma uart_w0_ok: "uart_world_ok uart_w0" "uart16550_of (cw_pool uart_w0) uart_vm = Some 0"
  "u_lcr (uart_slot uart_w0 0) AND 0x80 = 0" "u_rx_list uart_w0 0 = []" "u_tx_list uart_w0 0 = []"
proof -
  have "uart_ok (uart_slot uart_w0 i)" if "i < 32" for i
    using that uart_zero_ok by (cases i) (simp_all add: uart_slot_def uart_w0_def)
  then show "uart_world_ok uart_w0" by (simp add: uart_world_ok_def uart_w0_def)
  show "uart16550_of (cw_pool uart_w0) uart_vm = Some 0"
    by (simp add: uart16550_of_def uart_w0_def uart_vm_def)
  show "u_lcr (uart_slot uart_w0 0) AND 0x80 = 0" "u_rx_list uart_w0 0 = []" "u_tx_list uart_w0 0 = []"
    by (simp_all add: uart_slot_def uart_w0_def uart16550_zero_def u_lists)
qed









end
