(* ===== verification/Riscv_Vm.thy ===== *)
theory Riscv_Vm
  imports Vplic Vuart16550
begin

text \<open>
  The devices of a RISC-V guest put together, after \<^verbatim>\<open>vmm_arch_vm_init\<close>,
  \<^verbatim>\<open>vmm_arch_vm_destroy\<close> and the entry hook \<^verbatim>\<open>vcpu_external_irq_on_entry\<close> of
  \<^verbatim>\<open>kernel/vmm/riscv64/hext_run.c\<close>: one MMIO bus with the virtual 16550A at \<open>0x10000000\<close> and
  the virtual PLIC at \<open>0x0c000000\<close>. The state of the machine is the console world and the pool
  of interrupt controllers.
\<close>

type_synonym rv_machine = "uart_world \<times> vplic_slot_t list"

text \<open>The operation table of a device that lives in one half of the machine.\<close>

definition on_fst :: "'a mmio_dev_ops_t \<Rightarrow> ('a \<times> 'b) mmio_dev_ops_t" where
  "on_fst ops =
     \<lparr>op_name = op_name ops, op_base = op_base ops, op_size = op_size ops,
      op_read = map_option (\<lambda>r (a, b) off sz. let (v, a) = r a off sz in (v, a, b)) (op_read ops),
      op_write = map_option (\<lambda>w (a, b) off sz v. (w a off sz v, b)) (op_write ops),
      op_read_for_vcpu = map_option (\<lambda>r (a, b) off sz c. let (v, a) = r a off sz c in (v, a, b)) (op_read_for_vcpu ops),
      op_write_for_vcpu = map_option (\<lambda>w (a, b) off sz v c. (w a off sz v c, b)) (op_write_for_vcpu ops)\<rparr>"

definition on_snd :: "'b mmio_dev_ops_t \<Rightarrow> ('a \<times> 'b) mmio_dev_ops_t" where
  "on_snd ops =
     \<lparr>op_name = op_name ops, op_base = op_base ops, op_size = op_size ops,
      op_read = map_option (\<lambda>r (a, b) off sz. let (v, b) = r b off sz in (v, a, b)) (op_read ops),
      op_write = map_option (\<lambda>w (a, b) off sz v. (a, w b off sz v)) (op_write ops),
      op_read_for_vcpu = map_option (\<lambda>r (a, b) off sz c. let (v, b) = r b off sz c in (v, a, b)) (op_read_for_vcpu ops),
      op_write_for_vcpu = map_option (\<lambda>w (a, b) off sz v c. (a, w b off sz v c)) (op_write_for_vcpu ops)\<rparr>"

text \<open>The device part of \<^verbatim>\<open>vmm_arch_vm_init\<close> for a VM with its own RAM: \<open>- 1\<close> on failure.\<close>

definition rv_devices_init :: "rv_machine \<Rightarrow> vm_ref \<Rightarrow> u32 \<Rightarrow> int \<times> rv_machine \<times> rv_machine mmio_bus_t" where
  "rv_devices_init m vm nr =
     (let (u, g) = m;
          bus = mmio_bus_init;
          (r, u, bus1) = uart16550_init on_fst u vm (Some bus)
      in if r \<noteq> 0 then (- 1, (u, g), the bus1)
         else let (r, g, bus2) = vplic_init on_snd g vm bus1 nr
              in if r \<noteq> 0 then (- 1, (u, g), the bus2) else (0, (u, g), the bus2))"

definition rv_devices_destroy :: "rv_machine \<Rightarrow> vm_ref \<Rightarrow> rv_machine" where
  "rv_devices_destroy m vm = (uart16550_destroy (fst m) vm, vplic_destroy (snd m) vm)"

abbreviation VIRQ_CONSOLE :: u32 where
  "VIRQ_CONSOLE \<equiv> 10"

definition vmm_arch_irq_raise :: "rv_machine \<Rightarrow> vm_ref \<Rightarrow> u32 \<Rightarrow> rv_machine" where
  "vmm_arch_irq_raise m vm line = (if vm_addr vm = 0 then m else (fst m, vplic_set_pending (snd m) vm line))"

text \<open>The result is what \<^verbatim>\<open>hext_set_vs_external_irq\<close> is called with.\<close>

definition vcpu_external_irq_on_entry :: "rv_machine \<Rightarrow> vm_ref \<Rightarrow> u32 \<Rightarrow> bool \<times> rv_machine" where
  "vcpu_external_irq_on_entry m vm vcpu_id =
     (let m = (if uart16550_irq_asserted (fst m) vm then vmm_arch_irq_raise m vm VIRQ_CONSOLE else m);
          irq = vplic_next_deliverable (snd m) vm vcpu_id
      in (irq \<noteq> 0, m))"

section \<open>The bus of a guest\<close>

lemma mmio_access_on_fst:
  "mmio_access (on_fst ops) off wr sz v c (a, b) = (let (x, a) = mmio_access ops off wr sz v c a in (x, a, b))"
  by (simp add: mmio_access_def on_fst_def Let_def split: option.splits prod.splits)

lemma mmio_access_on_snd:
  "mmio_access (on_snd ops) off wr sz v c (a, b) = (let (x, b) = mmio_access ops off wr sz v c b in (x, a, b))"
  by (simp add: mmio_access_def on_snd_def Let_def split: option.splits prod.splits)

lemma window_on [simp]: "window (on_fst ops) = window ops" "window (on_snd ops) = window ops"
  by (simp_all add: window_def on_fst_def on_snd_def)

lemma op_base_on [simp]: "op_base (on_fst ops) = op_base ops" "op_base (on_snd ops) = op_base ops"
  by (simp_all add: on_fst_def on_snd_def)

lemma op_size_on [simp]: "op_size (on_fst ops) = op_size ops" "op_size (on_snd ops) = op_size ops"
  by (simp_all add: on_fst_def on_snd_def)

lemma rv_windows:
  "window (uart16550_ops i) = {0x10000000..<0x10000100}" "window (vplic_ops i) = {0x0c000000..<0x0c400000}"
  by (simp_all add: window_def uart16550_ops_def vplic_ops_def)

lemma rv_op_bounds:
  "op_base (uart16550_ops i) = 0x10000000" "op_size (uart16550_ops i) = 0x100"
  "op_base (vplic_ops i) = 0x0c000000" "op_size (vplic_ops i) = 0x400000"
  by (simp_all add: uart16550_ops_def vplic_ops_def)

definition rv_devs :: "nat \<Rightarrow> rv_machine mmio_device_t list" where
  "rv_devs i = [Some (on_fst (uart16550_ops i)), Some (on_snd (vplic_ops i))]"

lemma rv_bus_ok: "bus_ok (rv_devs i)"
  by (auto simp: bus_ok_def rv_devs_def rv_windows rv_op_bounds less_Suc_eq nth_Cons')

lemma rv_devices_init_ok:
  assumes "rv_devices_init m vm nr = (0, m', bus)"
  shows "vm_addr vm \<noteq> 0" "unat (vm_slot vm) < MAX_VMS" "bus_devs bus = rv_devs (unat (vm_slot vm))"
  using assms
  by (auto simp: rv_devices_init_def uart16550_init_def vplic_init_def mmio_bus_register_def mmio_bus_init_def
      Let_def rv_devs_def not_le split: prod.splits if_splits)

section \<open>A byte for the guest\<close>

lemma push_rx_asserts:
  assumes ok: "uart_world_ok w" and v: "uart16550_of (cw_pool w) vm = Some i" and e: "u_ier (uart_slot w i) AND 1 \<noteq> 0"
  shows "uart16550_irq_asserted (uart16550_push_rx w vm c) vm"
proof -
  note P = push_rx_step [OF ok v, where c = c]
  have "u_rx_list (uart16550_push_rx w vm c) i \<noteq> []"
    using P(3) by (cases "u_rx_list w i") auto
  moreover have "u_ier (uart_slot (uart16550_push_rx w vm c) i) = u_ier (uart_slot w i)"
    using uart_okD(1) [OF ok] uart.of_vm_Some(1) [OF v] by (simp add: uart16550_push_rx_def v Let_def)
  ultimately show ?thesis
    using e by (simp add: uart16550_irq_asserted_def P(2) rx_irq_asserted_locked_def count_pos u_rx_list_def)
qed

section \<open>Properties\<close>

text \<open>
  C21: after the devices of a VM have been set up, a guest access to \<open>0x10000000 .. 0x100000ff\<close> is
  an access to the registers of this VM's console and leaves every interrupt controller alone; an
  access to \<open>0x0c000000 .. 0x0c3fffff\<close> goes to this VM's interrupt controller and leaves the
  consoles alone; any other access is not handled and changes nothing.
\<close>

theorem rv_bus_dispatch:
  assumes "rv_devices_init m vm nr = (0, m', bus)"
  defines "i \<equiv> unat (vm_slot vm)"
  shows "mmio_bus_handle bus gpa wr sz val c (u, g) =
    (if unat gpa \<in> {0x10000000..<0x10000100}
     then Some (True, if wr then (0, uart16550_write u i (gpa - 0x10000000) sz val, g)
                      else let (x, u) = uart16550_read u i (gpa - 0x10000000) sz in (x, u, g))
     else if unat gpa \<in> {0x0c000000..<0x0c400000}
     then Some (True, if wr then (0, u, on_slot g i (vplic_write (pl_st (g ! i)) (gpa - 0x0c000000) sz val))
                      else let (x, s) = vplic_read (pl_st (g ! i)) (gpa - 0x0c000000) sz in (x, u, on_slot g i s))
     else Some (False, 0, u, g))"
proof -
  have d: "bus_devs bus = rv_devs i" using rv_devices_init_ok [OF assms(1)] by (simp add: i_def)
  consider (uart) "unat gpa \<in> window (uart16550_ops i)" | (plic) "unat gpa \<in> window (vplic_ops i)"
    | (other) "unat gpa \<notin> window (uart16550_ops i)" "unat gpa \<notin> window (vplic_ops i)" by blast
  then show ?thesis
  proof cases
    case uart
    then have "mmio_bus_handle bus gpa wr sz val c (u, g) =
        Some (True, mmio_access (on_fst (uart16550_ops i)) (gpa - 0x10000000) wr sz val c (u, g))"
      using mmio_scan_bus_ok [OF rv_bus_ok, of "on_fst (uart16550_ops i)" i gpa wr sz val c "(u, g)"]
      by (simp add: mmio_bus_handle_def d rv_devs_def rv_op_bounds)
    then show ?thesis using uart
      by (simp add: mmio_access_on_fst rv_windows) (simp add: mmio_access_def uart16550_ops_def)
  next
    case plic
    then have "mmio_bus_handle bus gpa wr sz val c (u, g) =
        Some (True, mmio_access (on_snd (vplic_ops i)) (gpa - 0x0c000000) wr sz val c (u, g))"
      using mmio_scan_bus_ok [OF rv_bus_ok, of "on_snd (vplic_ops i)" i gpa wr sz val c "(u, g)"]
      by (simp add: mmio_bus_handle_def d rv_devs_def rv_op_bounds)
    then show ?thesis using plic
      by (simp add: mmio_access_on_snd rv_windows) (simp add: mmio_access_def vplic_ops_def split: prod.split)
  next
    case other
    then have "mmio_bus_handle bus gpa wr sz val c (u, g) = Some (False, 0, u, g)"
      unfolding mmio_bus_handle_def d
      by (intro mmio_scan_no_window [OF rv_bus_ok]) (auto simp: rv_devs_def)
    then show ?thesis using other by (simp add: rv_windows)
  qed
qed

definition rv_m0 :: rv_machine where
  "rv_m0 = (uart_w0, replicate MAX_VMS \<lparr>pl_st = vplic_zero, pl_dev_ready = False\<rparr>)"

lemma rv_m0_init: "\<exists>m bus. rv_devices_init rv_m0 uart_vm 2 = (0, m, bus)"
  by (simp add: rv_devices_init_def rv_m0_def uart16550_init_def vplic_init_def mmio_bus_register_def
      mmio_bus_init_def uart_vm_def Let_def)

theorem rv_bus_dispatch_witness:
  "\<exists>m bus. rv_devices_init rv_m0 uart_vm 2 = (0, m, bus) \<and>
     mmio_bus_handle bus 0x10000000 True 1 65 0 m = Some (True, 0, uart16550_write (fst m) 0 0 1 65, snd m)"
proof -
  obtain m bus where i: "rv_devices_init rv_m0 uart_vm 2 = (0, m, bus)" using rv_m0_init by blast
  show ?thesis
    using rv_bus_dispatch [OF i, of "0x10000000" True 1 65 0 "fst m" "snd m"] i by (simp add: uart_vm_def)
qed

text \<open>
  C22: when the host gives a console byte to a guest that has enabled the receive interrupt of its
  16550A and whose interrupt controller lets source 10 through to a virtual CPU, the next entry of
  that virtual CPU raises its external interrupt line, and a claim there returns a source of at
  least the priority of the console.
\<close>

theorem rv_console_interrupts_guest:
  assumes "uart_world_ok w" and "uart16550_of (cw_pool w) vm = Some i" and "u_ier (uart_slot w i) AND 1 \<noteq> 0"
    and "pool_ok g" and "vplic_of g vm = Some i" and "vplic_ok (pl_st (g ! i))" and "v < pl_nr_vcpus (pl_st (g ! i))"
    and "bit (pl_enable (pl_st (g ! i)) ! unat v) 10" and "\<not> bit (pl_active (pl_st (g ! i)) ! unat v) 10"
    and "pl_threshold (pl_st (g ! i)) ! unat v < pl_priority (pl_st (g ! i)) ! 10"
  shows "case vcpu_external_irq_on_entry (uart16550_push_rx w vm c, g) vm v of (vseip, w', g') \<Rightarrow>
    vseip \<and> (let irq = fst (vplic_claim g' vm v) in irq \<noteq> 0 \<and> pl_priority (pl_st (g ! i)) ! 10 \<le> pl_priority (pl_st (g ! i)) ! unat irq)"
proof -
  let ?w = "uart16550_push_rx w vm c" and ?s = "pl_st (g ! i)"
  let ?s' = "?s\<lparr>pl_pending := pl_pending ?s OR 1024\<rparr>"
  note i = uart.of_vm_Some [OF assms(2)]
  have a: "uart16550_irq_asserted ?w vm" by (rule push_rx_asserts [OF assms(1-3)])
  have g': "vplic_set_pending g vm 10 = on_slot g i ?s'"
    by (simp add: vplic_set_pending_def assms(5) Let_def)
  have of: "vplic_of (on_slot g i ?s') vm = Some i"
    using vplic.of_vm_update_own [OF assms(5), of "(g ! i)\<lparr>pl_st := ?s'\<rparr>"] assms(4) vplic.of_vm_Some(3) [OF assms(5)]
    by (simp add: on_slot_def pool_ok_def)
  have at: "pl_st (on_slot g i ?s' ! i) = ?s'" using i(1) assms(4) by (simp add: on_slot_def pool_ok_def)
  have ok: "vplic_ok ?s'" using vplic_ok_pending [OF assms(6), of 10] by simp
  have "deliverable ?s' (unat v) 10" using assms(8-10) bit_exp_iff [where 'a = u64, of 10 10] by (simp add: deliverable_def bit_or_iff)
  then obtain k where k: "vplic_next_deliverable_locked ?s' v = of_nat k" "deliverable ?s' (unat v) k"
    "pl_priority ?s ! 10 \<le> pl_priority ?s ! k"
    using next_deliverable_cases [OF ok, of v] assms(7) by fastforce
  then have nz: "(of_nat k :: u32) \<noteq> 0" "unat (of_nat k :: u32) = k"
    by (auto simp: deliverable_def unat_of_nat word_unat_eq_iff)
  have "unat v < 12" using assms(6,7) by (simp add: vplic_ok_def word_less_nat_alt)
  then have "fst (vplic_claim (on_slot g i ?s') vm v) = of_nat k"
    using k(1) nz by (simp add: vplic_claim_def of at vplic_claim_locked_def Let_def)
  then show ?thesis
    using a g' k nz i(4) by (simp add: vcpu_external_irq_on_entry_def vmm_arch_irq_raise_def
        vplic_next_deliverable_def of at Let_def)
qed

definition rv_w1 :: uart_world where
  "rv_w1 = uart16550_write uart_w0 0 1 1 1"

definition rv_g1 :: "vplic_slot_t list" where
  "rv_g1 = (replicate MAX_VMS \<lparr>pl_st = vplic_zero, pl_dev_ready = False\<rparr>)
     [0 := \<lparr>pl_st = vplic_zero\<lparr>pl_owner := vm_addr uart_vm, pl_nr_vcpus := 1,
              pl_enable := (replicate 12 0)[0 := 0x400], pl_priority := (replicate 64 0)[10 := 1]\<rparr>,
            pl_dev_ready = True\<rparr>]"

theorem rv_console_interrupts_guest_witness:
  "case vcpu_external_irq_on_entry (uart16550_push_rx rv_w1 uart_vm 65, rv_g1) uart_vm 0 of (vseip, w', g') \<Rightarrow>
    vseip \<and> (let irq = fst (vplic_claim g' uart_vm 0)
             in irq \<noteq> 0 \<and> pl_priority (pl_st (rv_g1 ! 0)) ! 10 \<le> pl_priority (pl_st (rv_g1 ! 0)) ! unat irq)"
proof -
  have w: "rv_w1 = uart_set uart_w0 0 ((uart_slot uart_w0 0)\<lparr>u_ier := 1\<rparr>)"
    by (simp add: rv_w1_def uart16550_write_def Let_def) (simp add: uart_w0_def uart_slot_def uart16550_zero_def)
  note D = uart_okD [OF uart_w0_ok(1), of 0]
  have "uart_world_ok rv_w1" unfolding w by (rule uart_world_set [OF uart_w0_ok(1)]) (use D in \<open>simp_all add: uart_ok_def\<close>)
  moreover have "uart16550_of (cw_pool rv_w1) uart_vm = Some 0"
    unfolding w by (rule uart_of_set [OF uart_w0_ok(2)]) (use D in simp_all)
  moreover have "u_ier (uart_slot rv_w1 0) AND 1 \<noteq> 0" using D(1) by (simp add: w)
  ultimately show ?thesis
    by (rule rv_console_interrupts_guest)
      (simp_all add: rv_g1_def pool_ok_def vplic_of_def uart_vm_def vplic_ok_def vplic_zero_def bit_simps)
qed

end
