(* ===== verification/Vgic.thy ===== *)
theory Vgic
  imports Vdev Bits
begin

text \<open>
  The virtual GICv2 of an AArch64 guest: the core \<^verbatim>\<open>kernel/vmm/vdev/vgic/vgic.c\<close>, the distributor
  \<^verbatim>\<open>vgicd.c\<close> and the CPU interfaces \<^verbatim>\<open>vgicc.c\<close>, with their headers. The state of the machine
  is the \<^verbatim>\<open>vgic_t\<close> of the VM and the four hardware list registers of the physical CPU that runs
  the virtual CPU, which \<^verbatim>\<open>gic_read_lr\<close> and \<^verbatim>\<open>gic_write_lr\<close> access. Virtual CPU numbers are below
  32, where \<open>1u << vcpu_id\<close> is defined.
\<close>

unbundle bit_operations_syntax

section \<open>State\<close>

abbreviation VGIC_MAX_IRQS :: nat where
  "VGIC_MAX_IRQS \<equiv> 1024"

abbreviation VGIC_MAX_WORDS :: nat where
  "VGIC_MAX_WORDS \<equiv> 32"

abbreviation VGIC_MAX_VCPUS :: nat where
  "VGIC_MAX_VCPUS \<equiv> 12"

abbreviation VGIC_MAX_LRS :: nat where
  "VGIC_MAX_LRS \<equiv> 4"

abbreviation VGICD_REG_SIZE :: nat where
  "VGICD_REG_SIZE \<equiv> 4096"

abbreviation LR_STATE_MASK :: u32 where
  "LR_STATE_MASK \<equiv> 0x30000000"

abbreviation LR_VINTID_MASK :: u32 where
  "LR_VINTID_MASK \<equiv> 0x3ff"

abbreviation SGI_MASK :: u32 where
  "SGI_MASK \<equiv> 0xffff"

record vgic_vcpu_state_t =
  enabled0 :: u32
  pending0 :: u32
  active0 :: u32
  sgi_sources :: "u16 list"
  gicc_ctlr :: u32
  gicc_pmr :: u32
  gicc_iidr :: u32
  gicc_eoi_mode :: u32
  lr :: "u32 list"

record vgic_t =
  nr_vcpus :: u32
  dist_enabled :: bool
  enabled :: "u32 list"
  spi_pending :: "u32 list list"
  spi_active :: "u32 list list"
  dist_regs :: "u8 list"
  targets :: "u8 list"
  vcpu :: "vgic_vcpu_state_t list"

record gic_machine =
  gm_vgic :: vgic_t
  gm_lr :: "u32 list"

definition vcpu_zero :: vgic_vcpu_state_t where
  "vcpu_zero =
     \<lparr>enabled0 = 0, pending0 = 0, active0 = 0, sgi_sources = replicate 16 0, gicc_ctlr = 0, gicc_pmr = 0,
      gicc_iidr = 0, gicc_eoi_mode = 0, lr = replicate VGIC_MAX_LRS 0\<rparr>"

definition vgic_zero :: vgic_t where
  "vgic_zero =
     \<lparr>nr_vcpus = 0, dist_enabled = False, enabled = replicate VGIC_MAX_WORDS 0,
      spi_pending = replicate VGIC_MAX_VCPUS (replicate VGIC_MAX_WORDS 0),
      spi_active = replicate VGIC_MAX_VCPUS (replicate VGIC_MAX_WORDS 0),
      dist_regs = replicate VGICD_REG_SIZE 0, targets = replicate VGIC_MAX_IRQS 0,
      vcpu = replicate VGIC_MAX_VCPUS vcpu_zero\<rparr>"

text \<open>Updates of one element, as the C assignments through an index.\<close>

definition on_vcpu :: "u32 \<Rightarrow> (vgic_vcpu_state_t \<Rightarrow> vgic_vcpu_state_t) \<Rightarrow> vgic_t \<Rightarrow> vgic_t" where
  "on_vcpu v f g = g\<lparr>vcpu := (vcpu g)[unat v := f (vcpu g ! unat v)]\<rparr>"

definition upd2 :: "u32 list list \<Rightarrow> nat \<Rightarrow> nat \<Rightarrow> (u32 \<Rightarrow> u32) \<Rightarrow> u32 list list" where
  "upd2 a i j f = a[i := (a ! i)[j := f (a ! i ! j)]]"

section \<open>Core\<close>

definition valid_vcpu :: "vgic_t \<Rightarrow> u32 \<Rightarrow> bool" where
  "valid_vcpu g v \<longleftrightarrow> v < nr_vcpus g"

definition valid_irq :: "u32 \<Rightarrow> bool" where
  "valid_irq irq \<longleftrightarrow> irq < 1020"

definition irq_bit :: "u32 \<Rightarrow> u32" where
  "irq_bit irq = push_bit (unat (irq AND 31)) 1"

definition lowest_irq :: "u32 \<Rightarrow> u32 \<Rightarrow> u32" where
  "lowest_irq bits base = base + bit_number (bits AND (NOT bits + 1)) 0"

definition lr_value :: "u32 \<Rightarrow> u32 \<Rightarrow> u32" where
  "lr_value irq source_vcpu =
     (let l = push_bit 30 1 OR push_bit 28 1 OR push_bit 23 0x14 OR (irq AND LR_VINTID_MASK)
      in if irq < 16 then l OR push_bit 10 (source_vcpu AND 0x7) else l)"

definition vmm_vgic_init :: "u32 \<Rightarrow> vgic_t" where
  "vmm_vgic_init n =
     (let n = (if n < 1 then 1 else n);
          n = (if unat n > VGIC_MAX_VCPUS then of_nat VGIC_MAX_VCPUS else n)
      in vgic_zero\<lparr>nr_vcpus := n, vcpu := map (\<lambda>c. c\<lparr>enabled0 := SGI_MASK\<rparr>) (vcpu vgic_zero)\<rparr>)"

definition vmm_vgic_set_dist_enabled :: "vgic_t \<Rightarrow> bool \<Rightarrow> vgic_t" where
  "vmm_vgic_set_dist_enabled g en = g\<lparr>dist_enabled := en\<rparr>"

definition vmm_vgic_set_sgi_pending :: "vgic_t \<Rightarrow> u32 \<Rightarrow> u32 \<Rightarrow> u32 \<Rightarrow> vgic_t" where
  "vmm_vgic_set_sgi_pending g v source_vcpu irq =
     (if \<not> valid_vcpu g v \<or> irq \<ge> 16 then g
      else let source_vcpu = (if unat source_vcpu \<ge> VGIC_MAX_VCPUS then 0 else source_vcpu)
           in on_vcpu v (\<lambda>c. c\<lparr>sgi_sources := (sgi_sources c)[unat irq := sgi_sources c ! unat irq OR push_bit (unat source_vcpu) 1],
                               pending0 := pending0 c OR irq_bit irq\<rparr>) g)"

definition vmm_vgic_set_pending :: "vgic_t \<Rightarrow> u32 \<Rightarrow> u32 \<Rightarrow> vgic_t" where
  "vmm_vgic_set_pending g v irq =
     (if \<not> valid_irq irq then g
      else if irq < 16 then vmm_vgic_set_sgi_pending g v 0 irq
      else if irq < 32 then
        (if valid_vcpu g v then on_vcpu v (\<lambda>c. c\<lparr>pending0 := pending0 c OR irq_bit irq\<rparr>) g else g)
      else if valid_vcpu g v
      then g\<lparr>spi_pending := upd2 (spi_pending g) (unat v) (unat (irq div 32)) (\<lambda>x. x OR irq_bit irq)\<rparr>
      else g)"

definition vmm_vgic_set_enabled :: "vgic_t \<Rightarrow> u32 \<Rightarrow> u32 \<Rightarrow> bool \<Rightarrow> vgic_t" where
  "vmm_vgic_set_enabled g v irq en =
     (if \<not> valid_irq irq \<or> irq < 16 then g
      else if irq < 32 then
        (if \<not> valid_vcpu g v then g
         else if en then on_vcpu v (\<lambda>c. c\<lparr>enabled0 := enabled0 c OR irq_bit irq\<rparr>) g
         else on_vcpu v (\<lambda>c. c\<lparr>enabled0 := enabled0 c AND NOT (irq_bit irq)\<rparr>) g)
      else let w = unat (irq div 32)
           in if en then g\<lparr>enabled := (enabled g)[w := enabled g ! w OR irq_bit irq]\<rparr>
              else g\<lparr>enabled := (enabled g)[w := enabled g ! w AND NOT (irq_bit irq)]\<rparr>)"

definition vmm_vgic_enabled_word :: "vgic_t \<Rightarrow> u32 \<Rightarrow> u32 \<Rightarrow> u32" where
  "vmm_vgic_enabled_word g v word =
     (if unat word \<ge> VGIC_MAX_WORDS then 0
      else if word = 0 then (if valid_vcpu g v then enabled0 (vcpu g ! unat v) OR SGI_MASK else SGI_MASK)
      else enabled g ! unat word)"

definition vmm_vgic_pending_word :: "vgic_t \<Rightarrow> u32 \<Rightarrow> u32 \<Rightarrow> u32" where
  "vmm_vgic_pending_word g v word =
     (if unat word \<ge> VGIC_MAX_WORDS then 0
      else if word = 0 then (if valid_vcpu g v then pending0 (vcpu g ! unat v) else 0)
      else if valid_vcpu g v then spi_pending g ! unat v ! unat word else 0)"

definition vmm_vgic_active_word :: "vgic_t \<Rightarrow> u32 \<Rightarrow> u32 \<Rightarrow> u32" where
  "vmm_vgic_active_word g v word =
     (if unat word \<ge> VGIC_MAX_WORDS then 0
      else if word = 0 then (if valid_vcpu g v then active0 (vcpu g ! unat v) else 0)
      else if valid_vcpu g v then spi_active g ! unat v ! unat word else 0)"

definition vmm_vgic_clear_pending_word :: "vgic_t \<Rightarrow> u32 \<Rightarrow> u32 \<Rightarrow> u32 \<Rightarrow> vgic_t" where
  "vmm_vgic_clear_pending_word g v word bits =
     (if unat word \<ge> VGIC_MAX_WORDS then g
      else if word = 0
      then (if valid_vcpu g v then on_vcpu v (\<lambda>c. c\<lparr>pending0 := pending0 c AND NOT bits\<rparr>) g else g)
      else if valid_vcpu g v
      then g\<lparr>spi_pending := upd2 (spi_pending g) (unat v) (unat word) (\<lambda>x. x AND NOT bits)\<rparr>
      else g)"

definition vmm_vgic_clear_active_word :: "vgic_t \<Rightarrow> u32 \<Rightarrow> u32 \<Rightarrow> u32 \<Rightarrow> vgic_t" where
  "vmm_vgic_clear_active_word g v word bits =
     (if unat word \<ge> VGIC_MAX_WORDS then g
      else if word = 0
      then (if valid_vcpu g v then on_vcpu v (\<lambda>c. c\<lparr>active0 := active0 c AND NOT bits\<rparr>) g else g)
      else if valid_vcpu g v
      then g\<lparr>spi_active := upd2 (spi_active g) (unat v) (unat word) (\<lambda>x. x AND NOT bits)\<rparr>
      else g)"

text \<open>The loop over the words of shared interrupts; \<open>n\<close> words are left.\<close>

primrec next_spi :: "nat \<Rightarrow> vgic_t \<Rightarrow> u32 \<Rightarrow> nat \<Rightarrow> int" where
  "next_spi 0 g v word = - 1"
| "next_spi (Suc n) g v word =
     (let ready = spi_pending g ! unat v ! word AND enabled g ! word AND NOT (spi_active g ! unat v ! word)
      in if ready \<noteq> 0 then sint (lowest_irq ready (of_nat word * 32)) else next_spi n g v (Suc word))"

definition vmm_vgic_next_pending :: "vgic_t \<Rightarrow> u32 \<Rightarrow> int" where
  "vmm_vgic_next_pending g v =
     (if \<not> valid_vcpu g v then - 1
      else let c = vcpu g ! unat v;
               ready0 = pending0 c AND (enabled0 c OR SGI_MASK) AND NOT (active0 c)
           in if ready0 \<noteq> 0 then sint (lowest_irq ready0 0) else next_spi (VGIC_MAX_WORDS - 1) g v 1)"

section \<open>List registers\<close>

definition lr_holds :: "u32 \<Rightarrow> u32 \<Rightarrow> bool" where
  "lr_holds l irq \<longleftrightarrow> l AND LR_STATE_MASK \<noteq> 0 \<and> l AND LR_VINTID_MASK = irq AND LR_VINTID_MASK"

definition gic_write_lr :: "nat \<Rightarrow> u32 \<Rightarrow> gic_machine \<Rightarrow> gic_machine" where
  "gic_write_lr n x m = m\<lparr>gm_lr := (gm_lr m)[n := x]\<rparr>"

definition gic_read_lr :: "gic_machine \<Rightarrow> nat \<Rightarrow> u32" where
  "gic_read_lr m n = gm_lr m ! n"

definition vgicc_lr_has_irq :: "vgic_t \<Rightarrow> u32 \<Rightarrow> u32 \<Rightarrow> bool" where
  "vgicc_lr_has_irq g v irq =
     (valid_vcpu g v \<and> list_ex (\<lambda>i. lr_holds (lr (vcpu g ! unat v) ! i) irq) [0..<VGIC_MAX_LRS])"

definition vgicc_lr_empty_slot :: "vgic_t \<Rightarrow> u32 \<Rightarrow> int" where
  "vgicc_lr_empty_slot g v =
     (if \<not> valid_vcpu g v then - 1
      else case List.find (\<lambda>i. lr (vcpu g ! unat v) ! i AND LR_STATE_MASK = 0) [0..<VGIC_MAX_LRS] of
             Some i \<Rightarrow> int i | None \<Rightarrow> - 1)"

definition vgicc_write_lr :: "gic_machine \<Rightarrow> u32 \<Rightarrow> u32 \<Rightarrow> u32 \<Rightarrow> gic_machine" where
  "vgicc_write_lr m v slot x =
     (if \<not> valid_vcpu (gm_vgic m) v \<or> unat slot \<ge> VGIC_MAX_LRS then m
      else gic_write_lr (unat slot) x
             (m\<lparr>gm_vgic := on_vcpu v (\<lambda>c. c\<lparr>lr := (lr c)[unat slot := x]\<rparr>) (gm_vgic m)\<rparr>))"

text \<open>One iteration of the loop of \<^verbatim>\<open>vgicc_clear_lr_irq\<close>.\<close>

definition clear_lr_step :: "u32 \<Rightarrow> u32 \<Rightarrow> nat \<Rightarrow> gic_machine \<Rightarrow> gic_machine" where
  "clear_lr_step v irq i m =
     (if lr_holds (lr (vcpu (gm_vgic m) ! unat v) ! i) irq
      then gic_write_lr i 0 (m\<lparr>gm_vgic := on_vcpu v (\<lambda>c. c\<lparr>lr := (lr c)[i := 0]\<rparr>) (gm_vgic m)\<rparr>)
      else m)"

definition vgicc_clear_lr_irq :: "gic_machine \<Rightarrow> u32 \<Rightarrow> u32 \<Rightarrow> gic_machine" where
  "vgicc_clear_lr_irq m v irq =
     (if \<not> valid_vcpu (gm_vgic m) v then m else fold (clear_lr_step v irq) [0..<VGIC_MAX_LRS] m)"

definition save_lr_step :: "u32 \<Rightarrow> nat \<Rightarrow> gic_machine \<Rightarrow> gic_machine" where
  "save_lr_step v i m =
     (let x = gic_read_lr m i
      in gic_write_lr i 0
           (m\<lparr>gm_vgic := on_vcpu v (\<lambda>c. c\<lparr>lr := (lr c)[i := if x AND LR_STATE_MASK \<noteq> 0 then x else 0]\<rparr>) (gm_vgic m)\<rparr>))"

definition vgicc_save_state_from_hw :: "gic_machine \<Rightarrow> u32 \<Rightarrow> gic_machine" where
  "vgicc_save_state_from_hw m v =
     (if \<not> valid_vcpu (gm_vgic m) v then m else fold (save_lr_step v) [0..<VGIC_MAX_LRS] m)"

section \<open>Acknowledge, end of interrupt, entry and exit\<close>

definition vmm_vgic_ack :: "gic_machine \<Rightarrow> u32 \<Rightarrow> int \<times> gic_machine" where
  "vmm_vgic_ack m v =
     (let g = gm_vgic m;
          r = vmm_vgic_next_pending g v
      in if r < 0 then (- 1, m)
         else let irq = of_int r :: u32;
                  g = (if irq < 32
                       then on_vcpu v (\<lambda>c. let c = c\<lparr>pending0 := pending0 c AND NOT (irq_bit irq)\<rparr>;
                                               c = (if irq < 16 then c\<lparr>sgi_sources := (sgi_sources c)[unat irq := 0]\<rparr> else c)
                                           in c\<lparr>active0 := active0 c OR irq_bit irq\<rparr>) g
                       else g\<lparr>spi_pending := upd2 (spi_pending g) (unat v) (unat (irq div 32)) (\<lambda>x. x AND NOT (irq_bit irq)),
                              spi_active := upd2 (spi_active g) (unat v) (unat (irq div 32)) (\<lambda>x. x OR irq_bit irq)\<rparr>)
              in (r, vgicc_clear_lr_irq (m\<lparr>gm_vgic := g\<rparr>) v irq))"

definition vmm_vgic_eoi :: "vgic_t \<Rightarrow> u32 \<Rightarrow> u32 \<Rightarrow> vgic_t" where
  "vmm_vgic_eoi g v irq =
     (if \<not> valid_vcpu g v \<or> \<not> valid_irq irq then g
      else if irq < 32 then on_vcpu v (\<lambda>c. c\<lparr>active0 := active0 c AND NOT (irq_bit irq)\<rparr>) g
      else g\<lparr>spi_active := upd2 (spi_active g) (unat v) (unat (irq div 32)) (\<lambda>x. x AND NOT (irq_bit irq))\<rparr>)"

definition vmm_vgic_sync_entry :: "gic_machine \<Rightarrow> u32 \<Rightarrow> gic_machine" where
  "vmm_vgic_sync_entry m v =
     (if \<not> valid_vcpu (gm_vgic m) v then m
      else let g = gm_vgic m;
               r = vmm_vgic_next_pending g v;
               irq = of_int r :: u32
           in if r < 0 \<or> vgicc_lr_has_irq g v irq then m
              else let slot = vgicc_lr_empty_slot g v
                   in if slot < 0 then m
                      else let sources = sgi_sources (vcpu g ! unat v) ! unat irq;
                               src = (if irq < 16 \<and> sources \<noteq> 0 then bit_number (sources AND (NOT sources + 1)) 0 else 0)
                           in vgicc_write_lr m v (of_int slot) (lr_value irq src))"

definition vmm_vgic_inject_timer :: "gic_machine \<Rightarrow> u32 \<Rightarrow> gic_machine" where
  "vmm_vgic_inject_timer m v =
     vmm_vgic_sync_entry (m\<lparr>gm_vgic := vmm_vgic_set_pending (gm_vgic m) v 27\<rparr>) v"

definition vmm_vgic_sync_exit :: "gic_machine \<Rightarrow> u32 \<Rightarrow> gic_machine" where
  "vmm_vgic_sync_exit m v = (if valid_vcpu (gm_vgic m) v then vgicc_save_state_from_hw m v else m)"

section \<open>The distributor\<close>

definition reg_read :: "vgic_t \<Rightarrow> u32 \<Rightarrow> u8 \<Rightarrow> u64" where
  "reg_read g off sz =
     fold (\<lambda>i x. if off + of_nat i < of_nat VGICD_REG_SIZE
                 then x OR push_bit (8 * i) (ucast (dist_regs g ! unat (off + of_nat i))) else x) [0..<unat sz] 0"

definition reg_write :: "vgic_t \<Rightarrow> u32 \<Rightarrow> u8 \<Rightarrow> u64 \<Rightarrow> vgic_t" where
  "reg_write g off sz val =
     fold (\<lambda>i g. if off + of_nat i < of_nat VGICD_REG_SIZE
                 then g\<lparr>dist_regs := (dist_regs g)[unat (off + of_nat i) := ucast (drop_bit (8 * i) val)]\<rparr> else g)
       [0..<unat sz] g"

definition word_index :: "u64 \<Rightarrow> u32 \<Rightarrow> u32 option" where
  "word_index off base =
     (if off < ucast base \<or> off \<ge> ucast (base + 32 * 4) then None else Some (ucast ((off - ucast base) div 4)))"

definition vgicd_set_pending :: "vgic_t \<Rightarrow> u32 \<Rightarrow> u32 \<Rightarrow> vgic_t" where
  "vgicd_set_pending g v irq = vmm_vgic_set_pending g v irq"

definition vgicd_is_enabled :: "vgic_t \<Rightarrow> u32 \<Rightarrow> u32 \<Rightarrow> bool" where
  "vgicd_is_enabled g v irq =
     (if unat irq \<ge> VGIC_MAX_IRQS then False
      else vmm_vgic_enabled_word g v (irq div 32) AND push_bit (unat (irq AND 31)) 1 \<noteq> 0)"

text \<open>The virtual CPUs that the loops \<^verbatim>\<open>for (cpu = 0; cpu < nr_vcpus && cpu < 32; cpu++)\<close> pick from a mask.\<close>

definition cpus_in :: "vgic_t \<Rightarrow> u32 \<Rightarrow> u32 list" where
  "cpus_in g msk = map of_nat (filter (\<lambda>k. msk AND push_bit k 1 \<noteq> 0) [0..<min (unat (nr_vcpus g)) 32])"

definition handle_sgir :: "vgic_t \<Rightarrow> u32 \<Rightarrow> u32 \<Rightarrow> vgic_t" where
  "handle_sgir g val source_vcpu =
     (let irq = val AND 0xf;
          flt = drop_bit 24 val AND 0x3;
          msk = (if flt = 0 then drop_bit 16 val AND 0xff
                 else if flt = 1 then (push_bit (unat (nr_vcpus g)) 1 - 1) AND NOT (push_bit (unat source_vcpu) 1)
                 else if flt = 2 then push_bit (unat source_vcpu) 1
                 else 0)
      in fold (\<lambda>cpu g. vmm_vgic_set_sgi_pending g cpu source_vcpu irq) (cpus_in g msk) g)"

definition vgicd_read_for_vcpu :: "vgic_t \<Rightarrow> u64 \<Rightarrow> u8 \<Rightarrow> u32 \<Rightarrow> u64" where
  "vgicd_read_for_vcpu g off sz v =
     (if off = 0x000 then (if dist_enabled g then 1 else 0)
      else if off = 0x004 then push_bit 5 (ucast (nr_vcpus g - 1) AND 0x7) OR 0x3
      else if off = 0x008 then 0
      else case (word_index off 0x100, word_index off 0x180) of
        (Some word, _) \<Rightarrow> ucast (vmm_vgic_enabled_word g v word)
      | (None, Some word) \<Rightarrow> ucast (vmm_vgic_enabled_word g v word)
      | (None, None) \<Rightarrow>
      (case (word_index off 0x200, word_index off 0x280) of
        (Some word, _) \<Rightarrow> ucast (vmm_vgic_pending_word g v word)
      | (None, Some word) \<Rightarrow> ucast (vmm_vgic_pending_word g v word)
      | (None, None) \<Rightarrow>
      (case (word_index off 0x300, word_index off 0x380) of
        (Some word, _) \<Rightarrow> ucast (vmm_vgic_active_word g v word)
      | (None, Some word) \<Rightarrow> ucast (vmm_vgic_active_word g v word)
      | (None, None) \<Rightarrow>
        if off \<ge> 0x800 \<and> off < 0x800 + 0x20
        then let msk = push_bit (if v < 8 then unat v else 0) 1 :: u32
             in ucast (msk OR push_bit 8 msk OR push_bit 16 msk OR push_bit 24 msk)
        else reg_read g (ucast off) sz)))"

text \<open>The loops over the 32 bits of a set or clear register.\<close>

definition enable_bits :: "vgic_t \<Rightarrow> u32 \<Rightarrow> u32 \<Rightarrow> u32 \<Rightarrow> bool \<Rightarrow> vgic_t" where
  "enable_bits g v word val en =
     fold (\<lambda>k g. if val AND push_bit k 1 \<noteq> 0 then vmm_vgic_set_enabled g v (word * 32 + of_nat k) en else g) [0..<32] g"

definition pend_bits :: "vgic_t \<Rightarrow> u32 \<Rightarrow> u32 \<Rightarrow> u32 \<Rightarrow> vgic_t" where
  "pend_bits g v word val =
     fold (\<lambda>k g. if val AND push_bit k 1 \<noteq> 0
                 then let irq = word * 32 + of_nat k;
                          msk = (if irq < 32 then push_bit (unat v) 1 else ucast (targets g ! unat irq)) :: u32;
                          msk = (if msk = 0 then 1 else msk)
                      in fold (\<lambda>cpu g. vgicd_set_pending g cpu irq) (cpus_in g msk) g
                 else g) [0..<32] g"

definition write_targets :: "vgic_t \<Rightarrow> nat \<Rightarrow> u8 \<Rightarrow> u64 \<Rightarrow> vgic_t" where
  "write_targets g index sz val =
     fold (\<lambda>i g. if index + i < VGIC_MAX_IRQS
                 then g\<lparr>targets := (targets g)[index + i := ucast (drop_bit (8 * i) val)]\<rparr> else g) [0..<unat sz] g"

definition vgicd_write_for_vcpu :: "vgic_t \<Rightarrow> u64 \<Rightarrow> u8 \<Rightarrow> u64 \<Rightarrow> u32 \<Rightarrow> vgic_t" where
  "vgicd_write_for_vcpu g off sz val v =
     (let value32 = ucast val :: u32
      in if off = 0x000
         then reg_write (vmm_vgic_set_dist_enabled g (value32 AND 1 \<noteq> 0)) (ucast off) sz val
         else case word_index off 0x100 of Some word \<Rightarrow> enable_bits g v word value32 True | None \<Rightarrow>
              case word_index off 0x180 of Some word \<Rightarrow> enable_bits g v word value32 False | None \<Rightarrow>
              case word_index off 0x200 of Some word \<Rightarrow> pend_bits g v word value32 | None \<Rightarrow>
              case word_index off 0x280 of Some word \<Rightarrow> vmm_vgic_clear_pending_word g v word value32 | None \<Rightarrow>
              case word_index off 0x380 of Some word \<Rightarrow> vmm_vgic_clear_active_word g v word value32 | None \<Rightarrow>
              if off = 0xf00 then handle_sgir g value32 v
              else if off \<ge> 0x800 \<and> off < 0x800 + 0x20 then g
              else let g = (if off \<ge> 0x800 \<and> off < 0x800 + of_nat VGIC_MAX_IRQS
                            then write_targets g (unat (ucast (off - 0x800) :: u32)) sz val else g)
                   in reg_write g (ucast off) sz val)"

definition vgicd_ops :: "gic_machine mmio_dev_ops_t" where
  "vgicd_ops =
     \<lparr>op_name = ''vgicd'', op_base = 0x08000000, op_size = 0x10000, op_read = None, op_write = None,
      op_read_for_vcpu = Some (\<lambda>m off sz v. (vgicd_read_for_vcpu (gm_vgic m) off sz v, m)),
      op_write_for_vcpu = Some (\<lambda>m off sz val v. m\<lparr>gm_vgic := vgicd_write_for_vcpu (gm_vgic m) off sz val v\<rparr>)\<rparr>"

definition vgicd_init :: "gic_machine mmio_bus_t \<Rightarrow> int \<times> gic_machine mmio_bus_t" where
  "vgicd_init bus =
     (let (r, bus) = mmio_bus_register bus (Some vgicd_ops) in if r \<noteq> 0 then (- 1, bus) else (0, bus))"

section \<open>The CPU interfaces\<close>

definition vgicc_read_for_vcpu :: "gic_machine \<Rightarrow> u64 \<Rightarrow> u8 \<Rightarrow> u32 \<Rightarrow> u64 \<times> gic_machine" where
  "vgicc_read_for_vcpu m off sz v =
     (if \<not> valid_vcpu (gm_vgic m) v then (0, m)
      else let c = vcpu (gm_vgic m) ! unat v
           in if off = 0x0000 then (ucast (gicc_ctlr c), m)
              else if off = 0x0004 then (ucast (gicc_pmr c), m)
              else if off = 0x00fc then (ucast (gicc_iidr c), m)
              else if off = 0x000c
              then let (irq, m) = vmm_vgic_ack m v in (if irq < 0 then 1023 else of_int irq, m)
              else (0, m))"

definition vgicc_write_for_vcpu :: "gic_machine \<Rightarrow> u64 \<Rightarrow> u8 \<Rightarrow> u64 \<Rightarrow> u32 \<Rightarrow> gic_machine" where
  "vgicc_write_for_vcpu m off sz val v =
     (let g = gm_vgic m
      in if \<not> valid_vcpu g v then m
         else let irq = ucast val AND 0x3ff :: u32
              in if off = 0x0000
                 then m\<lparr>gm_vgic := on_vcpu v (\<lambda>c. c\<lparr>gicc_ctlr := ucast val, gicc_eoi_mode := ucast (drop_bit 9 val) AND 1\<rparr>) g\<rparr>
                 else if off = 0x0004 then m\<lparr>gm_vgic := on_vcpu v (\<lambda>c. c\<lparr>gicc_pmr := ucast val\<rparr>) g\<rparr>
                 else if off = 0x0010
                 then (if gicc_eoi_mode (vcpu g ! unat v) = 0 then m\<lparr>gm_vgic := vmm_vgic_eoi g v irq\<rparr> else m)
                 else if off = 0x1000 then m\<lparr>gm_vgic := vmm_vgic_eoi g v irq\<rparr>
                 else m)"

definition vgicc_ops :: "gic_machine mmio_dev_ops_t" where
  "vgicc_ops =
     \<lparr>op_name = ''vgicc'', op_base = 0x08010000, op_size = 0x10000, op_read = None, op_write = None,
      op_read_for_vcpu = Some vgicc_read_for_vcpu, op_write_for_vcpu = Some vgicc_write_for_vcpu\<rparr>"

definition vgicc_init :: "gic_machine mmio_bus_t \<Rightarrow> vgic_t \<Rightarrow> int \<times> gic_machine mmio_bus_t \<times> vgic_t" where
  "vgicc_init bus g =
     (let g = fold (\<lambda>i. on_vcpu (of_nat i) (\<lambda>c. c\<lparr>gicc_iidr := 0x0202043B, gicc_pmr := 0xf0\<rparr>)) [0..<unat (nr_vcpus g)] g;
          (r, bus) = mmio_bus_register bus (Some vgicc_ops)
      in if r \<noteq> 0 then (- 1, bus, g) else (0, bus, g))"

section \<open>Invariant and abstraction\<close>

definition vgic_ok :: "vgic_t \<Rightarrow> bool" where
  "vgic_ok g \<longleftrightarrow>
     unat (nr_vcpus g) \<le> VGIC_MAX_VCPUS \<and> length (enabled g) = VGIC_MAX_WORDS \<and>
     length (spi_pending g) = VGIC_MAX_VCPUS \<and> (\<forall>x \<in> set (spi_pending g). length x = VGIC_MAX_WORDS) \<and>
     length (spi_active g) = VGIC_MAX_VCPUS \<and> (\<forall>x \<in> set (spi_active g). length x = VGIC_MAX_WORDS) \<and>
     length (targets g) = VGIC_MAX_IRQS \<and> length (dist_regs g) = VGICD_REG_SIZE \<and>
     length (vcpu g) = VGIC_MAX_VCPUS \<and>
     (\<forall>c \<in> set (vcpu g). length (sgi_sources c) = 16 \<and> length (lr c) = VGIC_MAX_LRS)"

text \<open>The 32 interrupts of a word as virtual CPU \<open>v\<close> sees them.\<close>

definition pword :: "vgic_t \<Rightarrow> nat \<Rightarrow> nat \<Rightarrow> u32" where
  "pword g v w = (if w = 0 then pending0 (vcpu g ! v) else spi_pending g ! v ! w)"

definition aword :: "vgic_t \<Rightarrow> nat \<Rightarrow> nat \<Rightarrow> u32" where
  "aword g v w = (if w = 0 then active0 (vcpu g ! v) else spi_active g ! v ! w)"

definition eword :: "vgic_t \<Rightarrow> nat \<Rightarrow> nat \<Rightarrow> u32" where
  "eword g v w = (if w = 0 then enabled0 (vcpu g ! v) OR SGI_MASK else enabled g ! w)"

definition irqs :: "nat \<Rightarrow> (nat \<Rightarrow> nat \<Rightarrow> u32) \<Rightarrow> (nat \<times> nat) set" where
  "irqs n f = {(v, i). v < n \<and> i < VGIC_MAX_IRQS \<and> bit (f v (i div 32)) (i mod 32)}"

text \<open>The abstract interrupt controller: which interrupts are pending, active and enabled at which virtual CPU.\<close>

record gic_spec =
  g_pend :: "(nat \<times> nat) set"
  g_act :: "(nat \<times> nat) set"
  g_en :: "(nat \<times> nat) set"

definition vgic_abs :: "vgic_t \<Rightarrow> gic_spec" where
  "vgic_abs g =
     (let n = unat (nr_vcpus g) in \<lparr>g_pend = irqs n (pword g), g_act = irqs n (aword g), g_en = irqs n (eword g)\<rparr>)"

definition ready :: "gic_spec \<Rightarrow> nat \<Rightarrow> nat set" where
  "ready a v = {i. (v, i) \<in> g_pend a \<and> (v, i) \<in> g_en a \<and> (v, i) \<notin> g_act a}"

lemma bit_irq_bit: "bit (irq_bit irq) k \<longleftrightarrow> k = unat irq mod 32"
proof -
  have "irq AND 31 = take_bit 5 irq" by (simp add: take_bit_eq_mask mask_eq_exp_minus_1)
  then have "unat (irq AND 31) = unat irq mod 32" by (simp add: take_bit_eq_mod unat_mod_distrib)
  then show ?thesis by (auto simp: irq_bit_def bit_simps)
qed

lemma div_mod_eq: "i div 32 = unat irq div 32 \<and> i mod 32 = unat (irq :: u32) mod 32 \<longleftrightarrow> i = unat irq"
  by (metis div_mult_mod_eq)

lemma on_vcpu_simps [simp]:
  "nr_vcpus (on_vcpu v f g) = nr_vcpus g" "enabled (on_vcpu v f g) = enabled g"
  "spi_pending (on_vcpu v f g) = spi_pending g" "spi_active (on_vcpu v f g) = spi_active g"
  "targets (on_vcpu v f g) = targets g" "dist_regs (on_vcpu v f g) = dist_regs g"
  "length (vcpu (on_vcpu v f g)) = length (vcpu g)" "dist_enabled (on_vcpu v f g) = dist_enabled g"
  by (simp_all add: on_vcpu_def)

lemma vcpu_on_vcpu: "unat v < length (vcpu g) \<Longrightarrow> vcpu (on_vcpu v f g) ! v' = (if v' = unat v then f (vcpu g ! v') else vcpu g ! v')"
  by (simp add: on_vcpu_def nth_list_update)

lemma length_upd2 [simp]: "length (upd2 a i j f) = length a"
  by (simp add: upd2_def)

lemma upd2_nth:
  "i < length a \<Longrightarrow> j < length (a ! i) \<Longrightarrow> upd2 a i j f ! i' ! j' = (if i' = i \<and> j' = j then f (a ! i ! j) else a ! i' ! j')"
  by (simp add: upd2_def nth_list_update)

lemma upd2_rows: "\<forall>x \<in> set a. length x = n \<Longrightarrow> i < length a \<Longrightarrow> \<forall>x \<in> set (upd2 a i j f). length x = n"
  by (auto simp: upd2_def dest!: set_update_subset_insert [THEN subsetD])

lemma vgic_okD:
  assumes "vgic_ok g" "valid_vcpu g v"
  shows "unat v < 12" "unat v < unat (nr_vcpus g)" "unat v < length (vcpu g)"
    "unat v < length (spi_pending g)" "length (spi_pending g ! unat v) = 32"
    "unat v < length (spi_active g)" "length (spi_active g ! unat v) = 32"
    "length (sgi_sources (vcpu g ! unat v)) = 16" "length (lr (vcpu g ! unat v)) = 4" "length (enabled g) = 32"
proof -
  show *: "unat v < unat (nr_vcpus g)" using assms by (simp add: valid_vcpu_def word_less_nat_alt)
  then show "unat v < 12" "unat v < length (vcpu g)" "unat v < length (spi_pending g)" "unat v < length (spi_active g)"
    "length (enabled g) = 32"
    using assms(1) by (simp_all add: vgic_ok_def)
  then show "length (spi_pending g ! unat v) = 32" "length (spi_active g ! unat v) = 32"
    "length (sgi_sources (vcpu g ! unat v)) = 16" "length (lr (vcpu g ! unat v)) = 4"
    using assms(1) by (simp_all add: vgic_ok_def)
qed

lemma vgic_ok_on_vcpu:
  assumes "vgic_ok g" "length (sgi_sources (f (vcpu g ! unat v))) = 16" "length (lr (f (vcpu g ! unat v))) = 4"
  shows "vgic_ok (on_vcpu v f g)"
  using assms by (auto simp: vgic_ok_def on_vcpu_def dest!: set_update_subset_insert [THEN subsetD])

lemmas word_defs = pword_def aword_def eword_def

lemma irq_word: "valid_irq irq \<Longrightarrow> unat (irq div 32) = unat irq div 32 \<and> unat irq div 32 < 32"
  by (simp add: valid_irq_def word_less_nat_alt unat_div_distrib)

lemma irq_low: "(irq :: u32) < 32 \<Longrightarrow> unat irq div 32 = 0" "\<not> (irq :: u32) < 32 \<Longrightarrow> 0 < unat irq div 32"
  by (simp_all add: word_less_nat_alt)

text \<open>Every operation as an operation on the words.\<close>

lemma vgic_ok_upd2:
  assumes "vgic_ok g" "valid_vcpu g v"
  shows "vgic_ok (g\<lparr>spi_pending := upd2 (spi_pending g) (unat v) w f\<rparr>)"
    "vgic_ok (g\<lparr>spi_active := upd2 (spi_active g) (unat v) w f\<rparr>)"
proof -
  have r: "\<forall>x \<in> set (spi_pending g). length x = 32" "\<forall>x \<in> set (spi_active g). length x = 32"
    using assms(1) by (simp_all add: vgic_ok_def)
  show "vgic_ok (g\<lparr>spi_pending := upd2 (spi_pending g) (unat v) w f\<rparr>)"
    using assms(1) upd2_rows [OF r(1) vgic_okD(4) [OF assms], of w f] by (simp add: vgic_ok_def)
  show "vgic_ok (g\<lparr>spi_active := upd2 (spi_active g) (unat v) w f\<rparr>)"
    using assms(1) upd2_rows [OF r(2) vgic_okD(6) [OF assms], of w f] by (simp add: vgic_ok_def)
qed

lemma pword_upd:
  assumes "vgic_ok g" "valid_vcpu g v" "w < 32"
  shows "0 < w \<Longrightarrow> pword (g\<lparr>spi_pending := upd2 (spi_pending g) (unat v) w f\<rparr>) v' w' =
      (if v' = unat v \<and> w' = w then f (pword g v' w') else pword g v' w')"
    "0 < w \<Longrightarrow> aword (g\<lparr>spi_active := upd2 (spi_active g) (unat v) w f\<rparr>) v' w' =
      (if v' = unat v \<and> w' = w then f (aword g v' w') else aword g v' w')"
  using vgic_okD [OF assms(1,2)] assms(3) by (auto simp: pword_def aword_def upd2_nth)

lemma word_frames [simp]:
  "aword (g\<lparr>spi_pending := x\<rparr>) = aword g" "eword (g\<lparr>spi_pending := x\<rparr>) = eword g"
  "pword (g\<lparr>spi_active := x\<rparr>) = pword g" "eword (g\<lparr>spi_active := x\<rparr>) = eword g"
  "pword (g\<lparr>enabled := y\<rparr>) = pword g" "aword (g\<lparr>enabled := y\<rparr>) = aword g"
  by (simp_all add: word_defs fun_eq_iff)

lemma word_on_vcpu:
  assumes "vgic_ok g" "valid_vcpu g v"
  shows "pword (on_vcpu v f g) v' w = (if v' = unat v \<and> w = 0 then pending0 (f (vcpu g ! v')) else pword g v' w)"
    "aword (on_vcpu v f g) v' w = (if v' = unat v \<and> w = 0 then active0 (f (vcpu g ! v')) else aword g v' w)"
    "eword (on_vcpu v f g) v' w = (if v' = unat v \<and> w = 0 then enabled0 (f (vcpu g ! v')) OR SGI_MASK else eword g v' w)"
  using vgic_okD [OF assms] by (auto simp: word_defs vcpu_on_vcpu)

text \<open>The two shapes of a change of the pending state.\<close>

lemma set_pending_cases:
  obtains (skip) "vmm_vgic_set_pending g v irq = g" "\<not> (valid_vcpu g v \<and> valid_irq irq)"
  | (low) f where "valid_vcpu g v" "valid_irq irq" "irq < 32" "vmm_vgic_set_pending g v irq = on_vcpu v f g"
      "\<And>c. enabled0 (f c) = enabled0 c" "\<And>c. active0 (f c) = active0 c" "\<And>c. pending0 (f c) = pending0 c OR irq_bit irq"
      "\<And>c. length (sgi_sources (f c)) = length (sgi_sources c)" "\<And>c. lr (f c) = lr c"
  | (spi) "valid_vcpu g v" "valid_irq irq" "\<not> irq < 32"
      "vmm_vgic_set_pending g v irq = g\<lparr>spi_pending := upd2 (spi_pending g) (unat v) (unat irq div 32) (\<lambda>x. x OR irq_bit irq)\<rparr>"
proof (cases "valid_vcpu g v \<and> valid_irq irq")
  case False
  then show thesis by (intro skip) (auto simp: vmm_vgic_set_pending_def vmm_vgic_set_sgi_pending_def)
next
  case True
  consider "irq < 16" "irq < 32" | "\<not> irq < 16" "irq < 32" | "\<not> irq < 16" "\<not> irq < 32"
    using less_trans [of irq 16 32] by auto
  then show thesis
  proof cases
    case 1
    with True show thesis
      by (intro low [of "\<lambda>c. c\<lparr>sgi_sources := (sgi_sources c)[unat irq := sgi_sources c ! unat irq OR push_bit 0 1],
          pending0 := pending0 c OR irq_bit irq\<rparr>"])
        (simp_all add: vmm_vgic_set_pending_def vmm_vgic_set_sgi_pending_def Let_def)
  next
    case 2
    with True show thesis
      by (intro low [of "\<lambda>c. c\<lparr>pending0 := pending0 c OR irq_bit irq\<rparr>"]) (simp_all add: vmm_vgic_set_pending_def)
  next
    case 3
    with True show thesis using irq_word [of irq] by (intro spi) (simp_all add: vmm_vgic_set_pending_def)
  qed
qed

text \<open>What a well-formed operation makes of the words.\<close>

definition words_are ::
  "vgic_t \<Rightarrow> vgic_t \<Rightarrow> (nat \<Rightarrow> nat \<Rightarrow> u32) \<Rightarrow> (nat \<Rightarrow> nat \<Rightarrow> u32) \<Rightarrow> (nat \<Rightarrow> nat \<Rightarrow> u32) \<Rightarrow> bool" where
  "words_are g g' P A E \<longleftrightarrow>
     vgic_ok g' \<and> nr_vcpus g' = nr_vcpus g \<and> targets g' = targets g \<and> pword g' = P \<and> aword g' = A \<and> eword g' = E"

definition at_word :: "bool \<Rightarrow> nat \<Rightarrow> nat \<Rightarrow> (u32 \<Rightarrow> u32) \<Rightarrow> (nat \<Rightarrow> nat \<Rightarrow> u32) \<Rightarrow> nat \<Rightarrow> nat \<Rightarrow> u32" where
  "at_word b v w f x = (\<lambda>v' w'. if b \<and> v' = v \<and> w' = w then f (x v' w') else x v' w')"

lemma at_word_False [simp]: "at_word False v w f x = x"
  by (simp add: at_word_def)

lemma words_are_refl: "vgic_ok g \<Longrightarrow> words_are g g (pword g) (aword g) (eword g)"
  by (simp add: words_are_def)

lemma words_on_vcpu:
  assumes "vgic_ok g" "valid_vcpu g v"
    and "length (sgi_sources (f (vcpu g ! unat v))) = 16" "length (lr (f (vcpu g ! unat v))) = 4"
  shows "words_are g (on_vcpu v f g) (at_word True (unat v) 0 (\<lambda>_. pending0 (f (vcpu g ! unat v))) (pword g))
    (at_word True (unat v) 0 (\<lambda>_. active0 (f (vcpu g ! unat v))) (aword g))
    (at_word True (unat v) 0 (\<lambda>_. enabled0 (f (vcpu g ! unat v)) OR SGI_MASK) (eword g))"
  using assms vgic_ok_on_vcpu [of g f v] by (auto simp: words_are_def fun_eq_iff at_word_def word_on_vcpu)

lemma words_spi:
  assumes "vgic_ok g" "valid_vcpu g v" "0 < w" "w < 32"
  shows "words_are g (g\<lparr>spi_pending := upd2 (spi_pending g) (unat v) w f\<rparr>) (at_word True (unat v) w f (pword g)) (aword g) (eword g)"
    "words_are g (g\<lparr>spi_active := upd2 (spi_active g) (unat v) w f\<rparr>) (pword g) (at_word True (unat v) w f (aword g)) (eword g)"
  using assms vgic_ok_upd2 [OF assms(1,2)] by (simp_all add: words_are_def fun_eq_iff at_word_def pword_upd)

lemma at_word_same: "x v w = y \<Longrightarrow> at_word b v w (\<lambda>_. y) x = x"
  by (auto simp: at_word_def fun_eq_iff)

lemma at_word_const: "at_word True v w (\<lambda>_. f (x v w)) x = at_word True v w f x"
  by (auto simp: at_word_def fun_eq_iff)

text \<open>The word operations of the code: a change of one banked or shared word.\<close>

lemma set_pending_words:
  assumes ok: "vgic_ok g"
  shows "words_are g (vmm_vgic_set_pending g v irq)
    (at_word (valid_vcpu g v \<and> valid_irq irq) (unat v) (unat irq div 32) (\<lambda>x. x OR irq_bit irq) (pword g)) (aword g) (eword g)"
proof (cases rule: set_pending_cases [of g v irq])
  case skip
  then show ?thesis using words_are_refl [OF ok] by (auto simp: at_word_def)
next
  case (low f)
  have p: "pending0 (f (vcpu g ! unat v)) = pword g (unat v) 0 OR irq_bit irq"
    "active0 (f (vcpu g ! unat v)) = aword g (unat v) 0"
    "enabled0 (f (vcpu g ! unat v)) OR SGI_MASK = eword g (unat v) 0"
    using low by (simp_all add: word_defs)
  have l: "length (sgi_sources (f (vcpu g ! unat v))) = 16" "length (lr (f (vcpu g ! unat v))) = 4"
    using vgic_okD [OF ok low(1)] low(8,9) by simp_all
  show ?thesis
    using words_on_vcpu [OF ok low(1), of f, OF l] low(1,2) irq_low(1) [OF low(3)]
    by (simp only: p at_word_same [OF refl] at_word_const [where f = "\<lambda>x. x OR irq_bit irq"] low(4) simp_thms)
next
  case spi
  then show ?thesis
    using words_spi(1) [OF ok spi(1) irq_low(2) [OF spi(3)] conjunct2 [OF irq_word [OF spi(2)]]] by (simp only: simp_thms)
qed

lemma clear_word_words:
  assumes ok: "vgic_ok g"
  shows "words_are g (vmm_vgic_clear_pending_word g v w bits)
      (at_word (valid_vcpu g v \<and> unat w < 32) (unat v) (unat w) (\<lambda>x. x AND NOT bits) (pword g)) (aword g) (eword g)"
    "words_are g (vmm_vgic_clear_active_word g v w bits) (pword g)
      (at_word (valid_vcpu g v \<and> unat w < 32) (unat v) (unat w) (\<lambda>x. x AND NOT bits) (aword g)) (eword g)"
proof -
  have low: "words_are g (on_vcpu v (\<lambda>c. c\<lparr>pending0 := pending0 c AND NOT bits\<rparr>) g)
        (at_word True (unat v) 0 (\<lambda>x. x AND NOT bits) (pword g)) (aword g) (eword g)"
      "words_are g (on_vcpu v (\<lambda>c. c\<lparr>active0 := active0 c AND NOT bits\<rparr>) g)
        (pword g) (at_word True (unat v) 0 (\<lambda>x. x AND NOT bits) (aword g)) (eword g)"
    if v: "valid_vcpu g v"
    using words_on_vcpu [OF ok v, of "\<lambda>c. c\<lparr>pending0 := pending0 c AND NOT bits\<rparr>"]
      words_on_vcpu [OF ok v, of "\<lambda>c. c\<lparr>active0 := active0 c AND NOT bits\<rparr>"] vgic_okD [OF ok v]
    by (simp_all add: at_word_def word_defs fun_eq_iff words_are_def)
  consider (skip) "\<not> (valid_vcpu g v \<and> unat w < 32)" | (zero) "valid_vcpu g v" "w = 0"
    | (spi) "valid_vcpu g v" "unat w < 32" "w \<noteq> 0" "0 < unat w" by (auto simp: unat_gt_0)
  note C = this
  show "words_are g (vmm_vgic_clear_pending_word g v w bits)
      (at_word (valid_vcpu g v \<and> unat w < 32) (unat v) (unat w) (\<lambda>x. x AND NOT bits) (pword g)) (aword g) (eword g)"
    using C
  proof cases
    case skip
    then show ?thesis using words_are_refl [OF ok] by (auto simp: vmm_vgic_clear_pending_word_def at_word_def)
  next
    case zero
    then show ?thesis using low(1) by (simp add: vmm_vgic_clear_pending_word_def)
  next
    case spi
    then show ?thesis using words_spi(1) [OF ok spi(1,4,2)] by (simp add: vmm_vgic_clear_pending_word_def)
  qed
  show "words_are g (vmm_vgic_clear_active_word g v w bits) (pword g)
      (at_word (valid_vcpu g v \<and> unat w < 32) (unat v) (unat w) (\<lambda>x. x AND NOT bits) (aword g)) (eword g)"
    using C
  proof cases
    case skip
    then show ?thesis using words_are_refl [OF ok] by (auto simp: vmm_vgic_clear_active_word_def at_word_def)
  next
    case zero
    then show ?thesis using low(2) by (simp add: vmm_vgic_clear_active_word_def)
  next
    case spi
    then show ?thesis using words_spi(2) [OF ok spi(1,4,2)] by (simp add: vmm_vgic_clear_active_word_def)
  qed
qed

text \<open>An end of interrupt clears one bit of an active word, which is what the clear-active register does.\<close>

lemma eoi_clear_active:
  "vmm_vgic_eoi g v irq = (if valid_irq irq then vmm_vgic_clear_active_word g v (irq div 32) (irq_bit irq) else g)"
proof (cases "valid_irq irq")
  case True
  have "irq div 32 = 0 \<longleftrightarrow> irq < 32"
    by (simp add: word_unat_eq_iff word_less_nat_alt unat_div_distrib div_eq_0_iff)
  then show ?thesis using True irq_word [OF True]
    by (auto simp: vmm_vgic_eoi_def vmm_vgic_clear_active_word_def)
qed (simp add: vmm_vgic_eoi_def)

section \<open>Sets of interrupts\<close>

lemma words_abs:
  "words_are g g' P A E \<Longrightarrow>
   vgic_abs g' = (let n = unat (nr_vcpus g) in \<lparr>g_pend = irqs n P, g_act = irqs n A, g_en = irqs n E\<rparr>)"
  by (simp add: words_are_def vgic_abs_def)

lemma bit_at_word:
  "bit (at_word b v (unat irq div 32) (\<lambda>x. x OR irq_bit irq) P v' (i div 32)) (i mod 32) \<longleftrightarrow>
     bit (P v' (i div 32)) (i mod 32) \<or> b \<and> v' = v \<and> i = unat irq"
  "bit (at_word b v (unat irq div 32) (\<lambda>x. x AND NOT (irq_bit irq)) P v' (i div 32)) (i mod 32) \<longleftrightarrow>
     bit (P v' (i div 32)) (i mod 32) \<and> \<not> (b \<and> v' = v \<and> i = unat irq)"
  "bit (at_word b v w (\<lambda>x. x AND NOT y) P v' (i div 32)) (i mod 32) \<longleftrightarrow>
     bit (P v' (i div 32)) (i mod 32) \<and> \<not> (b \<and> v' = v \<and> i div 32 = w \<and> bit y (i mod 32))"
  unfolding div_mod_eq [symmetric] by (auto simp: at_word_def bit_or_iff bit_and_iff bit_not_iff bit_irq_bit)

lemma irqs_or:
  "irqs n (at_word b v (unat irq div 32) (\<lambda>x. x OR irq_bit irq) P) =
   irqs n P \<union> (if b \<and> v < n \<and> unat irq < 1024 then {(v, unat irq)} else {})"
  unfolding irqs_def bit_at_word by auto

lemma irqs_clear:
  "irqs n (at_word b v (unat irq div 32) (\<lambda>x. x AND NOT (irq_bit irq)) P) = irqs n P - (if b then {(v, unat irq)} else {})"
  unfolding irqs_def bit_at_word(2) by auto

lemma irqs_and_not:
  "irqs n (at_word b v w (\<lambda>x. x AND NOT y) P) = irqs n P - {(v, i) |i. b \<and> i div 32 = w \<and> bit y (i mod 32)}"
  unfolding irqs_def bit_at_word by auto

section \<open>The next interrupt\<close>

definition rword :: "vgic_t \<Rightarrow> nat \<Rightarrow> nat \<Rightarrow> u32" where
  "rword g v w = pword g v w AND eword g v w AND NOT (aword g v w)"

lemma ready_rword:
  "v < unat (nr_vcpus g) \<Longrightarrow> ready (vgic_abs g) v = {i. i < 1024 \<and> bit (rword g v (i div 32)) (i mod 32)}"
  by (auto simp: ready_def vgic_abs_def Let_def irqs_def rword_def bit_simps)

lemma sint_small: "n < 2147483648 \<Longrightarrow> sint (of_nat n :: u32) = int n"
  by (simp add: signed_of_nat signed_take_bit_int_eq_self)

text \<open>The lowest interrupt of a word that has one.\<close>

lemma lowest_irq_bit:
  assumes "x \<noteq> 0" "w < 32"
  obtains k where "bit x k" "\<And>i. i < k \<Longrightarrow> \<not> bit x i" "k < 32" "sint (lowest_irq x (of_nat w * 32)) = int (32 * w + k)"
proof -
  obtain k where k: "bit x k" "\<And>i. i < k \<Longrightarrow> \<not> bit x i" "k < 32"
    using lowest_bit_ex [OF assms(1)] by auto
  have "lowest_irq x (of_nat w * 32) = of_nat (32 * w + k)"
    using lowest_bit_number [OF k(1,2), of 0] by (simp add: lowest_irq_def)
  moreover have "sint (of_nat (32 * w + k) :: u32) = int (32 * w + k)"
    using k(3) assms(2) by (intro sint_small) simp
  ultimately show thesis using k by (intro that) simp_all
qed

definition least_irq :: "nat set \<Rightarrow> int" where
  "least_irq R = (if R = {} then - 1 else int (Min R))"

lemma least_irq_word:
  fixes f :: "nat \<Rightarrow> u32"
  assumes w: "w < 32" and R: "R = {i. 32 * w \<le> i \<and> i < 1024 \<and> bit (f (i div 32)) (i mod 32)}"
  shows "f w \<noteq> 0 \<Longrightarrow> least_irq R = sint (lowest_irq (f w) (of_nat w * 32))"
    "f w = 0 \<Longrightarrow> R = {i. 32 * Suc w \<le> i \<and> i < 1024 \<and> bit (f (i div 32)) (i mod 32)}"
proof -
  assume "f w \<noteq> 0"
  then obtain k where k: "bit (f w) k" "\<And>i. i < k \<Longrightarrow> \<not> bit (f w) i" "k < 32"
    "sint (lowest_irq (f w) (of_nat w * 32)) = int (32 * w + k)" using lowest_irq_bit [OF _ w] by metis
  have "32 * w + k \<in> R" using k w by (simp add: R)
  moreover have "32 * w + k \<le> i" if "i \<in> R" for i
  proof (rule ccontr)
    assume l: "\<not> 32 * w + k \<le> i"
    moreover have "32 * w \<le> i" using that by (simp add: R)
    ultimately have d: "i div 32 = w" using k(3) by linarith
    have "i = 32 * (i div 32) + i mod 32" by simp
    then have "i mod 32 < k" using l d by linarith
    note d this
    then show False using that k(2) by (auto simp: R)
  qed
  moreover have "finite R" by (simp add: R)
  ultimately have "Min R = 32 * w + k" "R \<noteq> {}" by (auto intro: Min_eqI)
  then show "least_irq R = sint (lowest_irq (f w) (of_nat w * 32))" by (simp add: least_irq_def k(4))
next
  assume z: "f w = 0"
  have "i div 32 \<noteq> w" if "bit (f (i div 32)) (i mod 32)" for i using that z by auto
  then show "R = {i. 32 * Suc w \<le> i \<and> i < 1024 \<and> bit (f (i div 32)) (i mod 32)}"
    unfolding R by (force simp: div_le_mono)
qed

lemma next_spi_least:
  assumes "word + n = 32" "0 < word"
  shows "next_spi n g v word = least_irq {i. 32 * word \<le> i \<and> i < 1024 \<and> bit (rword g (unat v) (i div 32)) (i mod 32)}"
  using assms
proof (induction n arbitrary: word)
  case 0
  then show ?case by (auto simp: least_irq_def)
next
  case (Suc n)
  let ?R = "{i. 32 * word \<le> i \<and> i < 1024 \<and> bit (rword g (unat v) (i div 32)) (i mod 32)}"
  have w: "word < 32" using Suc.prems by simp
  have r: "spi_pending g ! unat v ! word AND enabled g ! word AND NOT (spi_active g ! unat v ! word) = rword g (unat v) word"
    using Suc.prems by (simp add: rword_def word_defs)
  show ?case
  proof (cases "rword g (unat v) word = 0")
    case True
    have "next_spi n g v (Suc word) = least_irq ?R"
      using Suc.IH [of "Suc word"] Suc.prems least_irq_word(2) [OF w refl, of "rword g (unat v)"] True by simp
    then show ?thesis using True by (simp add: r)
  next
    case False
    then show ?thesis using least_irq_word(1) [OF w refl, of "rword g (unat v)"] by (simp add: r)
  qed
qed

lemma next_pending_least:
  assumes v: "valid_vcpu g v"
  shows "vmm_vgic_next_pending g v = least_irq (ready (vgic_abs g) (unat v))"
proof -
  let ?f = "rword g (unat v)"
  have R: "ready (vgic_abs g) (unat v) = {i. 32 * 0 \<le> i \<and> i < 1024 \<and> bit (?f (i div 32)) (i mod 32)}"
    using v by (subst ready_rword) (simp_all add: valid_vcpu_def word_less_nat_alt)
  have r: "pending0 (vcpu g ! unat v) AND (enabled0 (vcpu g ! unat v) OR SGI_MASK) AND NOT (active0 (vcpu g ! unat v)) = ?f 0"
    by (simp add: rword_def word_defs)
  show ?thesis
  proof (cases "?f 0 = 0")
    case True
    have "vmm_vgic_next_pending g v = next_spi 31 g v 1"
      using v True by (simp only: vmm_vgic_next_pending_def Let_def r) simp
    also have "\<dots> = least_irq (ready (vgic_abs g) (unat v))"
      using next_spi_least [of 1 31 g v] least_irq_word(2) [OF _ R] True by simp
    finally show ?thesis .
  next
    case False
    have "vmm_vgic_next_pending g v = sint (lowest_irq (?f 0) 0)"
      using v False by (simp only: vmm_vgic_next_pending_def Let_def r) simp
    also have "\<dots> = least_irq (ready (vgic_abs g) (unat v))"
      using least_irq_word(1) [OF _ R] False by simp
    finally show ?thesis .
  qed
qed

lemma ready_bounded: "i \<in> ready (vgic_abs g) v \<Longrightarrow> i < 1024 \<and> v < unat (nr_vcpus g)"
  by (auto simp: ready_def vgic_abs_def Let_def irqs_def)

lemma least_irq_cases:
  assumes "ready (vgic_abs g) v \<noteq> {}"
  obtains i where "i \<in> ready (vgic_abs g) v" "\<And>j. j \<in> ready (vgic_abs g) v \<Longrightarrow> i \<le> j" "least_irq (ready (vgic_abs g) v) = int i"
    "i < 1024" "unat (of_nat i :: u32) = i"
proof -
  have "ready (vgic_abs g) v \<subseteq> {..<1024}" using ready_bounded by auto
  then have f: "finite (ready (vgic_abs g) v)" by (rule finite_subset) simp
  let ?i = "Min (ready (vgic_abs g) v)"
  have i: "?i \<in> ready (vgic_abs g) v" using f assms by (rule Min_in)
  show thesis
    using i f assms ready_bounded [OF i] by (intro that [of ?i]) (simp_all add: least_irq_def unat_of_nat)
qed

section \<open>List registers keep the interrupt state\<close>

lemma words_lr:
  assumes "vgic_ok g" "valid_vcpu g v"
  shows "words_are g (on_vcpu v (\<lambda>c. c\<lparr>lr := (lr c)[i := x]\<rparr>) g) (pword g) (aword g) (eword g)"
  using words_on_vcpu [OF assms, of "\<lambda>c. c\<lparr>lr := (lr c)[i := x]\<rparr>"] vgic_okD [OF assms]
  by (simp add: at_word_def word_defs fun_eq_iff words_are_def)

lemma words_trans: "words_are g g' P A E \<Longrightarrow> words_are g' g'' P' A' E' \<Longrightarrow> words_are g g'' P' A' E'"
  by (simp add: words_are_def)

lemma words_valid: "words_are g g' P A E \<Longrightarrow> valid_vcpu g' v = valid_vcpu g v"
  by (simp add: words_are_def valid_vcpu_def)

lemma lr_on_vcpu:
  assumes "vgic_ok g" "valid_vcpu g v"
  shows "lr (vcpu (on_vcpu v (\<lambda>c. c\<lparr>lr := (lr c)[i := x]\<rparr>) g) ! v') =
    (if v' = unat v then (lr (vcpu g ! v'))[i := x] else lr (vcpu g ! v'))"
  using vgic_okD [OF assms] by (simp add: vcpu_on_vcpu)

text \<open>The cached list registers of a virtual CPU after the first \<open>n\<close> rounds of the clearing loop.\<close>

lemma clear_lr_fold:
  fixes m :: gic_machine and v irq :: u32 and n :: nat
  assumes ok: "vgic_ok (gm_vgic m)" and v: "valid_vcpu (gm_vgic m) v" and "n \<le> 4"
  defines "m' \<equiv> fold (clear_lr_step v irq) [0..<n] m"
  shows "words_are (gm_vgic m) (gm_vgic m') (pword (gm_vgic m)) (aword (gm_vgic m)) (eword (gm_vgic m)) \<and>
    (\<forall>i < 4. lr (vcpu (gm_vgic m') ! unat v) ! i =
       (if i < n \<and> lr_holds (lr (vcpu (gm_vgic m) ! unat v) ! i) irq then 0 else lr (vcpu (gm_vgic m) ! unat v) ! i))"
  using \<open>n \<le> 4\<close> unfolding m'_def
proof (induction n)
  case 0
  then show ?case using words_are_refl [OF ok] by simp
next
  case (Suc n)
  let ?m = "fold (clear_lr_step v irq) [0..<n] m"
  have w: "words_are (gm_vgic m) (gm_vgic ?m) (pword (gm_vgic m)) (aword (gm_vgic m)) (eword (gm_vgic m))"
    and l: "\<forall>i < 4. lr (vcpu (gm_vgic ?m) ! unat v) ! i =
       (if i < n \<and> lr_holds (lr (vcpu (gm_vgic m) ! unat v) ! i) irq then 0 else lr (vcpu (gm_vgic m) ! unat v) ! i)"
    using Suc by simp_all
  have o: "vgic_ok (gm_vgic ?m)" and v': "valid_vcpu (gm_vgic ?m) v" using w v words_valid [OF w] by (simp_all add: words_are_def)
  have s: "fold (clear_lr_step v irq) [0..<Suc n] m = clear_lr_step v irq n ?m" by simp
  have n: "n < 4" "lr (vcpu (gm_vgic ?m) ! unat v) ! n = lr (vcpu (gm_vgic m) ! unat v) ! n" using l Suc.prems by simp_all
  show ?case
  proof (cases "lr_holds (lr (vcpu (gm_vgic m) ! unat v) ! n) irq")
    case True
    have g: "gm_vgic (clear_lr_step v irq n ?m) = on_vcpu v (\<lambda>c. c\<lparr>lr := (lr c)[n := 0]\<rparr>) (gm_vgic ?m)"
      using True n(2) by (simp add: clear_lr_step_def gic_write_lr_def)
    have "lr (vcpu (gm_vgic (clear_lr_step v irq n ?m)) ! unat v) = (lr (vcpu (gm_vgic ?m) ! unat v))[n := 0]"
      unfolding g lr_on_vcpu [OF o v'] by simp
    moreover have "words_are (gm_vgic m) (gm_vgic (clear_lr_step v irq n ?m)) (pword (gm_vgic m)) (aword (gm_vgic m)) (eword (gm_vgic m))"
      using w words_lr [OF o v', of n 0] unfolding g by (simp add: words_are_def)
    ultimately show ?thesis
      unfolding s using l n(1) True vgic_okD(9) [OF o v'] by (auto simp: nth_list_update less_Suc_eq)
  next
    case False
    then have "clear_lr_step v irq n ?m = ?m" using n(2) by (simp add: clear_lr_step_def)
    then show ?thesis unfolding s using w l False by (auto simp: less_Suc_eq)
  qed
qed

lemma clear_lr_irq:
  assumes "vgic_ok (gm_vgic m)" "valid_vcpu (gm_vgic m) v"
  shows "words_are (gm_vgic m) (gm_vgic (vgicc_clear_lr_irq m v irq)) (pword (gm_vgic m)) (aword (gm_vgic m)) (eword (gm_vgic m))"
    "\<not> vgicc_lr_has_irq (gm_vgic (vgicc_clear_lr_irq m v irq)) v irq"
proof -
  note F = clear_lr_fold [OF assms order_refl, of irq]
  have e: "vgicc_clear_lr_irq m v irq = fold (clear_lr_step v irq) [0..<4] m"
    using assms(2) by (simp only: vgicc_clear_lr_irq_def simp_thms if_False)
  show w: "words_are (gm_vgic m) (gm_vgic (vgicc_clear_lr_irq m v irq)) (pword (gm_vgic m)) (aword (gm_vgic m)) (eword (gm_vgic m))"
    unfolding e using F by blast
  have "\<not> lr_holds (lr (vcpu (gm_vgic (fold (clear_lr_step v irq) [0..<4] m)) ! unat v) ! i) irq" if "i < 4" for i
    using F that by (auto simp: lr_holds_def)
  then show "\<not> vgicc_lr_has_irq (gm_vgic (vgicc_clear_lr_irq m v irq)) v irq"
    unfolding e by (simp only: vgicc_lr_has_irq_def list_ex_iff set_upt) auto
qed

section \<open>Acknowledge\<close>

lemma ack_words:
  assumes ok: "vgic_ok (gm_vgic m)" and v: "valid_vcpu (gm_vgic m) v" and r: "vmm_vgic_next_pending (gm_vgic m) v = int i"
    and i: "i < 1024"
  obtains m' where "vmm_vgic_ack m v = (int i, m')"
    "words_are (gm_vgic m) (gm_vgic m')
       (at_word True (unat v) (i div 32) (\<lambda>x. x AND NOT (irq_bit (of_nat i))) (pword (gm_vgic m)))
       (at_word True (unat v) (i div 32) (\<lambda>x. x OR irq_bit (of_nat i)) (aword (gm_vgic m))) (eword (gm_vgic m))"
    "\<not> vgicc_lr_has_irq (gm_vgic m') v (of_nat i)"
proof -
  let ?g = "gm_vgic m" and ?irq = "of_nat i :: u32"
  have u: "unat ?irq = i" using i by (simp add: unat_of_nat)
  define f :: "vgic_vcpu_state_t \<Rightarrow> vgic_vcpu_state_t" where "f = (\<lambda>c. let c = c\<lparr>pending0 := pending0 c AND NOT (irq_bit ?irq)\<rparr>;
        c = (if ?irq < 16 then c\<lparr>sgi_sources := (sgi_sources c)[unat ?irq := 0]\<rparr> else c)
      in c\<lparr>active0 := active0 c OR irq_bit ?irq\<rparr>)"
  define g1 where "g1 = (if ?irq < 32 then on_vcpu v f ?g
      else ?g\<lparr>spi_pending := upd2 (spi_pending ?g) (unat v) (unat (?irq div 32)) (\<lambda>x. x AND NOT (irq_bit ?irq)),
              spi_active := upd2 (spi_active ?g) (unat v) (unat (?irq div 32)) (\<lambda>x. x OR irq_bit ?irq)\<rparr>)"
  have "words_are ?g g1 (at_word True (unat v) (i div 32) (\<lambda>x. x AND NOT (irq_bit ?irq)) (pword ?g))
       (at_word True (unat v) (i div 32) (\<lambda>x. x OR irq_bit ?irq) (aword ?g)) (eword ?g)"
  proof (cases "?irq < 32")
    case True
    have l: "length (sgi_sources (f (vcpu ?g ! unat v))) = 16" "length (lr (f (vcpu ?g ! unat v))) = 4"
      using vgic_okD [OF ok v] by (simp_all add: f_def Let_def)
    have p: "pending0 (f (vcpu ?g ! unat v)) = pword ?g (unat v) 0 AND NOT (irq_bit ?irq)"
      "active0 (f (vcpu ?g ! unat v)) = aword ?g (unat v) 0 OR irq_bit ?irq"
      "enabled0 (f (vcpu ?g ! unat v)) OR SGI_MASK = eword ?g (unat v) 0"
      by (simp_all add: f_def word_defs Let_def)
    have z: "i div 32 = 0" using irq_low(1) [OF True] u by simp
    show ?thesis
      using words_on_vcpu [OF ok v, of f, OF l] True
      by (simp only: p g1_def if_True at_word_same [OF refl] at_word_const [where f = "\<lambda>x. x OR irq_bit ?irq"]
          at_word_const [where f = "\<lambda>x. x AND NOT (irq_bit ?irq)"] z)
  next
    case False
    have w: "0 < i div 32" "i div 32 < 32" "unat (?irq div 32) = i div 32"
      using irq_low(2) [OF False] u i by (simp_all add: unat_div_distrib)
    let ?g2 = "?g\<lparr>spi_pending := upd2 (spi_pending ?g) (unat v) (i div 32) (\<lambda>x. x AND NOT (irq_bit ?irq))\<rparr>"
    have a: "words_are ?g ?g2 (at_word True (unat v) (i div 32) (\<lambda>x. x AND NOT (irq_bit ?irq)) (pword ?g)) (aword ?g) (eword ?g)"
      by (rule words_spi(1) [OF ok v w(1,2)])
    have o2: "vgic_ok ?g2" "valid_vcpu ?g2 v" using a v words_valid [OF a] by (simp_all add: words_are_def)
    have b: "words_are ?g2 g1 (pword ?g2) (at_word True (unat v) (i div 32) (\<lambda>x. x OR irq_bit ?irq) (aword ?g2)) (eword ?g2)"
      using words_spi(2) [OF o2 w(1,2), of "\<lambda>x. x OR irq_bit ?irq"] False by (simp add: g1_def w(3))
    show ?thesis using a b by (simp add: words_are_def)
  qed
  note w1 = this
  let ?m1 = "m\<lparr>gm_vgic := g1\<rparr>"
  have ok1: "vgic_ok (gm_vgic ?m1)" "valid_vcpu (gm_vgic ?m1) v" using w1 v words_valid [OF w1] by (simp_all add: words_are_def)
  have "vmm_vgic_ack m v = (int i, vgicc_clear_lr_irq ?m1 v ?irq)"
    by (simp add: vmm_vgic_ack_def r Let_def g1_def f_def)
  then show thesis
    using clear_lr_irq [OF ok1, of ?irq] w1 by (intro that) (auto simp: words_are_def)
qed

section \<open>Distributor registers as set operations\<close>

lemma mask_test: "(x :: u32) AND push_bit k 1 \<noteq> 0 \<longleftrightarrow> bit x k"
  by (simp only: bit_iff_and_push_bit_not_eq_0)

text \<open>The interrupts whose enable state the register bit of \<open>irq\<close> controls: banked below 32, shared from there on.\<close>

definition banked :: "vgic_t \<Rightarrow> u32 \<Rightarrow> nat \<Rightarrow> (nat \<times> nat) set" where
  "banked g v i =
     (if i < 16 \<or> 1020 \<le> i then {}
      else if i < 32 then (if valid_vcpu g v then {(unat v, i)} else {})
      else {..<unat (nr_vcpus g)} \<times> {i})"

definition en_op :: "bool \<Rightarrow> (nat \<times> nat) set \<Rightarrow> (nat \<times> nat) set \<Rightarrow> (nat \<times> nat) set" where
  "en_op en S T = (if en then S \<union> T else S - T)"

definition op_word :: "bool \<Rightarrow> u32 \<Rightarrow> u32 \<Rightarrow> u32" where
  "op_word en b x = (if en then x OR b else x AND NOT b)"

lemma sgi_mask_bit: "bit SGI_MASK k \<longleftrightarrow> k < 16"
proof -
  have m: "SGI_MASK = mask 16" by (simp add: mask_eq_exp_minus_1)
  show ?thesis unfolding m by (auto simp: bit_mask_iff)
qed

lemma set_enabled_eword:
  fixes g :: vgic_t and v irq :: u32
  assumes ok: "vgic_ok g" and irq: "valid_irq irq" "\<not> irq < 16"
  defines "hit \<equiv> \<lambda>v' w. w = unat irq div 32 \<and> (irq < 32 \<longrightarrow> valid_vcpu g v \<and> v' = unat v)"
  shows "words_are g (vmm_vgic_set_enabled g v irq en) (pword g) (aword g)
    (\<lambda>v' w. if hit v' w then op_word en (irq_bit irq) (eword g v' w) else eword g v' w)"
proof (cases "irq < 32")
  case True
  have z: "unat irq div 32 = 0" using irq_low(1) [OF True] .
  show ?thesis
  proof (cases "valid_vcpu g v")
    case False
    then show ?thesis
      using True irq words_are_refl [OF ok] by (simp add: vmm_vgic_set_enabled_def hit_def)
  next
    case v: True
    define f where "f = (\<lambda>c :: vgic_vcpu_state_t. c\<lparr>enabled0 := op_word en (irq_bit irq) (enabled0 c)\<rparr>)"
    have e: "vmm_vgic_set_enabled g v irq en = on_vcpu v f g"
      using True v irq by (simp add: vmm_vgic_set_enabled_def f_def op_word_def)
    have nb: "\<not> bit SGI_MASK (unat irq mod 32)"
      using True irq(2) by (simp only: sgi_mask_bit) (simp add: word_less_nat_alt)
    have "op_word en (irq_bit irq) (enabled0 (vcpu g ! unat v)) OR SGI_MASK = op_word en (irq_bit irq) (eword g (unat v) 0)"
      using nb by (auto simp: op_word_def eword_def bit_or_iff bit_and_iff bit_not_iff bit_irq_bit intro!: bit_word_eqI
          simp del: bit_numeral_word_iff)
    then show ?thesis
      using words_on_vcpu [OF ok v, of f] vgic_okD [OF ok v] v True z
      unfolding e by (auto simp: words_are_def f_def at_word_def word_defs hit_def fun_eq_iff)
  qed
next
  case False
  let ?w = "unat (irq div 32)"
  have w: "?w = unat irq div 32" "?w < 32" "0 < ?w" using irq_word [OF irq(1)] irq_low(2) [OF False] by simp_all
  have e: "vmm_vgic_set_enabled g v irq en = g\<lparr>enabled := (enabled g)[?w := op_word en (irq_bit irq) (enabled g ! ?w)]\<rparr>"
    using False irq by (simp add: vmm_vgic_set_enabled_def Let_def op_word_def)
  show ?thesis
    unfolding e using ok w False
    by (auto simp: words_are_def vgic_ok_def hit_def fun_eq_iff eword_def nth_list_update)
qed

lemma set_enabled_abs:
  fixes g :: vgic_t and v irq :: u32 and en :: bool
  assumes ok: "vgic_ok g" and i: "unat irq < 1024"
  defines "g' \<equiv> vmm_vgic_set_enabled g v irq en"
  shows "vgic_ok g' \<and> nr_vcpus g' = nr_vcpus g \<and>
    vgic_abs g' = (vgic_abs g)\<lparr>g_en := en_op en (g_en (vgic_abs g)) (banked g v (unat irq))\<rparr>"
proof (cases "valid_irq irq \<and> \<not> irq < 16")
  case False
  then have "g' = g" "banked g v (unat irq) = {}"
    by (auto simp: g'_def vmm_vgic_set_enabled_def banked_def valid_irq_def word_less_nat_alt)
  then show ?thesis using ok by (simp add: en_op_def)
next
  case True
  note W = set_enabled_eword [OF ok conjunct1 [OF True] conjunct2 [OF True], of v en, folded g'_def]
  have b: "banked g v (unat irq) = {(v', j). v' < unat (nr_vcpus g) \<and> j = unat irq \<and> (irq < 32 \<longrightarrow> valid_vcpu g v \<and> v' = unat v)}"
    using True i by (auto simp: banked_def valid_irq_def word_less_nat_alt valid_vcpu_def)
  have bt: "bit (if j div 32 = unat irq div 32 \<and> c then op_word en (irq_bit irq) x else x) (j mod 32) \<longleftrightarrow>
      (if c \<and> j = unat irq then en else bit x (j mod 32))" for j c x
    unfolding div_mod_eq [of j irq, symmetric] by (auto simp: op_word_def bit_or_iff bit_and_iff bit_not_iff bit_irq_bit)
  have "irqs n (\<lambda>v' w. if w = unat irq div 32 \<and> (irq < 32 \<longrightarrow> valid_vcpu g v \<and> v' = unat v)
      then op_word en (irq_bit irq) (E v' w) else E v' w) =
    en_op en (irqs n E) {(v', j). v' < n \<and> j = unat irq \<and> (irq < 32 \<longrightarrow> valid_vcpu g v \<and> v' = unat v)}" for n E
    using i by (auto simp: irqs_def en_op_def bt)
  then show ?thesis
    using W words_abs [OF W] unfolding b by (simp add: words_are_def vgic_abs_def Let_def)
qed

lemma en_op_Un: "en_op en (en_op en S A) B = en_op en S (A \<union> B)"
  by (auto simp: en_op_def)

lemma en_op_empty [simp]: "en_op en S {} = S"
  by (simp add: en_op_def)

lemma banked_cong: "nr_vcpus g' = nr_vcpus g \<Longrightarrow> banked g' = banked g"
  by (auto simp: banked_def fun_eq_iff valid_vcpu_def)

lemma unat_word_bit: "unat w < 32 \<Longrightarrow> k < 32 \<Longrightarrow> unat (w * 32 + of_nat k :: u32) = 32 * unat w + k"
  by (simp add: unat_word_ariths unat_of_nat)

text \<open>Setting and clearing enables, bit by bit.\<close>

lemma enable_bits_fold:
  fixes g :: vgic_t and v w val :: u32 and n :: nat and en :: bool
  assumes ok: "vgic_ok g" and w: "unat w < 32" and "n \<le> 32"
  defines "g' \<equiv> fold (\<lambda>k g. if val AND push_bit k 1 \<noteq> 0 then vmm_vgic_set_enabled g v (w * 32 + of_nat k) en else g) [0..<n] g"
  shows "vgic_ok g' \<and> nr_vcpus g' = nr_vcpus g \<and>
    vgic_abs g' = (vgic_abs g)\<lparr>g_en := en_op en (g_en (vgic_abs g)) (\<Union>k \<in> {k. k < n \<and> bit val k}. banked g v (32 * unat w + k))\<rparr>"
  using \<open>n \<le> 32\<close> unfolding g'_def mask_test
proof (induction n)
  case 0
  then show ?case using ok by simp
next
  case (Suc n)
  let ?s = "\<lambda>k g. if bit val k then vmm_vgic_set_enabled g v (w * 32 + of_nat k) en else g"
  let ?g = "fold ?s [0..<n] g"
  have IH: "vgic_ok ?g" "nr_vcpus ?g = nr_vcpus g"
    "vgic_abs ?g = (vgic_abs g)\<lparr>g_en := en_op en (g_en (vgic_abs g)) (\<Union>k \<in> {k. k < n \<and> bit val k}. banked g v (32 * unat w + k))\<rparr>"
    using Suc by simp_all
  have u: "unat (w * 32 + of_nat n) = 32 * unat w + n" using unat_word_bit [OF w, of n] Suc.prems by simp
  have set: "{k. k < Suc n \<and> bit val k} = (if bit val n then insert n {k. k < n \<and> bit val k} else {k. k < n \<and> bit val k})"
    by (auto simp: less_Suc_eq)
  show ?case
    using set_enabled_abs [OF IH(1), of "w * 32 + of_nat n" v en] IH banked_cong [OF IH(2)] w Suc.prems
    by (simp add: set u en_op_Un Un_commute)
qed

text \<open>A loop whose rounds each make a set of interrupts pending.\<close>

definition shape :: "vgic_t \<Rightarrow> vgic_t \<Rightarrow> bool" where
  "shape g0 g \<longleftrightarrow> vgic_ok g \<and> nr_vcpus g = nr_vcpus g0 \<and> targets g = targets g0"

definition add_pend :: "(nat \<times> nat) set \<Rightarrow> gic_spec \<Rightarrow> gic_spec" where
  "add_pend S a = a\<lparr>g_pend := g_pend a \<union> S\<rparr>"

lemma add_pend_empty [simp]: "add_pend {} a = a"
  by (simp add: add_pend_def)

lemma add_pend_Un: "add_pend S (add_pend T a) = add_pend (T \<union> S) a"
  by (simp add: add_pend_def Un_assoc)

lemma fold_pend:
  assumes "\<And>c g. c \<in> set cs \<Longrightarrow> shape g0 g \<Longrightarrow> shape g0 (s c g) \<and> vgic_abs (s c g) = add_pend (T c) (vgic_abs g)"
    and "shape g0 g"
  shows "shape g0 (fold s cs g) \<and> vgic_abs (fold s cs g) = add_pend (\<Union>c \<in> set cs. T c) (vgic_abs g)"
  using assms by (induction cs arbitrary: g) (simp_all add: add_pend_Un)

lemma set_pending_abs:
  assumes "shape g0 g"
  shows "shape g0 (vmm_vgic_set_pending g v irq) \<and> vgic_abs (vmm_vgic_set_pending g v irq) =
    add_pend (if valid_vcpu g0 v \<and> valid_irq irq then {(unat v, unat irq)} else {}) (vgic_abs g)"
proof -
  have ok: "vgic_ok g" "valid_vcpu g v = valid_vcpu g0 v" using assms by (simp_all add: shape_def valid_vcpu_def)
  note W = set_pending_words [OF ok(1), of v irq]
  have "valid_vcpu g v \<and> valid_irq irq \<Longrightarrow> unat v < unat (nr_vcpus g) \<and> unat irq < 1024"
    by (simp add: valid_vcpu_def valid_irq_def word_less_nat_alt)
  then show ?thesis
    using W words_abs [OF W] assms ok(2)
    by (auto simp: irqs_or words_are_def shape_def vgic_abs_def Let_def add_pend_def)
qed

lemma set_sgi_words:
  assumes ok: "vgic_ok g" and v: "valid_vcpu g v" and irq: "irq < 16"
  shows "words_are g (vmm_vgic_set_sgi_pending g v src irq)
    (at_word True (unat v) (unat irq div 32) (\<lambda>x. x OR irq_bit irq) (pword g)) (aword g) (eword g)"
proof -
  define f where "f = (\<lambda>c :: vgic_vcpu_state_t. c\<lparr>sgi_sources := (sgi_sources c)[unat irq := sgi_sources c ! unat irq OR
      push_bit (unat (if unat src \<ge> VGIC_MAX_VCPUS then 0 else src)) 1], pending0 := pending0 c OR irq_bit irq\<rparr>)"
  have e: "vmm_vgic_set_sgi_pending g v src irq = on_vcpu v f g"
    using v irq by (simp add: vmm_vgic_set_sgi_pending_def f_def Let_def)
  have z: "unat irq div 32 = 0" using irq by (simp add: word_less_nat_alt)
  show ?thesis
    using words_on_vcpu [OF ok v, of f] vgic_okD [OF ok v]
    unfolding e z by (simp add: words_are_def f_def at_word_def word_defs fun_eq_iff)
qed

lemma set_sgi_abs:
  assumes "shape g0 g" "valid_vcpu g0 v" "irq < 16"
  shows "shape g0 (vmm_vgic_set_sgi_pending g v src irq) \<and>
    vgic_abs (vmm_vgic_set_sgi_pending g v src irq) = add_pend {(unat v, unat irq)} (vgic_abs g)"
proof -
  have ok: "vgic_ok g" "valid_vcpu g v" using assms by (simp_all add: shape_def valid_vcpu_def)
  note W = set_sgi_words [OF ok assms(3), of src]
  have "unat v < unat (nr_vcpus g)" "unat irq < 1024"
    using ok(2) assms(3) by (simp_all add: valid_vcpu_def word_less_nat_alt)
  then show ?thesis
    using W words_abs [OF W] assms(1)
    by (simp add: irqs_or words_are_def shape_def vgic_abs_def Let_def add_pend_def)
qed

lemma set_cpus_in:
  assumes "shape g0 g"
  shows "set (cpus_in g msk) = {c. valid_vcpu g0 c \<and> bit msk (unat c)}"
proof -
  have n: "unat (nr_vcpus g) = unat (nr_vcpus g0)" "unat (nr_vcpus g0) \<le> 12"
    using assms by (auto simp: shape_def vgic_ok_def)
  have "c \<in> of_nat ` {k. k < unat (nr_vcpus g0) \<and> bit msk k} \<longleftrightarrow> unat c < unat (nr_vcpus g0) \<and> bit msk (unat c)" for c :: u32
  proof
    assume "c \<in> of_nat ` {k. k < unat (nr_vcpus g0) \<and> bit msk k}"
    then obtain k where "c = of_nat k" "k < unat (nr_vcpus g0)" "bit msk k" by auto
    moreover from this n have "unat (of_nat k :: u32) = k" by (simp add: unat_of_nat)
    ultimately show "unat c < unat (nr_vcpus g0) \<and> bit msk (unat c)" by simp
  next
    assume "unat c < unat (nr_vcpus g0) \<and> bit msk (unat c)"
    then show "c \<in> of_nat ` {k. k < unat (nr_vcpus g0) \<and> bit msk k}" by (intro image_eqI [of _ _ "unat c"]) simp_all
  qed
  note I = this
  have "set (cpus_in g msk) = of_nat ` {k. k < unat (nr_vcpus g0) \<and> bit msk k}"
    unfolding cpus_in_def mask_test using n by (auto simp: min_def)
  then show ?thesis by (intro set_eqI) (simp only: I mem_Collect_eq valid_vcpu_def word_less_nat_alt)
qed

text \<open>The virtual CPUs a write to a set-pending register reaches.\<close>

definition target_mask :: "vgic_t \<Rightarrow> u32 \<Rightarrow> nat \<Rightarrow> u32" where
  "target_mask g v i = (let msk = (if i < 32 then push_bit (unat v) 1 else ucast (targets g ! i)) in if msk = 0 then 1 else msk)"

definition pend_targets :: "vgic_t \<Rightarrow> u32 \<Rightarrow> nat \<Rightarrow> (nat \<times> nat) set" where
  "pend_targets g v i = {(c, i) |c. c < unat (nr_vcpus g) \<and> bit (target_mask g v i) c \<and> i < 1020}"

lemma image_vcpus:
  "(\<Union>c \<in> {c. valid_vcpu g c \<and> bit msk (unat c)}. {(unat c, i)}) = {(c, i) |c. c < unat (nr_vcpus g) \<and> bit msk c}"
proof -
  have "\<exists>u. c = unat u \<and> u < nr_vcpus g" if "c < unat (nr_vcpus g)" for c
    using that unat_lt32 [of "nr_vcpus g"] by (intro exI [of _ "of_nat c"]) (simp add: unat_of_nat word_less_nat_alt)
  then show ?thesis by (fastforce simp: valid_vcpu_def word_less_nat_alt)
qed

lemma pend_irq_abs:
  assumes g: "shape g0 g"
  shows "shape g0 (fold (\<lambda>cpu g. vgicd_set_pending g cpu irq) (cpus_in g msk) g) \<and>
    vgic_abs (fold (\<lambda>cpu g. vgicd_set_pending g cpu irq) (cpus_in g msk) g) =
      add_pend {(c, unat irq) |c. c < unat (nr_vcpus g0) \<and> bit msk c \<and> unat irq < 1020} (vgic_abs g)"
proof -
  let ?T = "\<lambda>c. if valid_vcpu g0 c \<and> valid_irq irq then {(unat c, unat irq)} else {}"
  have "(\<Union>c \<in> set (cpus_in g msk). ?T c) = {(c, unat irq) |c. c < unat (nr_vcpus g0) \<and> bit msk c \<and> unat irq < 1020}"
    using image_vcpus [where g = g0 and msk = msk and i = "unat irq"] by (auto simp: set_cpus_in [OF g] valid_irq_def word_less_nat_alt)
  then show ?thesis
    using fold_pend [of "cpus_in g msk" g0 "\<lambda>cpu g. vgicd_set_pending g cpu irq" ?T g] g set_pending_abs
    by (simp add: vgicd_set_pending_def)
qed

lemma pend_bits_abs:
  assumes ok: "vgic_ok g" and w: "unat w < 32"
  shows "vgic_ok (pend_bits g v w val) \<and> nr_vcpus (pend_bits g v w val) = nr_vcpus g \<and>
    vgic_abs (pend_bits g v w val) = add_pend (\<Union>k \<in> {k. k < 32 \<and> bit val k}. pend_targets g v (32 * unat w + k)) (vgic_abs g)"
proof -
  define s where "s = (\<lambda>k g. if bit val k
      then let irq = w * 32 + of_nat k;
               msk = (if irq < 32 then push_bit (unat v) 1 else ucast (targets g ! unat irq)) :: u32;
               msk = (if msk = 0 then 1 else msk)
           in fold (\<lambda>cpu g. vgicd_set_pending g cpu irq) (cpus_in g msk) g
      else g)"
  have e: "pend_bits g v w val = fold s [0..<32] g"
    unfolding pend_bits_def s_def mask_test by (rule refl)
  let ?T = "\<lambda>k. if bit val k then pend_targets g v (32 * unat w + k) else {}"
  have st: "shape g (s k g') \<and> vgic_abs (s k g') = add_pend (?T k) (vgic_abs g')" if "k \<in> set [0..<32]" "shape g g'" for k g'
  proof -
    let ?irq = "w * 32 + of_nat k :: u32"
    have u: "unat ?irq = 32 * unat w + k" using that(1) unat_word_bit [OF w] by simp
    have lt: "?irq < 32 \<longleftrightarrow> 32 * unat w + k < 32" by (simp add: word_less_nat_alt u)
    have tg: "targets g' = targets g" using that(2) by (simp add: shape_def)
    have m: "(let msk = (if ?irq < 32 then push_bit (unat v) 1 else ucast (targets g' ! unat ?irq)) in if msk = 0 then 1 else msk)
        = target_mask g v (32 * unat w + k)"
      unfolding target_mask_def lt u tg by (rule refl)
    show ?thesis
    proof (cases "bit val k")
      case True
      have "s k g' = fold (\<lambda>cpu g. vgicd_set_pending g cpu ?irq) (cpus_in g' (target_mask g v (32 * unat w + k))) g'"
        using True m by (simp only: s_def if_True Let_def)
      then show ?thesis
        using pend_irq_abs [OF that(2), of ?irq "target_mask g v (32 * unat w + k)"] True u by (simp add: pend_targets_def)
    qed (use that(2) in \<open>simp add: s_def\<close>)
  qed
  have "shape g g" using ok by (simp add: shape_def)
  from fold_pend [of "[0..<32]" g s ?T, OF st this] have "shape g (fold s [0..<32] g) \<and>
    vgic_abs (fold s [0..<32] g) = add_pend (\<Union>k \<in> set [0..<32]. ?T k) (vgic_abs g)" by blast
  moreover have "(\<Union>k \<in> set [0..<32]. ?T k) = (\<Union>k \<in> {k. k < 32 \<and> bit val k}. pend_targets g v (32 * unat w + k))"
    by (auto split: if_splits)
  ultimately show ?thesis by (simp only: e shape_def simp_thms)
qed

text \<open>The virtual CPUs a software generated interrupt goes to.\<close>

definition sgi_target :: "u32 \<Rightarrow> nat \<Rightarrow> nat \<Rightarrow> bool" where
  "sgi_target val source c =
     (let flt = drop_bit 24 val AND 0x3
      in if flt = 0 then c < 8 \<and> bit val (16 + c) else if flt = 1 then c \<noteq> source else if flt = 2 then c = source else False)"

lemma bit_low_mask: "bit (push_bit n 1 - 1 :: u32) c \<longleftrightarrow> c < n \<and> c < 32"
proof -
  have "(push_bit n 1 - 1 :: u32) = mask n" by (simp add: mask_eq_exp_minus_1)
  then show ?thesis by (simp only: bit_mask_iff) auto
qed

lemma bit_ff: "bit (0xff :: u32) c \<longleftrightarrow> c < 8"
proof -
  have m: "(0xff :: u32) = mask 8" by (simp add: mask_eq_exp_minus_1)
  show ?thesis unfolding m by (auto simp: bit_mask_iff)
qed

lemma handle_sgir_abs:
  assumes ok: "vgic_ok g" and v: "valid_vcpu g v"
  shows "vgic_ok (handle_sgir g val v) \<and> nr_vcpus (handle_sgir g val v) = nr_vcpus g \<and>
    vgic_abs (handle_sgir g val v) =
      add_pend {(c, unat (val AND 0xf)) |c. c < unat (nr_vcpus g) \<and> sgi_target val (unat v) c} (vgic_abs g)"
proof -
  let ?flt = "drop_bit 24 val AND 0x3" and ?irq = "val AND 0xf"
  define msk :: u32 where "msk = (if ?flt = 0 then drop_bit 16 val AND 0xff
      else if ?flt = 1 then (push_bit (unat (nr_vcpus g)) 1 - 1) AND NOT (push_bit (unat v) 1)
      else if ?flt = 2 then push_bit (unat v) 1 else 0)"
  have e: "handle_sgir g val v = fold (\<lambda>cpu g. vmm_vgic_set_sgi_pending g cpu v ?irq) (cpus_in g msk) g"
    by (simp only: handle_sgir_def Let_def msk_def)
  have v12: "unat v < 12" "unat (nr_vcpus g) \<le> 12" using vgic_okD [OF ok v] ok by (simp_all add: vgic_ok_def)
  have b: "bit msk c \<longleftrightarrow> sgi_target val (unat v) c" if "c < unat (nr_vcpus g)" for c
  proof -
    have "bit (push_bit (unat v) 1 :: u32) c \<longleftrightarrow> c = unat v" using v12 by (auto simp: bit_simps)
    then show ?thesis
      using that v12 by (simp only: msk_def sgi_target_def Let_def) 
        (auto simp only: bit_and_iff bit_not_iff bit_low_mask bit_ff bit_drop_bit_eq comp_apply possible_bit_word split: if_splits,
         simp_all)
  qed
  let ?s = "\<lambda>cpu g. vmm_vgic_set_sgi_pending g cpu v ?irq"
  have irq: "?irq < 16" using word_and_le1 [of val 15] by (simp add: word_less_nat_alt word_le_nat_alt)
  have sh: "shape g g" using ok by (simp add: shape_def)
  have st: "shape g (?s c g') \<and> vgic_abs (?s c g') = add_pend {(unat c, unat ?irq)} (vgic_abs g')"
    if "c \<in> set (cpus_in g msk)" "shape g g'" for c g'
    using set_sgi_abs [OF that(2) _ irq] that(1) by (simp add: set_cpus_in [OF sh])
  have "(\<Union>c \<in> set (cpus_in g msk). {(unat c, unat ?irq)}) = {(c, unat ?irq) |c. c < unat (nr_vcpus g) \<and> sgi_target val (unat v) c}"
    using b by (simp only: set_cpus_in [OF sh] image_vcpus) auto
  then show ?thesis
    using fold_pend [of "cpus_in g msk" g ?s "\<lambda>c. {(unat c, unat ?irq)}", OF st sh] by (simp only: e shape_def simp_thms)
qed

section \<open>Injection\<close>

text \<open>No two list registers in use hold the same interrupt.\<close>

definition lr_distinct :: "vgic_vcpu_state_t \<Rightarrow> bool" where
  "lr_distinct c \<longleftrightarrow> (\<forall>i < VGIC_MAX_LRS. \<forall>j < VGIC_MAX_LRS. i \<noteq> j \<longrightarrow>
     lr c ! i AND LR_STATE_MASK \<noteq> 0 \<longrightarrow> lr c ! j AND LR_STATE_MASK \<noteq> 0 \<longrightarrow>
     lr c ! i AND LR_VINTID_MASK \<noteq> lr c ! j AND LR_VINTID_MASK)"

text \<open>The hardware list registers hold what the virtual CPU has cached.\<close>

definition lr_loaded :: "gic_machine \<Rightarrow> u32 \<Rightarrow> bool" where
  "lr_loaded m v \<longleftrightarrow> gm_lr m = lr (vcpu (gm_vgic m) ! unat v)"

lemma vintid_mask: "LR_VINTID_MASK = mask 10"
  by (simp add: mask_eq_exp_minus_1)

lemma lr_flag_bits:
  assumes "k < 10"
  shows "\<not> bit (0x40000000 :: u32) k" "\<not> bit (0x10000000 :: u32) k" "\<not> bit (0xa000000 :: u32) k"
proof -
  have "k = 0 \<or> k = 1 \<or> k = 2 \<or> k = 3 \<or> k = 4 \<or> k = 5 \<or> k = 6 \<or> k = 7 \<or> k = 8 \<or> k = 9" using assms by arith
  then show "\<not> bit (0x40000000 :: u32) k" "\<not> bit (0x10000000 :: u32) k" "\<not> bit (0xa000000 :: u32) k"
    by (elim disjE; simp)+
qed

lemma lr_value_bits: "k < 10 \<Longrightarrow> bit (lr_value irq src) k = bit irq k" "bit (lr_value irq src) 28"
proof -
  show "bit (lr_value irq src) 28" by (simp add: lr_value_def Let_def bit_or_iff)
  assume k: "k < 10"
  then have "bit LR_VINTID_MASK k" by (simp only: vintid_mask bit_mask_iff) simp
  then show "bit (lr_value irq src) k = bit irq k"
    using lr_flag_bits [OF k] k
    by (simp add: lr_value_def Let_def bit_or_iff bit_and_iff bit_push_bit_iff del: bit_numeral_word_iff)
qed

lemma lr_value_holds: "lr_holds (lr_value irq src) irq' \<longleftrightarrow> irq AND LR_VINTID_MASK = irq' AND LR_VINTID_MASK"
proof -
  have "bit (lr_value irq src AND LR_STATE_MASK) 28" by (simp add: bit_and_iff lr_value_bits(2))
  then have "lr_value irq src AND LR_STATE_MASK \<noteq> 0" by auto
  moreover have "lr_value irq src AND LR_VINTID_MASK = irq AND LR_VINTID_MASK"
    unfolding vintid_mask by (intro bit_word_eqI) (auto simp: bit_and_iff bit_mask_iff lr_value_bits(1))
  ultimately show ?thesis by (simp add: lr_holds_def)
qed

lemma empty_slot_cases:
  assumes v: "valid_vcpu g v"
  obtains (full) "vgicc_lr_empty_slot g v = - 1" "\<And>i. i < 4 \<Longrightarrow> lr (vcpu g ! unat v) ! i AND LR_STATE_MASK \<noteq> 0"
  | (slot) i where "vgicc_lr_empty_slot g v = int i" "i < 4" "lr (vcpu g ! unat v) ! i AND LR_STATE_MASK = 0"
proof -
  let ?P = "\<lambda>i. lr (vcpu g ! unat v) ! i AND LR_STATE_MASK = 0"
  have e: "vgicc_lr_empty_slot g v = (case List.find ?P [0..<4] of Some i \<Rightarrow> int i | None \<Rightarrow> - 1)"
    using v by (simp only: vgicc_lr_empty_slot_def simp_thms if_False)
  show thesis
  proof (cases "List.find ?P [0..<4]")
    case None
    then have "\<not> ?P i" if "i < 4" for i using that by (simp only: find_None_iff set_upt) simp
    with None show thesis by (intro full) (simp_all only: e option.case not_False_eq_True)
  next
    case (Some i)
    then have "i < 4 \<and> ?P i" by (auto simp only: find_Some_iff length_upt nth_upt add_0)
    with Some show thesis by (intro slot [of i]) (simp_all only: e option.case)
  qed
qed

lemma write_lr:
  fixes m :: gic_machine and v x :: u32 and i :: nat
  assumes ok: "vgic_ok (gm_vgic m)" and v: "valid_vcpu (gm_vgic m) v" and i: "i < 4"
  defines "m' \<equiv> vgicc_write_lr m v (of_nat i) x"
  shows "words_are (gm_vgic m) (gm_vgic m') (pword (gm_vgic m)) (aword (gm_vgic m)) (eword (gm_vgic m))"
    "lr (vcpu (gm_vgic m') ! unat v) = (lr (vcpu (gm_vgic m) ! unat v))[i := x]" "gm_lr m' = (gm_lr m)[i := x]"
proof -
  have "unat (of_nat i :: u32) = i" using i by (simp add: unat_of_nat)
  then have e: "m' = gic_write_lr i x (m\<lparr>gm_vgic := on_vcpu v (\<lambda>c. c\<lparr>lr := (lr c)[i := x]\<rparr>) (gm_vgic m)\<rparr>)"
    using v i by (simp add: m'_def vgicc_write_lr_def)
  show "words_are (gm_vgic m) (gm_vgic m') (pword (gm_vgic m)) (aword (gm_vgic m)) (eword (gm_vgic m))"
    using words_lr [OF ok v, of i x] by (simp add: e gic_write_lr_def)
  show "lr (vcpu (gm_vgic m') ! unat v) = (lr (vcpu (gm_vgic m) ! unat v))[i := x]" "gm_lr m' = (gm_lr m)[i := x]"
    using lr_on_vcpu [OF ok v, of i x "unat v"] by (simp_all add: e gic_write_lr_def)
qed

lemma has_irq_iff: "vgicc_lr_has_irq g v irq \<longleftrightarrow> valid_vcpu g v \<and> (\<exists>i < 4. lr_holds (lr (vcpu g ! unat v) ! i) irq)"
  by (auto simp: vgicc_lr_has_irq_def list_ex_iff simp del: upt_rec_numeral)

lemma sync_entry:
  fixes m :: gic_machine and v :: u32
  assumes ok: "vgic_ok (gm_vgic m)" and v: "valid_vcpu (gm_vgic m) v"
    and d: "lr_distinct (vcpu (gm_vgic m) ! unat v)" and l: "lr_loaded m v"
  defines "m' \<equiv> vmm_vgic_sync_entry m v"
  shows "vgic_ok (gm_vgic m') \<and> vgic_abs (gm_vgic m') = vgic_abs (gm_vgic m) \<and>
    lr_distinct (vcpu (gm_vgic m') ! unat v) \<and> lr_loaded m' v \<and>
    (ready (vgic_abs (gm_vgic m)) (unat v) \<noteq> {} \<longrightarrow>
      vgicc_lr_has_irq (gm_vgic m') v (of_int (least_irq (ready (vgic_abs (gm_vgic m)) (unat v)))) \<or>
      (\<forall>i < VGIC_MAX_LRS. lr (vcpu (gm_vgic m') ! unat v) ! i AND LR_STATE_MASK \<noteq> 0))"
proof -
  let ?g = "gm_vgic m" and ?r = "vmm_vgic_next_pending (gm_vgic m) v"
  let ?R = "ready (vgic_abs (gm_vgic m)) (unat v)"
  have r: "?r = least_irq ?R" by (rule next_pending_least [OF v])
  consider (none) "?r < 0" | (held) "0 \<le> ?r" "vgicc_lr_has_irq ?g v (of_int ?r)"
    | (inject) "0 \<le> ?r" "\<not> vgicc_lr_has_irq ?g v (of_int ?r)" by linarith
  then show ?thesis
  proof cases
    case none
    then have "?R = {}" by (auto simp: r least_irq_def split: if_splits)
    then show ?thesis using none ok v d l by (simp add: m'_def vmm_vgic_sync_entry_def)
  next
    case held
    then have "m' = m" using v by (simp add: m'_def vmm_vgic_sync_entry_def Let_def)
    then show ?thesis using ok v d l held(2) r by simp
  next
    case inject
    from v show ?thesis
    proof (cases rule: empty_slot_cases)
      case full
      then have "m' = m" using v inject by (simp add: m'_def vmm_vgic_sync_entry_def Let_def)
      then show ?thesis using ok d l full(2) by simp
    next
      case (slot i)
      define x where "x = lr_value (of_int ?r) (let sources = sgi_sources (vcpu ?g ! unat v) ! unat (of_int ?r :: u32)
          in if (of_int ?r :: u32) < 16 \<and> sources \<noteq> 0 then bit_number (sources AND (NOT sources + 1)) 0 else 0)"
      have e: "m' = vgicc_write_lr m v (of_nat i) x"
        using v inject slot(1) by (simp add: m'_def vmm_vgic_sync_entry_def Let_def x_def)
      note W = write_lr [OF ok v slot(2), of x, folded e]
      note L = vgic_okD(9) [OF ok v]
      have h: "lr_holds x irq' \<longleftrightarrow> of_int ?r AND LR_VINTID_MASK = irq' AND LR_VINTID_MASK" for irq'
        by (simp only: x_def lr_value_holds)
      have hx: "lr_holds x (of_int ?r)" by (simp only: h)
      have "vgicc_lr_has_irq (gm_vgic m') v (of_int ?r)"
        using hx slot(2) L v words_valid [OF W(1)] by (auto simp: has_irq_iff W(2) intro!: exI [of _ i])
      moreover have "lr_distinct (vcpu (gm_vgic m') ! unat v)"
        unfolding lr_distinct_def W(2) using d inject(2) v L slot h
        by (auto simp: lr_distinct_def has_irq_iff lr_holds_def nth_list_update)
      moreover have "vgic_abs (gm_vgic m') = vgic_abs ?g" "vgic_ok (gm_vgic m')" using W(1) by (simp_all add: words_are_def vgic_abs_def)
      moreover have "lr_loaded m' v" using l by (simp add: lr_loaded_def W(2,3))
      ultimately show ?thesis using r by simp
    qed
  qed
qed

section \<open>The invariant of a running guest\<close>

text \<open>The numbers 1020 to 1023 are not interrupts: 1023 is what an acknowledge reports when there is none.\<close>

definition vgic_inv :: "vgic_t \<Rightarrow> bool" where
  "vgic_inv g \<longleftrightarrow> vgic_ok g \<and> (\<forall>v i. v < VGIC_MAX_VCPUS \<and> 1020 \<le> i \<and> i < 1024 \<longrightarrow> \<not> bit (pword g v (i div 32)) (i mod 32))"

definition gic_ok :: "gic_machine \<Rightarrow> bool" where
  "gic_ok m \<longleftrightarrow> vgic_inv (gm_vgic m) \<and> length (gm_lr m) = VGIC_MAX_LRS"

text \<open>What happens to the interrupt controller of a VM: devices and timers raise interrupts, virtual
  CPUs enter and leave the guest, the guest accesses the two register windows, and the hardware
  changes the list registers while the guest runs.\<close>

datatype gic_op =
  Raise u32 u32
| Inject_timer u32
| Enter u32
| Leave u32
| Dist_write u64 u8 u64 u32
| Cpu_read u64 u8 u32
| Cpu_write u64 u8 u64 u32
| Hardware "u32 list"

fun gic_step :: "gic_op \<Rightarrow> gic_machine \<Rightarrow> gic_machine" where
  "gic_step (Raise v irq) m = m\<lparr>gm_vgic := vmm_vgic_set_pending (gm_vgic m) v irq\<rparr>"
| "gic_step (Inject_timer v) m = vmm_vgic_inject_timer m v"
| "gic_step (Enter v) m = vmm_vgic_sync_entry m v"
| "gic_step (Leave v) m = vmm_vgic_sync_exit m v"
| "gic_step (Dist_write off sz val v) m = m\<lparr>gm_vgic := vgicd_write_for_vcpu (gm_vgic m) off sz val v\<rparr>"
| "gic_step (Cpu_read off sz v) m = snd (vgicc_read_for_vcpu m off sz v)"
| "gic_step (Cpu_write off sz val v) m = vgicc_write_for_vcpu m off sz val v"
| "gic_step (Hardware xs) m = m\<lparr>gm_lr := take VGIC_MAX_LRS (xs @ replicate VGIC_MAX_LRS 0)\<rparr>"

named_theorems gic_ok_intros "operations that keep the interrupt controller well-formed"

lemma fold_keeps: "(\<And>x s. P s \<Longrightarrow> P (f x s)) \<Longrightarrow> P s \<Longrightarrow> P (fold f xs s)"
  by (induction xs arbitrary: s) simp_all

lemma inv_ok: "vgic_inv g \<Longrightarrow> vgic_ok g"
  by (simp add: vgic_inv_def)

lemma inv_words:
  assumes "vgic_inv g" "words_are g g' P A E"
    and "\<And>v i. 1020 \<le> i \<Longrightarrow> i < 1024 \<Longrightarrow> bit (P v (i div 32)) (i mod 32) \<Longrightarrow> bit (pword g v (i div 32)) (i mod 32)"
  shows "vgic_inv g'"
  using assms by (auto simp: vgic_inv_def words_are_def)

lemma ok_set_pending [gic_ok_intros]: "vgic_inv g \<Longrightarrow> vgic_inv (vmm_vgic_set_pending g v irq)"
  by (rule inv_words [OF _ set_pending_words [OF inv_ok]])
    (auto simp only: bit_at_word(1) valid_irq_def word_less_nat_alt unat_numeral, simp_all)

lemma ok_set_enabled [gic_ok_intros]:
  assumes "vgic_inv g"
  shows "vgic_inv (vmm_vgic_set_enabled g v irq en)"
proof (cases "valid_irq irq \<and> \<not> irq < 16")
  case True
  then show ?thesis using inv_words [OF assms set_enabled_eword [OF inv_ok [OF assms]]] by blast
next
  case False
  then show ?thesis using assms by (simp add: vmm_vgic_set_enabled_def)
qed

lemma ok_set_sgi [gic_ok_intros]:
  assumes "vgic_inv g"
  shows "vgic_inv (vmm_vgic_set_sgi_pending g v src irq)"
proof (cases "valid_vcpu g v \<and> irq < 16")
  case True
  then have "unat irq < 16" by (simp add: word_less_nat_alt)
  then show ?thesis
    using True by (intro inv_words [OF assms set_sgi_words [OF inv_ok [OF assms]]]) (auto simp only: bit_at_word(1))
next
  case False
  then show ?thesis using assms by (auto simp: vmm_vgic_set_sgi_pending_def)
qed

lemma ok_clear_words [gic_ok_intros]:
  assumes "vgic_inv g"
  shows "vgic_inv (vmm_vgic_clear_pending_word g v w bits)" "vgic_inv (vmm_vgic_clear_active_word g v w bits)"
  using inv_words [OF assms clear_word_words(1) [OF inv_ok [OF assms]]]
    inv_words [OF assms clear_word_words(2) [OF inv_ok [OF assms]]] by (simp_all only: bit_at_word(3))

lemma ok_eoi [gic_ok_intros]: "vgic_inv g \<Longrightarrow> vgic_inv (vmm_vgic_eoi g v irq)"
  by (simp add: eoi_clear_active ok_clear_words)

lemma inv_frames [gic_ok_intros]:
  "vgic_inv g \<Longrightarrow> length xs = VGICD_REG_SIZE \<Longrightarrow> vgic_inv (g\<lparr>dist_regs := xs\<rparr>)"
  "vgic_inv g \<Longrightarrow> length ys = VGIC_MAX_IRQS \<Longrightarrow> vgic_inv (g\<lparr>targets := ys\<rparr>)"
  "vgic_inv g \<Longrightarrow> vgic_inv (vmm_vgic_set_dist_enabled g en)"
proof -
  have p: "pword (g\<lparr>dist_regs := xs\<rparr>) = pword g" "pword (g\<lparr>targets := ys\<rparr>) = pword g"
    "pword (vmm_vgic_set_dist_enabled g en) = pword g"
    by (simp_all add: fun_eq_iff pword_def vmm_vgic_set_dist_enabled_def)
  show "vgic_inv g \<Longrightarrow> length xs = VGICD_REG_SIZE \<Longrightarrow> vgic_inv (g\<lparr>dist_regs := xs\<rparr>)"
    "vgic_inv g \<Longrightarrow> length ys = VGIC_MAX_IRQS \<Longrightarrow> vgic_inv (g\<lparr>targets := ys\<rparr>)"
    "vgic_inv g \<Longrightarrow> vgic_inv (vmm_vgic_set_dist_enabled g en)"
    unfolding vgic_inv_def p by (auto simp: vgic_ok_def vmm_vgic_set_dist_enabled_def)
qed

lemma inv_lengths: "vgic_inv g \<Longrightarrow> length (dist_regs g) = VGICD_REG_SIZE \<and> length (targets g) = VGIC_MAX_IRQS"
  by (simp add: vgic_inv_def vgic_ok_def)

lemma ok_reg_write [gic_ok_intros]: "vgic_inv g \<Longrightarrow> vgic_inv (reg_write g off sz val)"
  unfolding reg_write_def by (rule fold_keeps [where P = vgic_inv]) (simp_all add: inv_frames inv_lengths)

lemma ok_write_targets [gic_ok_intros]: "vgic_inv g \<Longrightarrow> vgic_inv (write_targets g i sz val)"
  unfolding write_targets_def by (rule fold_keeps [where P = vgic_inv]) (simp_all add: inv_frames inv_lengths)

lemma ok_dist_bits [gic_ok_intros]:
  "vgic_inv g \<Longrightarrow> vgic_inv (enable_bits g v w val en)" "vgic_inv g \<Longrightarrow> vgic_inv (pend_bits g v w val)"
  "vgic_inv g \<Longrightarrow> vgic_inv (handle_sgir g val v)"
  unfolding enable_bits_def pend_bits_def handle_sgir_def Let_def vgicd_set_pending_def
  by (auto intro!: fold_keeps [where P = vgic_inv] ok_set_enabled ok_set_pending ok_set_sgi)

lemma ok_vgicd_write [gic_ok_intros]: "vgic_inv g \<Longrightarrow> vgic_inv (vgicd_write_for_vcpu g off sz val v)"
  unfolding vgicd_write_for_vcpu_def Let_def by (simp add: gic_ok_intros split: option.split)

lemma valid_on_vcpu [simp]: "valid_vcpu (on_vcpu v f g) = valid_vcpu g"
  by (simp add: valid_vcpu_def fun_eq_iff)

lemma inv_on_vcpu:
  assumes inv: "vgic_inv g" and v: "valid_vcpu g v"
    and f: "\<And>c. sgi_sources (f c) = sgi_sources c" "\<And>c. lr (f c) = lr c"
  shows "vgic_inv (on_vcpu v f g)"
  using vgic_okD [OF inv_ok [OF inv] v] f
  by (intro inv_words [OF inv words_on_vcpu [OF inv_ok [OF inv] v]]) (auto simp: at_word_def split: if_splits)

lemma inv_lr: "vgic_inv g \<Longrightarrow> valid_vcpu g v \<Longrightarrow> vgic_inv (on_vcpu v (\<lambda>c. c\<lparr>lr := (lr c)[i := x]\<rparr>) g)"
  by (rule inv_words [OF _ words_lr [OF inv_ok]])

lemma ok_write_lr [gic_ok_intros]: "gic_ok m \<Longrightarrow> gic_ok (vgicc_write_lr m v slot x)"
  by (simp add: gic_ok_def vgicc_write_lr_def gic_write_lr_def inv_lr)

lemma ok_sync_entry [gic_ok_intros]: "gic_ok m \<Longrightarrow> gic_ok (vmm_vgic_sync_entry m v)"
  by (simp add: vmm_vgic_sync_entry_def Let_def ok_write_lr)

lemma ok_save [gic_ok_intros]:
  assumes "gic_ok m"
  shows "gic_ok (vgicc_save_state_from_hw m v)"
proof (cases "valid_vcpu (gm_vgic m) v")
  case True
  let ?P = "\<lambda>m. gic_ok m \<and> valid_vcpu (gm_vgic m) v"
  have "?P (save_lr_step v i m)" if "?P m" for i m
    using that by (simp add: gic_ok_def save_lr_step_def gic_write_lr_def inv_lr Let_def)
  then have "?P (fold (save_lr_step v) [0..<4] m)" using assms True by (intro fold_keeps [where P = ?P]) blast+
  then show ?thesis using True by (simp only: vgicc_save_state_from_hw_def simp_thms if_False)
qed (use assms in \<open>simp add: vgicc_save_state_from_hw_def\<close>)

lemma next_pending_cases:
  assumes "valid_vcpu g v"
  obtains (none) "vmm_vgic_next_pending g v = - 1" "ready (vgic_abs g) (unat v) = {}"
  | (some) i where "vmm_vgic_next_pending g v = int i" "i < 1024" "i \<in> ready (vgic_abs g) (unat v)"
      "least_irq (ready (vgic_abs g) (unat v)) = int i" "ready (vgic_abs g) (unat v) \<noteq> {}"
proof (cases "ready (vgic_abs g) (unat v) = {}")
  case True
  then show thesis using next_pending_least [OF assms] by (intro none) (simp_all add: least_irq_def)
next
  case False
  from least_irq_cases [OF False] next_pending_least [OF assms] False show thesis by (metis some)
qed

lemma ok_ack [gic_ok_intros]:
  assumes "gic_ok m"
  shows "gic_ok (snd (vmm_vgic_ack m v))"
proof (cases "valid_vcpu (gm_vgic m) v")
  case False
  then show ?thesis using assms by (simp add: vmm_vgic_ack_def vmm_vgic_next_pending_def)
next
  case v: True
  have ok: "vgic_ok (gm_vgic m)" using assms by (simp add: gic_ok_def inv_ok)
  have len: "length (gm_lr (vgicc_clear_lr_irq m' v irq)) = length (gm_lr m')" for m' irq
    unfolding vgicc_clear_lr_irq_def
    by (auto intro!: fold_keeps [where P = "\<lambda>x. length (gm_lr x) = length (gm_lr m')"] simp: clear_lr_step_def gic_write_lr_def
        simp del: upt_rec_numeral)
  from v show ?thesis
  proof (cases rule: next_pending_cases)
    case none
    then show ?thesis using assms by (simp add: vmm_vgic_ack_def)
  next
    case (some i)
    then obtain m' where m': "vmm_vgic_ack m v = (int i, m')" "words_are (gm_vgic m) (gm_vgic m')
       (at_word True (unat v) (i div 32) (\<lambda>x. x AND NOT (irq_bit (of_nat i))) (pword (gm_vgic m)))
       (at_word True (unat v) (i div 32) (\<lambda>x. x OR irq_bit (of_nat i)) (aword (gm_vgic m))) (eword (gm_vgic m))"
      using ack_words [OF ok v] by metis
    moreover have "length (gm_lr m') = length (gm_lr m)"
      using m'(1) some(1) len by (auto simp: vmm_vgic_ack_def Let_def)
    moreover have "vgic_inv (gm_vgic m')"
    proof (rule inv_words [OF _ m'(2)])
      have "unat (of_nat i :: u32) = i" using some(2) by (simp add: unat_of_nat)
      then show "bit (pword (gm_vgic m) v' (j div 32)) (j mod 32)"
        if "bit (at_word True (unat v) (i div 32) (\<lambda>x. x AND NOT (irq_bit (of_nat i))) (pword (gm_vgic m)) v' (j div 32)) (j mod 32)" for v' j
        using that bit_at_word(2) [of True "unat v" "of_nat i"] by simp
    qed (use assms in \<open>simp add: gic_ok_def\<close>)
    ultimately show ?thesis using assms by (simp add: gic_ok_def)
  qed
qed

lemma ok_vgicc_read [gic_ok_intros]: "gic_ok m \<Longrightarrow> gic_ok (snd (vgicc_read_for_vcpu m off sz v))"
  using ok_ack [of m v] by (auto simp: vgicc_read_for_vcpu_def Let_def split: prod.split)

lemma ok_vgicc_write [gic_ok_intros]: "gic_ok m \<Longrightarrow> gic_ok (vgicc_write_for_vcpu m off sz val v)"
  by (simp add: vgicc_write_for_vcpu_def Let_def gic_ok_def ok_eoi inv_on_vcpu)

lemma gic_step_ok: "gic_ok m \<Longrightarrow> gic_ok (gic_step op m)"
proof (cases op)
  case (Inject_timer v)
  assume "gic_ok m"
  then have "gic_ok (m\<lparr>gm_vgic := vmm_vgic_set_pending (gm_vgic m) v 27\<rparr>)" by (simp add: gic_ok_def ok_set_pending)
  then show ?thesis using Inject_timer by (simp add: vmm_vgic_inject_timer_def ok_sync_entry)
next
  case (Leave v)
  then show "gic_ok m \<Longrightarrow> ?thesis" by (simp add: vmm_vgic_sync_exit_def ok_save)
qed (auto simp: gic_ok_intros, auto simp: gic_ok_def gic_ok_intros)

lemma ack_range:
  assumes "gic_ok m"
  shows "fst (vmm_vgic_ack m v) \<in> {- 1..<1020}"
proof (cases "valid_vcpu (gm_vgic m) v")
  case False
  then show ?thesis by (simp add: vmm_vgic_ack_def vmm_vgic_next_pending_def)
next
  case v: True
  have inv: "vgic_inv (gm_vgic m)" using assms by (simp add: gic_ok_def)
  from v show ?thesis
  proof (cases rule: next_pending_cases)
    case none
    then show ?thesis by (simp add: vmm_vgic_ack_def)
  next
    case (some i)
    have "bit (pword (gm_vgic m) (unat v) (i div 32)) (i mod 32)"
      using some(3) by (simp add: ready_def vgic_abs_def Let_def irqs_def)
    then have "i < 1020" using inv some(2) vgic_okD(1) [OF inv_ok [OF inv] v] unfolding vgic_inv_def by (metis not_le)
    moreover have "fst (vmm_vgic_ack m v) = int i" using ack_words [OF inv_ok [OF inv] v some(1,2)] by (metis fst_conv)
    ultimately show ?thesis by simp
  qed
qed

section \<open>Register offsets\<close>

lemma word_index_unat:
  assumes "unat b < 65536" "unat off < 65536"
  shows "word_index off b =
    (if unat b \<le> unat off \<and> unat off < unat b + 128 then Some (of_nat ((unat off - unat b) div 4)) else None)"
proof -
  have u2: "unat (b + 32 * 4) = unat b + 128" using assms by (simp add: unat_word_ariths)
  have c: "off < ucast b \<longleftrightarrow> unat off < unat b" "off \<ge> ucast (b + 32 * 4) \<longleftrightarrow> unat b + 128 \<le> unat off"
    by (simp_all only: word_less_nat_alt word_le_nat_alt u2 unat_ucast32)
  have d: "ucast ((off - ucast b) div 4) = (of_nat ((unat off - unat b) div 4) :: u32)" if "unat b \<le> unat off"
  proof -
    have "unat (off - ucast b) = unat off - unat b"
      using that by (subst unat_sub) (simp_all only: word_le_nat_alt unat_ucast32)
    then have "unat ((off - ucast b) div 4) = (unat off - unat b) div 4" by (simp add: unat_div_distrib)
    then show ?thesis using assms by (simp add: word_unat_eq_iff unsigned_ucast_eq unat_of_nat take_bit_nat_eq_self)
  qed
  show ?thesis unfolding word_index_def c using d by auto
qed

text \<open>\<open>off\<close> is register number \<open>w\<close> of the bank at \<open>b\<close>.\<close>

definition reg_at :: "u64 \<Rightarrow> nat \<Rightarrow> nat \<Rightarrow> bool" where
  "reg_at off b w \<longleftrightarrow> w < VGIC_MAX_WORDS \<and> unat off = b + 4 * w"

lemma reg_at_index:
  assumes "reg_at off b w" "b < 32768" "unat b' < 32768"
  shows "word_index off b' = (if b = unat b' then Some (of_nat w) else if unat b' \<le> b + 4 * w \<and> b + 4 * w < unat b' + 128 then
    Some (of_nat ((b + 4 * w - unat b') div 4)) else None)"
  using assms by (subst word_index_unat) (auto simp: reg_at_def)

lemma reg_at_nonzero: "reg_at off b w \<Longrightarrow> 0 < b \<Longrightarrow> off \<noteq> 0"
  by (auto simp: reg_at_def)

lemma vgicd_write_regs:
  "reg_at off 0x100 w \<Longrightarrow> vgicd_write_for_vcpu g off sz val v = enable_bits g v (of_nat w) (ucast val) True"
  "reg_at off 0x180 w \<Longrightarrow> vgicd_write_for_vcpu g off sz val v = enable_bits g v (of_nat w) (ucast val) False"
  "reg_at off 0x200 w \<Longrightarrow> vgicd_write_for_vcpu g off sz val v = pend_bits g v (of_nat w) (ucast val)"
  "reg_at off 0x280 w \<Longrightarrow> vgicd_write_for_vcpu g off sz val v = vmm_vgic_clear_pending_word g v (of_nat w) (ucast val)"
  "reg_at off 0x380 w \<Longrightarrow> vgicd_write_for_vcpu g off sz val v = vmm_vgic_clear_active_word g v (of_nat w) (ucast val)"
  using reg_at_nonzero [of off _ w]
  by (simp_all add: vgicd_write_for_vcpu_def Let_def reg_at_index)

lemma vgicd_write_sgir: "vgicd_write_for_vcpu g 0xf00 sz val v = handle_sgir g (ucast val) v"
  by (simp add: vgicd_write_for_vcpu_def word_index_unat)

lemma bits32: "k < 32 \<Longrightarrow> bit (ucast (x :: u64) :: u32) k = bit x k"
  by (simp add: bit_ucast_iff)

lemma enable_bits_abs:
  assumes "vgic_ok g" "w < 32"
  shows "vgic_abs (enable_bits g v (of_nat w) (ucast val) en) =
    (vgic_abs g)\<lparr>g_en := en_op en (g_en (vgic_abs g)) (\<Union>k \<in> {k. k < 32 \<and> bit (val :: u64) k}. banked g v (32 * w + k))\<rparr>"
proof -
  have u: "unat (of_nat w :: u32) = w" using assms(2) by (simp add: unat_of_nat)
  have "{k. k < 32 \<and> bit (ucast val :: u32) k} = {k. k < 32 \<and> bit val k}" using bits32 [of _ val] by auto
  then show ?thesis
    using enable_bits_fold [OF assms(1), where w = "of_nat w" and n = 32 and val = "ucast val" and v = v and en = en] assms(2) u
    unfolding enable_bits_def by (simp only: order_refl simp_thms)
qed

section \<open>Properties\<close>

text \<open>
  C23: the core of the virtual GIC implements the abstract controller. Raising an interrupt makes
  it pending at that virtual CPU; an acknowledge returns the lowest interrupt that is pending,
  enabled and not active there, or \<open>- 1\<close> when there is none, moves it from pending to active and
  drops it from the list registers; an end of interrupt makes it inactive. Nothing else changes.
\<close>

theorem vgic_core_refines:
  assumes "vgic_ok (gm_vgic m)" and "valid_vcpu (gm_vgic m) v"
  defines "a \<equiv> vgic_abs (gm_vgic m)"
  shows "vgic_abs (vmm_vgic_set_pending (gm_vgic m) v irq) =
      add_pend (if valid_irq irq then {(unat v, unat irq)} else {}) a \<and>
    vgic_abs (vmm_vgic_eoi (gm_vgic m) v irq) =
      a\<lparr>g_act := g_act a - (if valid_irq irq then {(unat v, unat irq)} else {})\<rparr> \<and>
    (case vmm_vgic_ack m v of (r, m') \<Rightarrow>
       if ready a (unat v) = {} then r = - 1 \<and> m' = m
       else r = int (Min (ready a (unat v))) \<and>
         vgic_abs (gm_vgic m') = a\<lparr>g_pend := g_pend a - {(unat v, nat r)}, g_act := insert (unat v, nat r) (g_act a)\<rparr> \<and>
         \<not> vgicc_lr_has_irq (gm_vgic m') v (of_int r))"
proof -
  note ok = assms(1) and v = assms(2)
  have vn: "unat v < unat (nr_vcpus (gm_vgic m))" by (rule vgic_okD(2) [OF ok v])
  have "shape (gm_vgic m) (gm_vgic m)" using ok by (simp add: shape_def)
  from set_pending_abs [OF this, of v irq] v have p: "vgic_abs (vmm_vgic_set_pending (gm_vgic m) v irq) =
      add_pend (if valid_irq irq then {(unat v, unat irq)} else {}) a" by (simp add: a_def)
  have e: "vgic_abs (vmm_vgic_eoi (gm_vgic m) v irq) = a\<lparr>g_act := g_act a - (if valid_irq irq then {(unat v, unat irq)} else {})\<rparr>"
    using words_abs [OF clear_word_words(2) [OF ok], of v "irq div 32" "irq_bit irq"] v irq_word [of irq]
    by (auto simp: eoi_clear_active a_def irqs_clear vgic_abs_def Let_def)
  from v have k: "case vmm_vgic_ack m v of (r, m') \<Rightarrow>
       if ready a (unat v) = {} then r = - 1 \<and> m' = m
       else r = int (Min (ready a (unat v))) \<and>
         vgic_abs (gm_vgic m') = a\<lparr>g_pend := g_pend a - {(unat v, nat r)}, g_act := insert (unat v, nat r) (g_act a)\<rparr> \<and>
         \<not> vgicc_lr_has_irq (gm_vgic m') v (of_int r)"
  proof (cases rule: next_pending_cases)
    case none
    then show ?thesis by (simp add: vmm_vgic_ack_def a_def)
  next
    case (some i)
    from ack_words [OF ok v some(1,2)] obtain m' where m': "vmm_vgic_ack m v = (int i, m')"
      "words_are (gm_vgic m) (gm_vgic m')
       (at_word True (unat v) (i div 32) (\<lambda>x. x AND NOT (irq_bit (of_nat i))) (pword (gm_vgic m)))
       (at_word True (unat v) (i div 32) (\<lambda>x. x OR irq_bit (of_nat i)) (aword (gm_vgic m))) (eword (gm_vgic m))"
      "\<not> vgicc_lr_has_irq (gm_vgic m') v (of_nat i)" by blast
    have u: "unat (of_nat i :: u32) = i" using some(2) by (simp add: unat_of_nat)
    have "vgic_abs (gm_vgic m') = a\<lparr>g_pend := g_pend a - {(unat v, i)}, g_act := insert (unat v, i) (g_act a)\<rparr>"
      using words_abs [OF m'(2)] irqs_or [of _ True "unat v" "of_nat i"] irqs_clear [of _ True "unat v" "of_nat i"] some(2) u vn
      by (simp add: a_def vgic_abs_def Let_def)
    then show ?thesis using m'(1,3) some(4,5) by (simp add: a_def least_irq_def)
  qed
  from p e k show ?thesis by blast
qed

definition gic_m0 :: gic_machine where
  "gic_m0 = \<lparr>gm_vgic = vmm_vgic_set_pending (vmm_vgic_init 2) 1 3, gm_lr = replicate 4 0\<rparr>"

lemma vgic_init_ok: "vgic_ok (vmm_vgic_init n)"
  by (auto simp: vmm_vgic_init_def vgic_zero_def vcpu_zero_def vgic_ok_def Let_def unat_of_nat word_less_nat_alt word_le_nat_alt)

lemma gic_m0_ok: "vgic_ok (gm_vgic gic_m0)" "valid_vcpu (gm_vgic gic_m0) 1"
proof -
  show "vgic_ok (gm_vgic gic_m0)" using set_pending_words [OF vgic_init_ok, of 2 1 3] by (simp add: gic_m0_def words_are_def)
  have "nr_vcpus (gm_vgic gic_m0) = 2"
    using set_pending_words [OF vgic_init_ok, of 2 1 3] by (simp add: gic_m0_def words_are_def vmm_vgic_init_def)
  then show "valid_vcpu (gm_vgic gic_m0) 1" by (simp add: valid_vcpu_def)
qed

theorem vgic_core_refines_witness:
  "vmm_vgic_next_pending (gm_vgic gic_m0) 1 = 3 \<and>
   (case vmm_vgic_ack gic_m0 1 of (r, m') \<Rightarrow>
      if ready (vgic_abs (gm_vgic gic_m0)) (unat (1 :: u32)) = {} then r = - 1 \<and> m' = gic_m0
      else r = int (Min (ready (vgic_abs (gm_vgic gic_m0)) (unat (1 :: u32)))) \<and>
        vgic_abs (gm_vgic m') = (vgic_abs (gm_vgic gic_m0))
          \<lparr>g_pend := g_pend (vgic_abs (gm_vgic gic_m0)) - {(unat (1 :: u32), nat r)},
           g_act := insert (unat (1 :: u32), nat r) (g_act (vgic_abs (gm_vgic gic_m0)))\<rparr> \<and>
        \<not> vgicc_lr_has_irq (gm_vgic m') 1 (of_int r))"
proof -
  have "vmm_vgic_next_pending (gm_vgic gic_m0) 1 = 3" by code_simp
  then show ?thesis
    by (rule conjI [OF _ vgic_core_refines [OF gic_m0_ok, of 0, THEN conjunct2, THEN conjunct2]])
qed





text \<open>
  C26: from the state that \<open>vmm_vgic_init\<close> leaves, whatever interrupts are raised, whatever the
  guest writes and reads, however virtual CPUs enter and leave the guest and whatever the hardware
  leaves in the list registers: the arrays keep their sizes and the number of virtual CPUs stays
  within them, and an acknowledge returns an interrupt below 1020 or \<open>- 1\<close>, so that the 1023 the
  guest reads from \<^verbatim>\<open>GICC_IAR\<close> always means that there is none.
\<close>

theorem vgic_running_ok:
  "case fold gic_step ops \<lparr>gm_vgic = vmm_vgic_init n, gm_lr = replicate VGIC_MAX_LRS 0\<rparr> of m \<Rightarrow>
     gic_ok m \<and> fst (vmm_vgic_ack m v) \<in> {- 1..<1020}"
proof -
  let ?m0 = "\<lparr>gm_vgic = vmm_vgic_init n, gm_lr = replicate VGIC_MAX_LRS 0\<rparr>"
  define m where "m = fold gic_step ops ?m0"
  have "pword (vmm_vgic_init n) w j = 0" if "w < 12" "j < 32" for w j
    using that by (simp add: vmm_vgic_init_def vgic_zero_def vcpu_zero_def pword_def Let_def)
  then have "gic_ok ?m0" by (auto simp: gic_ok_def vgic_inv_def vgic_init_ok)
  then have ok: "gic_ok m" unfolding m_def by (intro fold_keeps [where P = gic_ok]) (rule gic_step_ok)
  then have "fst (vmm_vgic_ack m v) \<in> {- 1..<1020}" by (rule ack_range)
  with ok show ?thesis by (simp only: m_def [symmetric])
qed

end
