(* ===== verification/Pipe.thy ===== *)
theory Pipe
  imports Ring Bits
begin

text \<open>
  Kernel pipes, \<^verbatim>\<open>kernel/syscall/fs/pipe.c\<close> and \<^verbatim>\<open>pipe.h\<close>. A read or write call runs until it
  returns or until \<^verbatim>\<open>task_block\<close>; this stretch is one \<open>pass\<close>, and a blocked call continues with
  another pass once its task runs again. What a pass does to other tasks (waking them, notifying
  epoll waiters, sending a signal) is its list of events. Tasks are their addresses, 0 is NULL.
\<close>

unbundle bit_operations_syntax

section \<open>State\<close>

abbreviation (input) PIPE_BUF_SIZE :: u32 where
  "PIPE_BUF_SIZE \<equiv> 4096"

abbreviation (input) PIPE_MAX :: nat where
  "PIPE_MAX \<equiv> 16"

record pipe_t =
  p_buf :: "u8 list"
  p_rd :: u32
  p_wr :: u32
  p_count :: u32
  p_rd_refcount :: int
  p_wr_refcount :: int
  p_rd_pool_idx :: int
  p_wr_pool_idx :: int
  p_blocked_reader :: u64
  p_blocked_writer :: u64

definition pipe_zero :: pipe_t where
  "pipe_zero =
     \<lparr>p_buf = replicate 4096 0, p_rd = 0, p_wr = 0, p_count = 0, p_rd_refcount = 0, p_wr_refcount = 0,
      p_rd_pool_idx = 0, p_wr_pool_idx = 0, p_blocked_reader = 0, p_blocked_writer = 0\<rparr>"

text \<open>The fields of the calling task that the pipe code reads.\<close>

record pipe_task =
  t_addr :: u64
  t_pending_sigs :: u64
  t_blocked_sigs :: u64
  t_sa_handler :: "u64 list"

datatype pipe_event = Unblock u64 | Notify int u32 | Signal u64 nat

datatype call = Returned int | Blocked

definition pipe_slot_alloc :: "pipe_t list \<Rightarrow> int" where
  "pipe_slot_alloc g =
     (case List.find (\<lambda>i. p_rd_refcount (g ! i) = 0 \<and> p_wr_refcount (g ! i) = 0) [0..<PIPE_MAX] of
        Some i \<Rightarrow> int i | None \<Rightarrow> - 1)"

definition pipe_get_by_idx :: "pipe_t list \<Rightarrow> int \<Rightarrow> pipe_t option" where
  "pipe_get_by_idx g pi =
     (if pi < 0 \<or> pi \<ge> int PIPE_MAX then None
      else let p = g ! nat pi in if p_rd_refcount p = 0 \<and> p_wr_refcount p = 0 then None else Some p)"

section \<open>Signals\<close>

abbreviation (input) SIG_DFL :: u64 where
  "SIG_DFL \<equiv> 0"

abbreviation (input) SIG_IGN :: u64 where
  "SIG_IGN \<equiv> 1"

definition default_ignored :: "nat \<Rightarrow> bool" where
  "default_ignored sig \<longleftrightarrow> sig \<in> set [17, 18, 23, 28, 21, 22, 20]"

function interrupts_loop :: "u64 list \<Rightarrow> u64 \<Rightarrow> bool" where
  "interrupts_loop handlers unblocked =
     (if unblocked \<noteq> 0
      then let i = unat (bit_number (unblocked AND (NOT unblocked + 1)) 0);
               rest = unblocked AND (unblocked - 1);
               h = handlers ! i
           in if h = SIG_IGN then interrupts_loop handlers rest
              else if h \<noteq> SIG_DFL then True
              else if default_ignored (i + 1) then interrupts_loop handlers rest
              else True
      else False)"
  by auto
termination
  by (relation "measure (\<lambda>(h, c). unat c)") (simp_all add: clear_lowest_less)

declare interrupts_loop.simps [simp del]

definition pipe_interrupts :: "pipe_task \<Rightarrow> bool" where
  "pipe_interrupts t = interrupts_loop (t_sa_handler t) (t_pending_sigs t AND NOT (t_blocked_sigs t))"

section \<open>Bytes\<close>

definition pipe_pop :: "pipe_t \<Rightarrow> u8 \<times> pipe_t" where
  "pipe_pop p = (p_buf p ! unat (p_rd p mod PIPE_BUF_SIZE), p\<lparr>p_rd := p_rd p + 1, p_count := p_count p - 1\<rparr>)"

definition pipe_push :: "pipe_t \<Rightarrow> u8 \<Rightarrow> pipe_t" where
  "pipe_push p c =
     p\<lparr>p_buf := (p_buf p)[unat (p_wr p mod PIPE_BUF_SIZE) := c], p_wr := p_wr p + 1, p_count := p_count p + 1\<rparr>"

text \<open>The inner loops: take at most \<open>n\<close> bytes, put as many of the bytes as fit.\<close>

primrec pipe_take :: "nat \<Rightarrow> pipe_t \<Rightarrow> u8 list \<times> pipe_t" where
  "pipe_take 0 p = ([], p)"
| "pipe_take (Suc n) p =
     (if p_count p > 0 then let (c, p) = pipe_pop p; (cs, p) = pipe_take n p in (c # cs, p) else ([], p))"

fun pipe_put :: "pipe_t \<Rightarrow> u8 list \<Rightarrow> nat \<times> pipe_t" where
  "pipe_put p [] = (0, p)"
| "pipe_put p (c # cs) =
     (if p_count p < PIPE_BUF_SIZE then let (k, p) = pipe_put (pipe_push p c) cs in (Suc k, p) else (0, p))"

text \<open>\<^verbatim>\<open>(int)total\<close>\<close>

definition to_int :: "nat \<Rightarrow> int" where
  "to_int n = sint (of_nat n :: u32)"

section \<open>Reading\<close>

definition wake :: "u64 \<Rightarrow> pipe_event list" where
  "wake t = (if t \<noteq> 0 then [Unblock t] else [])"

definition pipe_read_pass :: "pipe_task \<Rightarrow> nat \<Rightarrow> bool \<Rightarrow> pipe_t \<Rightarrow> call \<times> u8 list \<times> pipe_t \<times> pipe_event list" where
  "pipe_read_pass t n nonblock p =
     (let (cs, p) = pipe_take n p
      in if cs \<noteq> []
         then (Returned (to_int (length cs)), cs, p\<lparr>p_blocked_writer := 0\<rparr>,
               wake (p_blocked_writer p) @ [Notify (p_wr_pool_idx p) 0x004])
         else if p_wr_refcount p \<le> 0 then (Returned 0, [], p, [])
         else if nonblock then (Returned (- 11), [], p, [])
         else if pipe_interrupts t then (Returned (- 4), [], p, [])
         else (Blocked, [], p\<lparr>p_blocked_reader := t_addr t\<rparr>, []))"

definition pipe_read_resume :: "pipe_task \<Rightarrow> nat \<Rightarrow> bool \<Rightarrow> pipe_t \<Rightarrow> call \<times> u8 list \<times> pipe_t \<times> pipe_event list" where
  "pipe_read_resume t n nonblock p = pipe_read_pass t n nonblock (p\<lparr>p_blocked_reader := 0\<rparr>)"

definition pipe_read_endpoint ::
  "pipe_task \<Rightarrow> pipe_t list \<Rightarrow> int \<Rightarrow> nat \<Rightarrow> bool \<Rightarrow> call \<times> u8 list \<times> pipe_t list \<times> pipe_event list" where
  "pipe_read_endpoint t g pi n nonblock =
     (case pipe_get_by_idx g pi of
        None \<Rightarrow> (Returned (- 1), [], g, [])
      | Some p \<Rightarrow>
          if p_rd_refcount p \<le> 0 then (Returned (- 1), [], g, [])
          else let (r, cs, p, es) = pipe_read_pass t n nonblock p in (r, cs, g[nat pi := p], es))"

section \<open>Writing\<close>

text \<open>One round of the outer loop, with the bytes that are left and the number already written. A
  blocked call keeps both.\<close>

definition pipe_write_pass ::
  "pipe_task \<Rightarrow> u8 list \<Rightarrow> nat \<Rightarrow> bool \<Rightarrow> pipe_t \<Rightarrow> call \<times> (u8 list \<times> nat) \<times> pipe_t \<times> pipe_event list" where
  "pipe_write_pass t src tot nonblock p =
     (if src = [] then (Returned (to_int tot), (src, tot), p, [])
      else let (k, p) = pipe_put p src;
               tot = tot + k;
               src = drop k src;
               es = wake (p_blocked_reader p) @ [Notify (p_rd_pool_idx p) 0x001];
               p = p\<lparr>p_blocked_reader := 0\<rparr>
           in if src \<noteq> []
              then if p_rd_refcount p \<le> 0
                   then (Returned (if tot > 0 then to_int tot else - 32), (src, tot), p, es @ [Signal (t_addr t) 13])
                   else if nonblock then (Returned (if tot > 0 then to_int tot else - 11), (src, tot), p, es)
                   else (Blocked, (src, tot), p\<lparr>p_blocked_writer := t_addr t\<rparr>, es)
              else (Returned (to_int tot), (src, tot), p, es))"

definition pipe_write_resume ::
  "pipe_task \<Rightarrow> u8 list \<Rightarrow> nat \<Rightarrow> bool \<Rightarrow> pipe_t \<Rightarrow> call \<times> (u8 list \<times> nat) \<times> pipe_t \<times> pipe_event list" where
  "pipe_write_resume t src tot nonblock p = pipe_write_pass t src tot nonblock (p\<lparr>p_blocked_writer := 0\<rparr>)"

definition pipe_write_endpoint ::
  "pipe_task \<Rightarrow> pipe_t list \<Rightarrow> int \<Rightarrow> u8 list \<Rightarrow> bool \<Rightarrow> call \<times> (u8 list \<times> nat) \<times> pipe_t list \<times> pipe_event list" where
  "pipe_write_endpoint t g pi src nonblock =
     (case pipe_get_by_idx g pi of
        None \<Rightarrow> (Returned (- 1), (src, 0), g, [])
      | Some p \<Rightarrow>
          if p_wr_refcount p \<le> 0 then (Returned (- 1), (src, 0), g, [])
          else if p_rd_refcount p \<le> 0 then (Returned (- 32), (src, 0), g, [Signal (t_addr t) 13])
          else let (r, st, p, es) = pipe_write_pass t src 0 nonblock p in (r, st, g[nat pi := p], es))"

section \<open>Reference counts and polling\<close>

definition pipe_ref_endpoint :: "pipe_t list \<Rightarrow> int \<Rightarrow> bool \<Rightarrow> pipe_t list" where
  "pipe_ref_endpoint g pi is_write_end =
     (case pipe_get_by_idx g pi of
        None \<Rightarrow> g
      | Some p \<Rightarrow>
          g[nat pi := if is_write_end then p\<lparr>p_wr_refcount := p_wr_refcount p + 1\<rparr>
                      else p\<lparr>p_rd_refcount := p_rd_refcount p + 1\<rparr>])"

text \<open>Closing on the pipe itself.\<close>

definition pipe_close :: "pipe_t \<Rightarrow> bool \<Rightarrow> pipe_t \<times> pipe_event list" where
  "pipe_close p is_write_end =
     (if is_write_end
      then let n = p_wr_refcount p - 1
           in if n \<le> 0
              then (p\<lparr>p_wr_refcount := 0, p_blocked_reader := 0\<rparr>, wake (p_blocked_reader p) @ [Notify (p_rd_pool_idx p) 0x010])
              else (p\<lparr>p_wr_refcount := n\<rparr>, [])
      else let n = p_rd_refcount p - 1
           in if n \<le> 0
              then (p\<lparr>p_rd_refcount := 0, p_blocked_writer := 0\<rparr>, wake (p_blocked_writer p) @ [Notify (p_wr_pool_idx p) 0x008])
              else (p\<lparr>p_rd_refcount := n\<rparr>, []))"

definition pipe_close_endpoint :: "pipe_t list \<Rightarrow> int \<Rightarrow> bool \<Rightarrow> pipe_t list \<times> pipe_event list" where
  "pipe_close_endpoint g pi is_write_end =
     (case pipe_get_by_idx g pi of
        None \<Rightarrow> (g, [])
      | Some p \<Rightarrow> let (p, es) = pipe_close p is_write_end in (g[nat pi := p], es))"

definition pipe_poll_readable_endpoint :: "pipe_t list \<Rightarrow> int \<Rightarrow> bool" where
  "pipe_poll_readable_endpoint g pi =
     (case pipe_get_by_idx g pi of None \<Rightarrow> False | Some p \<Rightarrow> p_count p > 0 \<or> p_wr_refcount p \<le> 0)"

definition pipe_poll_writable_endpoint :: "pipe_t list \<Rightarrow> int \<Rightarrow> bool" where
  "pipe_poll_writable_endpoint g pi =
     (case pipe_get_by_idx g pi of None \<Rightarrow> False | Some p \<Rightarrow> p_count p < PIPE_BUF_SIZE \<or> p_rd_refcount p \<le> 0)"

section \<open>The buffer is a queue\<close>

definition pipe_ok :: "pipe_t \<Rightarrow> bool" where
  "pipe_ok p \<longleftrightarrow> length (p_buf p) = 4096 \<and> unat (p_count p) \<le> 4096 \<and> p_wr p = p_rd p + p_count p"

definition pipe_list :: "pipe_t \<Rightarrow> u8 list" where
  "pipe_list p = map (\<lambda>i. p_buf p ! ((unat (p_rd p) + i) mod 4096)) [0..<unat (p_count p)]"

lemma length_pipe_list [simp]: "length (pipe_list p) = unat (p_count p)"
  by (simp add: pipe_list_def)

lemma pipe_count_pos: "p_count p > 0 \<longleftrightarrow> pipe_list p \<noteq> []"
  by (metis length_pipe_list length_0_conv unat_eq_0 word_neq_0_conv)

lemma unat_add_mod_page: "unat (x + y :: u32) mod 4096 = (unat x + unat y) mod 4096"
  by (simp add: unat_word_ariths mod_mod_cancel)

lemma pipe_push_ok:
  assumes "pipe_ok p" "length (pipe_list p) < 4096"
  shows "pipe_ok (pipe_push p c)" "pipe_list (pipe_push p c) = pipe_list p @ [c]"
proof -
  have u: "unat (p_count p + 1) = unat (p_count p) + 1" using assms by (intro unat_inc32) simp
  show "pipe_ok (pipe_push p c)" using assms u by (simp add: pipe_ok_def pipe_push_def)
  have w: "unat (p_wr p mod 4096) = (unat (p_rd p) + unat (p_count p)) mod 4096"
    using assms by (simp add: pipe_ok_def unat_mod_distrib unat_add_mod_page)
  have "(p_buf p)[unat (p_wr p mod 4096) := c] ! ((unat (p_rd p) + i) mod 4096) = p_buf p ! ((unat (p_rd p) + i) mod 4096)"
    if "i < unat (p_count p)" for i
    using mod_add_neq [OF that, of 4096 "unat (p_rd p)"] assms(2) by (metis length_pipe_list nth_list_update_neq w)
  then show "pipe_list (pipe_push p c) = pipe_list p @ [c]"
    using assms(1) u w by (simp add: pipe_list_def pipe_push_def pipe_ok_def)
qed

lemma pipe_pop_ok:
  assumes "pipe_ok p" "pipe_list p \<noteq> []"
  shows "pipe_ok (snd (pipe_pop p))" "pipe_list p = fst (pipe_pop p) # pipe_list (snd (pipe_pop p))"
proof -
  have nz: "p_count p \<noteq> 0" using assms(2) by (auto simp: pipe_list_def)
  have u: "unat (p_count p - 1) = unat (p_count p) - 1" "0 < unat (p_count p)"
    using unat_dec32 [OF nz] nz by (simp_all add: unat_gt_0)
  show "pipe_ok (snd (pipe_pop p))" using assms(1) u by (auto simp: pipe_ok_def pipe_pop_def)
  have "[0..<unat (p_count p)] = 0 # map Suc [0..<unat (p_count p) - 1]"
    using u(2) by (metis Suc_diff_1 map_Suc_upt upt_conv_Cons)
  moreover have "(unat (p_rd p + 1) + i) mod 4096 = (unat (p_rd p) + Suc i) mod 4096" for i
  proof -
    have "(unat (p_rd p + 1) + i) mod 4096 = (unat (p_rd p + 1) mod 4096 + i) mod 4096" by (simp only: mod_add_left_eq)
    also have "\<dots> = (unat (p_rd p) + 1 + i) mod 4096" by (simp only: unat_add_mod_page mod_add_left_eq unat_1)
    finally show ?thesis by simp
  qed
  ultimately show "pipe_list p = fst (pipe_pop p) # pipe_list (snd (pipe_pop p))"
    using u by (simp add: pipe_list_def pipe_pop_def unat_mod_distrib)
qed

interpretation pipe: byte_fifo pipe_ok pipe_list 4096 pipe_push pipe_pop
proof
  show "length (pipe_list p) \<le> 4096" if "pipe_ok p" for p using that by (simp add: pipe_ok_def)
qed (fact pipe_push_ok pipe_pop_ok)+

text \<open>Everything but the buffer.\<close>

definition same_ends :: "pipe_t \<Rightarrow> pipe_t \<Rightarrow> bool" where
  "same_ends p p' \<longleftrightarrow>
     p_rd_refcount p' = p_rd_refcount p \<and> p_wr_refcount p' = p_wr_refcount p \<and>
     p_rd_pool_idx p' = p_rd_pool_idx p \<and> p_wr_pool_idx p' = p_wr_pool_idx p \<and>
     p_blocked_reader p' = p_blocked_reader p \<and> p_blocked_writer p' = p_blocked_writer p"

lemma same_ends_trans: "same_ends p q \<Longrightarrow> same_ends q r \<Longrightarrow> same_ends p r"
  by (simp add: same_ends_def)

lemma same_ends_bytes: "same_ends p (snd (pipe_pop p))" "same_ends p (pipe_push p c)" "same_ends p p"
  by (simp_all add: same_ends_def pipe_pop_def pipe_push_def)

lemma pipe_take_spec:
  "pipe_ok p \<Longrightarrow> pipe_take n p = (cs, p') \<Longrightarrow>
   cs = take n (pipe_list p) \<and> pipe_list p' = drop n (pipe_list p) \<and> pipe_ok p' \<and> same_ends p p'"
proof (induction n arbitrary: p cs p')
  case 0
  then show ?case by (auto simp: same_ends_bytes)
next
  case (Suc n)
  show ?case
  proof (cases "pipe_list p = []")
    case True
    then show ?thesis using Suc.prems pipe_count_pos [of p] by (auto simp: same_ends_bytes)
  next
    case False
    obtain cs' where cs': "pipe_take n (snd (pipe_pop p)) = (cs', p')" "cs = fst (pipe_pop p) # cs'"
      using Suc.prems(2) False pipe_count_pos [of p] by (auto split: prod.splits)
    from Suc.IH [OF pipe.pop_inv [OF Suc.prems(1) False] cs'(1)] pipe.pop_contents [OF Suc.prems(1) False] cs'(2)
    show ?thesis using same_ends_trans [OF same_ends_bytes(1)] by (metis drop_Suc_Cons take_Suc_Cons)
  qed
qed

lemma pipe_put_spec:
  "pipe_ok p \<Longrightarrow> pipe_put p src = (k, p') \<Longrightarrow>
   k = min (length src) (4096 - length (pipe_list p)) \<and> pipe_list p' = pipe_list p @ take k src \<and> pipe_ok p' \<and> same_ends p p'"
proof (induction src arbitrary: p k p')
  case Nil
  then show ?case by (auto simp: same_ends_bytes)
next
  case (Cons c src)
  show ?case
  proof (cases "length (pipe_list p) < 4096")
    case False
    then show ?thesis using Cons.prems by (auto simp: same_ends_bytes word_less_nat_alt)
  next
    case True
    obtain k' where k': "pipe_put (pipe_push p c) src = (k', p')" "k = Suc k'"
      using Cons.prems(2) True by (auto simp: word_less_nat_alt split: prod.splits)
    note P = pipe_push_ok [OF Cons.prems(1) True, of c]
    from Cons.IH [OF P(1) k'(1)] have "k' = min (length src) (4096 - (length (pipe_list p) + 1))"
      "pipe_list p' = pipe_list p @ c # take k' src" "pipe_ok p'" "same_ends (pipe_push p c) p'"
      using P(2) by (simp_all del: length_pipe_list)
    then show ?thesis
      using True k'(2) same_ends_trans [OF same_ends_bytes(2)] by (auto simp del: length_pipe_list)
  qed
qed

section \<open>What a pass does\<close>

lemma to_int_small: "n \<le> 4096 \<Longrightarrow> to_int n = int n"
  by (simp add: to_int_def signed_of_nat signed_take_bit_int_eq_self)

lemma read_pass_cases:
  assumes ok: "pipe_ok p" and r: "pipe_read_pass t n nb p = (res, cs, p', es)" and n: "0 < n"
  obtains (data) "pipe_list p \<noteq> []" "cs = take n (pipe_list p)" "res = Returned (int (length cs))" "cs \<noteq> []" "pipe_ok p'"
      "pipe_list p' = drop n (pipe_list p)" "same_ends (p\<lparr>p_blocked_writer := 0\<rparr>) p'"
      "p_blocked_writer p \<noteq> 0 \<longrightarrow> Unblock (p_blocked_writer p) \<in> set es"
  | (ret) "pipe_list p = []" "cs = []" "res \<noteq> Blocked" "pipe_ok p'" "pipe_list p' = []" "same_ends p p'" "es = []"
      "res = Returned 0 \<longleftrightarrow> p_wr_refcount p \<le> 0"
  | (block) "pipe_list p = []" "cs = []" "res = Blocked" "pipe_ok p'" "pipe_list p' = []"
      "same_ends (p\<lparr>p_blocked_reader := t_addr t\<rparr>) p'" "es = []" "0 < p_wr_refcount p"
proof -
  obtain cs1 p1 where tk: "pipe_take n p = (cs1, p1)" by force
  note T = pipe_take_spec [OF ok tk]
  have len: "length cs1 \<le> 4096" using T ok by (auto simp: pipe_ok_def)
  show thesis
  proof (cases "pipe_list p = []")
    case True
    then have z: "cs1 = []" "pipe_list p1 = []" "pipe_ok p1" "same_ends p p1" "p_wr_refcount p1 = p_wr_refcount p"
      using T by (simp_all add: same_ends_def)
    show thesis
    proof (cases "res = Blocked")
      case B: True
      with r tk z have "cs = []" "p' = p1\<lparr>p_blocked_reader := t_addr t\<rparr>" "es = []" "0 < p_wr_refcount p"
        by (auto simp: pipe_read_pass_def split: if_splits)
      then show thesis using True z B
        by (intro block) (simp_all add: pipe_ok_def pipe_list_def same_ends_def)
    next
      case B: False
      with r tk z have "cs = []" "p' = p1" "es = []" "res = Returned 0 \<longleftrightarrow> p_wr_refcount p \<le> 0"
        by (auto simp: pipe_read_pass_def split: if_splits)
      then show thesis using True z B by (intro ret) simp_all
    qed
  next
    case False
    then have ne: "cs1 \<noteq> []" using T n by simp
    with r tk have "cs = cs1" "p' = p1\<lparr>p_blocked_writer := 0\<rparr>" "res = Returned (to_int (length cs1))"
      "es = wake (p_blocked_writer p1) @ [Notify (p_wr_pool_idx p1) 0x004]"
      by (auto simp: pipe_read_pass_def)
    then show thesis using False T ne len
      by (intro data) (auto simp: pipe_ok_def pipe_list_def same_ends_def wake_def to_int_small)
  qed
qed

lemma write_pass_cases:
  assumes ok: "pipe_ok p" and r: "pipe_write_pass t src tot nb p = (res, (src', tot'), p', es)" and src: "src \<noteq> []"
  obtains k where "src' = drop k src" "tot' = tot + k" "k \<le> length src" "pipe_ok p'" "pipe_list p' = pipe_list p @ take k src"
    "p_blocked_reader p' = 0" "p_blocked_reader p \<noteq> 0 \<longrightarrow> Unblock (p_blocked_reader p) \<in> set es"
    "same_ends (p\<lparr>p_blocked_reader := 0, p_blocked_writer := if res = Blocked then t_addr t else p_blocked_writer p\<rparr>) p'"
    "res = Blocked \<longrightarrow> length (pipe_list p') = 4096 \<and> 0 < p_rd_refcount p"
    "\<forall>u. Unblock u \<in> set es \<longrightarrow> u = p_blocked_reader p"
proof -
  obtain k p1 where pt: "pipe_put p src = (k, p1)" by force
  note P = pipe_put_spec [OF ok pt]
  have k: "k \<le> length src" using P by simp
  have full: "length (pipe_list p1) = 4096" if "drop k src \<noteq> []"
  proof -
    have "k < length src" using that by simp
    then have "k = 4096 - length (pipe_list p)" "length (take k src) = k" using P by (simp_all add: min_def split: if_splits)
    then show ?thesis using P ok by (simp add: pipe_ok_def del: length_pipe_list) (simp add: pipe_ok_def)
  qed
  have e: "p_rd_refcount p1 = p_rd_refcount p" "p_blocked_reader p1 = p_blocked_reader p" "p_blocked_writer p1 = p_blocked_writer p"
    using P by (simp_all add: same_ends_def)
  let ?q = "\<lambda>x. p1\<lparr>p_blocked_reader := 0, p_blocked_writer := x\<rparr>"
  have q: "pipe_ok (?q x)" "pipe_list (?q x) = pipe_list p1" for x
    using P by (simp_all add: pipe_ok_def pipe_list_def)
  have "src' = drop k src" "tot' = tot + k" "p' = ?q (if res = Blocked then t_addr t else p_blocked_writer p)"
    "res = Blocked \<longrightarrow> drop k src \<noteq> [] \<and> 0 < p_rd_refcount p"
    "p_blocked_reader p \<noteq> 0 \<longrightarrow> Unblock (p_blocked_reader p) \<in> set es"
    "\<forall>u. Unblock u \<in> set es \<longrightarrow> u = p_blocked_reader p"
    using r src pt e by (auto simp: pipe_write_pass_def wake_def Let_def split: if_splits)
  note D = this
  have se: "same_ends p p1" and l: "pipe_list p1 = pipe_list p @ take k src" using P by simp_all
  show thesis
  proof (rule that [of k])
    show "pipe_ok p'" "pipe_list p' = pipe_list p @ take k src" "p_blocked_reader p' = 0" by (simp_all only: D(3) q l) simp
    show "same_ends (p\<lparr>p_blocked_reader := 0, p_blocked_writer := if res = Blocked then t_addr t else p_blocked_writer p\<rparr>) p'"
      using se by (simp add: D(3) same_ends_def)
    show "res = Blocked \<longrightarrow> length (pipe_list p') = 4096 \<and> 0 < p_rd_refcount p"
      using D(4) full by (simp only: D(3) q) blast
  qed (fact D k)+
qed

section \<open>A reader and a writer\<close>

text \<open>
  A pipe shared by a reading task \<open>r\<close> and a writing task \<open>w\<close>. A task sleeps from the pass that blocks
  until some task unblocks it (a signal may also wake it). The ghost fields are the bytes
  accepted from the writer and delivered to the reader, and the calls that are blocked.
\<close>

record pipe_sys =
  s_pipe :: pipe_t
  s_asleep :: "u64 set"
  s_in :: "u8 list"
  s_out :: "u8 list"
  s_reading :: "nat option"
  s_writing :: "(u8 list \<times> nat) option"

definition sleepers :: "u64 set \<Rightarrow> pipe_event list \<Rightarrow> u64 \<Rightarrow> call \<Rightarrow> u64 set" where
  "sleepers A es t res = A - {u. Unblock u \<in> set es} \<union> (if res = Blocked then {t} else {})"

definition after_read :: "u64 \<Rightarrow> nat \<Rightarrow> pipe_sys \<Rightarrow> call \<times> u8 list \<times> pipe_t \<times> pipe_event list \<Rightarrow> pipe_sys" where
  "after_read r n s x =
     (case x of (res, cs, p, es) \<Rightarrow>
        s\<lparr>s_pipe := p, s_out := s_out s @ cs, s_asleep := sleepers (s_asleep s) es r res,
          s_reading := if res = Blocked then Some n else None\<rparr>)"

definition after_write :: "u64 \<Rightarrow> u8 list \<Rightarrow> pipe_sys \<Rightarrow> call \<times> (u8 list \<times> nat) \<times> pipe_t \<times> pipe_event list \<Rightarrow> pipe_sys" where
  "after_write w src s x =
     (case x of (res, (src', tot'), p, es) \<Rightarrow>
        s\<lparr>s_pipe := p, s_in := s_in s @ take (length src - length src') src, s_asleep := sleepers (s_asleep s) es w res,
          s_writing := if res = Blocked then Some (src', tot') else None\<rparr>)"

text \<open>The read handler answers a request for no bytes itself, so a call asks for at least one.\<close>

inductive pipe_step :: "u64 \<Rightarrow> u64 \<Rightarrow> pipe_sys \<Rightarrow> pipe_sys \<Rightarrow> bool" for r w where
  rd: "s_reading s = None \<Longrightarrow> t_addr t = r \<Longrightarrow> 0 < n \<Longrightarrow>
    pipe_step r w s (after_read r n s (pipe_read_pass t n nb (s_pipe s)))"
| rd_again: "s_reading s = Some n \<Longrightarrow> r \<notin> s_asleep s \<Longrightarrow> t_addr t = r \<Longrightarrow> 0 < n \<Longrightarrow>
    pipe_step r w s (after_read r n s (pipe_read_resume t n nb (s_pipe s)))"
| wr: "s_writing s = None \<Longrightarrow> t_addr t = w \<Longrightarrow> src \<noteq> [] \<Longrightarrow>
    pipe_step r w s (after_write w src s (pipe_write_pass t src 0 nb (s_pipe s)))"
| wr_again: "s_writing s = Some (src, tot) \<Longrightarrow> w \<notin> s_asleep s \<Longrightarrow> t_addr t = w \<Longrightarrow> src \<noteq> [] \<Longrightarrow>
    pipe_step r w s (after_write w src s (pipe_write_resume t src tot nb (s_pipe s)))"
| close_end: "pipe_close (s_pipe s) is_write_end = (p, es) \<Longrightarrow>
    pipe_step r w s (s\<lparr>s_pipe := p, s_asleep := s_asleep s - {u. Unblock u \<in> set es}\<rparr>)"
| ref_end: "pipe_ref_endpoint [s_pipe s] 0 is_write_end = [p] \<Longrightarrow> pipe_step r w s (s\<lparr>s_pipe := p\<rparr>)"
| woken: "pipe_step r w s (s\<lparr>s_asleep := s_asleep s - {u}\<rparr>)"

definition pipe_start :: "pipe_t \<Rightarrow> pipe_sys" where
  "pipe_start p = \<lparr>s_pipe = p, s_asleep = {}, s_in = [], s_out = [], s_reading = None, s_writing = None\<rparr>"

definition pipe_inv :: "u64 \<Rightarrow> u64 \<Rightarrow> pipe_sys \<Rightarrow> bool" where
  "pipe_inv r w s \<longleftrightarrow>
     pipe_ok (s_pipe s) \<and> s_out s @ pipe_list (s_pipe s) = s_in s \<and>
     (r \<in> s_asleep s \<longrightarrow> s_reading s \<noteq> None \<and> p_blocked_reader (s_pipe s) = r \<and> pipe_list (s_pipe s) = [] \<and>
        0 < p_wr_refcount (s_pipe s)) \<and>
     (w \<in> s_asleep s \<longrightarrow> s_writing s \<noteq> None \<and> p_blocked_writer (s_pipe s) = w \<and> length (pipe_list (s_pipe s)) = 4096 \<and>
        0 < p_rd_refcount (s_pipe s))"

lemma pipe_invD:
  assumes "pipe_inv r w s"
  shows "pipe_ok (s_pipe s)" "s_out s @ pipe_list (s_pipe s) = s_in s"
    "r \<in> s_asleep s \<Longrightarrow> s_reading s \<noteq> None \<and> p_blocked_reader (s_pipe s) = r \<and> pipe_list (s_pipe s) = [] \<and> 0 < p_wr_refcount (s_pipe s)"
    "w \<in> s_asleep s \<Longrightarrow> s_writing s \<noteq> None \<and> p_blocked_writer (s_pipe s) = w \<and> length (pipe_list (s_pipe s)) = 4096 \<and>
        0 < p_rd_refcount (s_pipe s)"
  using assms unfolding pipe_inv_def by blast+

lemma inv_after_read:
  assumes inv: "pipe_inv r w s" and r: "r \<notin> s_asleep s" "r \<noteq> w" "r \<noteq> 0" "w \<noteq> 0" and t: "t_addr t = r" and n: "0 < n"
    and p: "pipe_ok p" "pipe_list p = pipe_list (s_pipe s)" "same_ends ((s_pipe s)\<lparr>p_blocked_reader := b\<rparr>) p"
  shows "pipe_inv r w (after_read r n s (pipe_read_pass t n nb p))"
proof -
  obtain res cs p' es where x: "pipe_read_pass t n nb p = (res, cs, p', es)" by (metis prod_cases4)
  note I = pipe_invD [OF inv]
  have e: "p_blocked_writer p = p_blocked_writer (s_pipe s)" "p_rd_refcount p = p_rd_refcount (s_pipe s)"
    using p(3) by (simp_all add: same_ends_def)
  from p(1) x n show ?thesis
  proof (cases rule: read_pass_cases)
    case data
    have "s_out s @ cs @ pipe_list p' = s_in s" using I(2) data p(2) by (metis append_take_drop_id)
    moreover have "w \<notin> sleepers (s_asleep s) es r res"
      using I(4) data(8) data(3) e(1) r by (auto simp: sleepers_def)
    moreover have "r \<notin> sleepers (s_asleep s) es r res" using r(1) data(3) by (auto simp: sleepers_def)
    ultimately show ?thesis using data(5) by (simp add: x after_read_def pipe_inv_def)
  next
    case ret
    have "w \<notin> s_asleep s" using I(4) ret(1) p(2) by (metis list.size(3) zero_neq_numeral)
    then have "w \<notin> sleepers (s_asleep s) es r res" "r \<notin> sleepers (s_asleep s) es r res"
      using ret(3) r by (auto simp: sleepers_def)
    then show ?thesis using ret I(2) p(2) by (simp add: x after_read_def pipe_inv_def)
  next
    case block
    have "w \<notin> s_asleep s" using I(4) block(1) p(2) by (metis list.size(3) zero_neq_numeral)
    then have "w \<notin> sleepers (s_asleep s) es r res" using r(2) by (auto simp: sleepers_def)
    then show ?thesis using block I(2) p(2) t by (simp add: x after_read_def pipe_inv_def same_ends_def)
  qed
qed

lemma inv_after_write:
  assumes inv: "pipe_inv r w s" and w: "w \<notin> s_asleep s" "r \<noteq> w" "r \<noteq> 0" "w \<noteq> 0" and t: "t_addr t = w" and src: "src \<noteq> []"
    and p: "pipe_ok p" "pipe_list p = pipe_list (s_pipe s)" "same_ends ((s_pipe s)\<lparr>p_blocked_writer := b\<rparr>) p"
  shows "pipe_inv r w (after_write w src s (pipe_write_pass t src tot nb p))"
proof -
  obtain res src' tot' p' es where x: "pipe_write_pass t src tot nb p = (res, (src', tot'), p', es)" by (metis surj_pair)
  note I = pipe_invD [OF inv]
  from write_pass_cases [OF p(1) x src] obtain k where k: "src' = drop k src" "k \<le> length src" "pipe_ok p'"
    "pipe_list p' = pipe_list p @ take k src" "p_blocked_reader p \<noteq> 0 \<longrightarrow> Unblock (p_blocked_reader p) \<in> set es"
    "same_ends (p\<lparr>p_blocked_reader := 0, p_blocked_writer := if res = Blocked then t_addr t else p_blocked_writer p\<rparr>) p'"
    "res = Blocked \<longrightarrow> length (pipe_list p') = 4096 \<and> 0 < p_rd_refcount p" by metis
  have "take (length src - length src') src = take k src" using k(1,2) by simp
  then have io: "s_out s @ pipe_list p' = s_in s @ take (length src - length src') src" using I(2) k(4) p(2) by (metis append_assoc)
  have "r \<notin> sleepers (s_asleep s) es w res"
    using I(3) k(5) p(3) w by (auto simp: sleepers_def same_ends_def)
  moreover have "w \<in> sleepers (s_asleep s) es w res \<longrightarrow> res = Blocked" using w(1) by (auto simp: sleepers_def)
  ultimately show ?thesis using k io t by (auto simp: x after_write_def pipe_inv_def same_ends_def)
qed

lemma inv_close:
  assumes inv: "pipe_inv r w s" and c: "pipe_close (s_pipe s) we = (p, es)" and rw: "r \<noteq> 0" "w \<noteq> 0"
  shows "pipe_inv r w (s\<lparr>s_pipe := p, s_asleep := s_asleep s - {u. Unblock u \<in> set es}\<rparr>)"
proof -
  note I = pipe_invD [OF inv]
  have b: "pipe_ok p \<longleftrightarrow> pipe_ok (s_pipe s)" "pipe_list p = pipe_list (s_pipe s)"
    using c by (auto simp: pipe_close_def Let_def pipe_ok_def pipe_list_def split: if_splits)
  have rd: "p_blocked_reader p = p_blocked_reader (s_pipe s) \<and> 0 < p_wr_refcount p \<or> Unblock r \<in> set es"
    if "r \<in> s_asleep s" using I(3) [OF that] c rw by (auto simp: pipe_close_def Let_def wake_def split: if_splits)
  have wr: "p_blocked_writer p = p_blocked_writer (s_pipe s) \<and> 0 < p_rd_refcount p \<or> Unblock w \<in> set es"
    if "w \<in> s_asleep s" using I(4) [OF that] c rw by (auto simp: pipe_close_def Let_def wake_def split: if_splits)
  show ?thesis using I b rd wr by (auto simp: pipe_inv_def)
qed

lemma inv_ref:
  assumes inv: "pipe_inv r w s" and c: "pipe_ref_endpoint [s_pipe s] 0 we = [p]"
  shows "pipe_inv r w (s\<lparr>s_pipe := p\<rparr>)"
proof -
  have "pipe_ok p = pipe_ok (s_pipe s) \<and> pipe_list p = pipe_list (s_pipe s) \<and>
      p_blocked_reader p = p_blocked_reader (s_pipe s) \<and> p_blocked_writer p = p_blocked_writer (s_pipe s) \<and>
      p_wr_refcount (s_pipe s) \<le> p_wr_refcount p \<and> p_rd_refcount (s_pipe s) \<le> p_rd_refcount p"
    using c by (auto simp: pipe_ref_endpoint_def pipe_get_by_idx_def Let_def pipe_ok_def pipe_list_def split: if_splits)
  then show ?thesis using inv by (auto simp: pipe_inv_def)
qed

lemma pipe_step_inv:
  assumes "pipe_step r w s s'" "pipe_inv r w s" "r \<noteq> w" "r \<noteq> 0" "w \<noteq> 0"
  shows "pipe_inv r w s'"
  using assms
proof (induction rule: pipe_step.induct)
  case (rd s t n nb)
  then have "r \<notin> s_asleep s" using pipe_invD(3) by blast
  with rd show ?case
    by (intro inv_after_read [where b = "p_blocked_reader (s_pipe s)"]) (simp_all add: pipe_invD(1) same_ends_def)
next
  case (rd_again s n t nb)
  then show ?case unfolding pipe_read_resume_def
    by (intro inv_after_read [where b = 0])
      (simp_all add: pipe_inv_def pipe_ok_def pipe_list_def same_ends_def)
next
  case (wr s t src nb)
  then have "w \<notin> s_asleep s" using pipe_invD(4) by blast
  with wr show ?case
    by (intro inv_after_write [where b = "p_blocked_writer (s_pipe s)"]) (simp_all add: pipe_invD(1) same_ends_def)
next
  case (wr_again s src tot t nb)
  then show ?case unfolding pipe_write_resume_def
    by (intro inv_after_write [where b = 0])
      (simp_all add: pipe_inv_def pipe_ok_def pipe_list_def same_ends_def)
next
  case (close_end s we p es)
  then show ?case by (intro inv_close)
next
  case (ref_end s we p)
  then show ?case by (intro inv_ref)
next
  case (woken s u)
  then show ?case by (auto simp: pipe_inv_def)
qed

lemma pipe_reach_inv:
  assumes "(pipe_step r w)\<^sup>*\<^sup>* (pipe_start p) s" "pipe_ok p" "pipe_list p = []" "r \<noteq> w" "r \<noteq> 0" "w \<noteq> 0"
  shows "pipe_inv r w s"
  using assms(1)
proof induction
  case base
  then show ?case using assms by (simp add: pipe_inv_def pipe_start_def)
next
  case (step s s')
  then show ?case using pipe_step_inv assms(4-6) by blast
qed

text \<open>
  A pipe remembers one blocked reader. When a second task blocks in a read it takes the place of
  the first, and the next write wakes only the second.
\<close>

lemma second_reader_not_woken:
  assumes "pipe_ok p" "0 < n" "t_addr a \<noteq> t_addr b" "src \<noteq> []"
    and "pipe_read_pass a n False p = (Blocked, cs1, p1, es1)" "pipe_read_pass b n False p1 = (Blocked, cs2, p2, es2)"
    and "pipe_write_pass c src tot nb p2 = (res, st, p3, es3)"
  shows "Unblock (t_addr a) \<notin> set es3"
proof -
  have p1: "pipe_ok p1" using assms(1,5,2) by (cases rule: read_pass_cases) auto
  have p2: "pipe_ok p2 \<and> p_blocked_reader p2 = t_addr b"
    using p1 assms(6,2) by (cases rule: read_pass_cases) (auto simp: same_ends_def)
  obtain src' tot' where "pipe_write_pass c src tot nb p2 = (res, (src', tot'), p3, es3)" using assms(7) by (cases st) auto
  from write_pass_cases [OF _ this assms(4)] p2 have "\<forall>u. Unblock u \<in> set es3 \<longrightarrow> u = t_addr b" by metis
  then show ?thesis using assms(3) by auto
qed

section \<open>Signals that end a wait\<close>

lemma interrupts_loop_iff:
  "interrupts_loop hs c \<longleftrightarrow> (\<exists>i. bit c i \<and> hs ! i \<noteq> SIG_IGN \<and> (hs ! i \<noteq> SIG_DFL \<or> \<not> default_ignored (i + 1)))"
proof (induction hs c rule: interrupts_loop.induct)
  case (1 hs c)
  let ?Q = "\<lambda>i. hs ! i \<noteq> SIG_IGN \<and> (hs ! i \<noteq> SIG_DFL \<or> \<not> default_ignored (i + 1))"
  show ?case
  proof (cases "c = 0")
    case True
    then show ?thesis by (simp add: interrupts_loop.simps)
  next
    case False
    obtain k where k: "bit c k" "\<And>i. i < k \<Longrightarrow> \<not> bit c i" "k < 64" using lowest_bit_ex [OF False] by auto
    have n: "unat (bit_number (c AND (NOT c + 1)) 0) = k"
      using lowest_bit_number [OF k(1,2), of 0] k(3) by (simp add: unat_of_nat)
    have rest: "bit (c AND (c - 1)) i \<longleftrightarrow> bit c i \<and> i \<noteq> k" for i
      using k(2) bit_imp_le_length [of c i] by (auto simp: bit_and_iff bit_dec [OF k(1,2)])
    have e: "interrupts_loop hs c = (?Q k \<or> interrupts_loop hs (c AND (c - 1)))"
    proof (cases "?Q k")
      case True
      then show ?thesis using False by (subst interrupts_loop.simps) (simp only: Let_def n if_True if_False simp_thms, auto)
    next
      case no: False
      then have "interrupts_loop hs c = interrupts_loop hs (c AND (c - 1))"
        using False by (subst interrupts_loop.simps) (simp only: Let_def n if_True if_False simp_thms, auto)
      with no show ?thesis by blast
    qed
    have "interrupts_loop hs (c AND (c - 1)) \<longleftrightarrow> (\<exists>i. bit (c AND (c - 1)) i \<and> ?Q i)" if "\<not> ?Q k"
      using 1 [OF False] n that by (metis (no_types, lifting))
    then show ?thesis using e k(1) rest by blast
  qed
qed

section \<open>Properties\<close>


definition pipe_new :: pipe_t where
  "pipe_new = pipe_zero\<lparr>p_rd_refcount := 1, p_wr_refcount := 1\<rparr>"

lemma pipe_new_ok: "pipe_ok pipe_new" "pipe_list pipe_new = []"
  by (simp_all add: pipe_new_def pipe_zero_def pipe_ok_def pipe_list_def)

definition task_2 :: pipe_task where
  "task_2 = \<lparr>t_addr = 2, t_pending_sigs = 0, t_blocked_sigs = 0, t_sa_handler = replicate 64 0\<rparr>"

definition pipe_after_AB :: pipe_sys where
  "pipe_after_AB = after_write 2 [65, 66] (pipe_start pipe_new) (pipe_write_pass task_2 [65, 66] 0 False (s_pipe (pipe_start pipe_new)))"

lemma pipe_after_AB: "(pipe_step 1 2)\<^sup>*\<^sup>* (pipe_start pipe_new) pipe_after_AB"
  unfolding pipe_after_AB_def by (intro r_into_rtranclp wr) (simp_all add: pipe_start_def task_2_def)



definition pipe_waiting :: pipe_sys where
  "pipe_waiting = after_read 2 1 (pipe_start pipe_new) (pipe_read_pass task_2 1 False (s_pipe (pipe_start pipe_new)))"


text \<open>
  C29: the search for a signal that ends a wait always ends, and answers yes exactly when some
  signal is pending, not blocked, not ignored, and has a handler or a default action that is not
  to ignore it.
\<close>

theorem pipe_interrupts_exact:
  "pipe_interrupts t \<longleftrightarrow>
   (\<exists>i < 64. bit (t_pending_sigs t) i \<and> \<not> bit (t_blocked_sigs t) i \<and> t_sa_handler t ! i \<noteq> SIG_IGN \<and>
      \<not> (t_sa_handler t ! i = SIG_DFL \<and> default_ignored (i + 1)))"
proof -
  have "bit (t_pending_sigs t AND NOT (t_blocked_sigs t)) i \<longleftrightarrow> i < 64 \<and> bit (t_pending_sigs t) i \<and> \<not> bit (t_blocked_sigs t) i" for i
    using bit_imp_le_length [of "t_pending_sigs t" i] by (auto simp: bit_simps)
  then show ?thesis unfolding pipe_interrupts_def interrupts_loop_iff by blast
qed

end
