(* ===== verification/Fd_Pool.thy ===== *)
theory Fd_Pool
  imports Pipe
begin

text \<open>
  The pool of descriptor objects and the descriptor tables of the tasks
  (\<^verbatim>\<open>kernel/syscall/fs/fd_pool.c\<close>, \<^verbatim>\<open>fd_pool.h\<close>), the reference counts of open files and the
  operations of pipe files (\<^verbatim>\<open>kernel/fs/vfs/vfs.c\<close>), and the state they share with epoll
  (\<^verbatim>\<open>kernel/syscall/io/epoll.h\<close>). The pool lock makes each operation on slots and tables atomic.

  Open files live in a store from addresses to files. \<open>km\<close> stands for \<^verbatim>\<open>kmalloc\<close> there: from the
  store it computes NULL or an address that holds no file. Calls that leave this state are
  recorded as events. Tasks are numbered; a wait queue or an instance's item array is the list of
  its entries below the count.
\<close>

unbundle bit_operations_syntax

section \<open>State\<close>

abbreviation (input) FD_POOL_SIZE :: nat where
  "FD_POOL_SIZE \<equiv> 128"

abbreviation (input) TASK_MAX_FD :: nat where
  "TASK_MAX_FD \<equiv> 256"

datatype fd_type_t = FDT_FREE | FDT_ALLOCATED | FDT_VFS | FDT_ION | FDT_EPOLL | FDT_DMABUF

datatype vfs_file_kind_t =
  VFS_FILE_NONE | VFS_FILE_EXT4_FILE | VFS_FILE_EXT4_DIR | VFS_FILE_PSEUDO | VFS_FILE_PIPE | VFS_FILE_PTY | VFS_FILE_SOCKET

record vfs_file_t =
  f_kind :: vfs_file_kind_t
  f_flags :: int
  f_refcnt :: u32
  f_path :: string
  f_pipe_idx :: int
  f_is_write_end :: bool

text \<open>A waiter names an epoll instance by its number in the pool of instances.\<close>

record fd_waiter_t =
  wt_ep :: nat
  wt_item :: int

text \<open>The union of the structure is two fields: \<open>o_handle\<close> is \<^verbatim>\<open>ion.handle\<close> or \<^verbatim>\<open>dmabuf.idx\<close>, read
  only when the type says so, as is \<open>o_ep_idx\<close>.\<close>

record fd_obj_t =
  o_type :: fd_type_t
  o_flags :: int
  o_path :: string
  o_file :: u64
  o_ops :: u64
  o_priv :: u64
  o_handle :: u32
  o_ep_idx :: int
  o_wq :: "fd_waiter_t list"

record epoll_item_t =
  it_fd :: int
  it_pool_idx :: int
  it_events :: u32
  it_data :: u64
  it_ready :: bool

record epoll_instance_t =
  ei_in_use :: bool
  ei_owner_pid :: nat
  ei_items :: "epoll_item_t list"
  ei_ready_count :: int
  ei_blocked_task :: u64

record fd_task =
  k_fd_table :: "int list"
  k_fd_cloexec :: "u8 list"
  k_is_user_process :: bool

datatype fs_event = Pipe_event pipe_event | File_closed u64 | Ops_dup u64 u64 | Ops_close u64 u64 | Wake_epoll u64

record fs_world =
  w_pool :: "fd_obj_t list"
  w_pipes :: "pipe_t list"
  w_epolls :: "epoll_instance_t list"
  w_files :: "u64 \<Rightarrow> vfs_file_t option"
  w_tasks :: "nat \<Rightarrow> fd_task"
  w_events :: "fs_event list"

text \<open>The operation table of a buffer descriptor: the result of its \<^verbatim>\<open>dup\<close> callback, if it has one,
  and whether it has a \<^verbatim>\<open>close\<close> callback.\<close>

record fd_ops_t =
  op_dup :: "(u64 \<Rightarrow> int) option"
  op_close :: bool

section \<open>Accessors\<close>

definition log_events :: "fs_event list \<Rightarrow> fs_world \<Rightarrow> fs_world" where
  "log_events es w = w\<lparr>w_events := w_events w @ es\<rparr>"

definition on_obj :: "nat \<Rightarrow> (fd_obj_t \<Rightarrow> fd_obj_t) \<Rightarrow> fs_world \<Rightarrow> fs_world" where
  "on_obj i f w = w\<lparr>w_pool := (w_pool w)[i := f (w_pool w ! i)]\<rparr>"

definition on_pipe :: "nat \<Rightarrow> (pipe_t \<Rightarrow> pipe_t) \<Rightarrow> fs_world \<Rightarrow> fs_world" where
  "on_pipe i f w = w\<lparr>w_pipes := (w_pipes w)[i := f (w_pipes w ! i)]\<rparr>"

definition on_epoll :: "nat \<Rightarrow> (epoll_instance_t \<Rightarrow> epoll_instance_t) \<Rightarrow> fs_world \<Rightarrow> fs_world" where
  "on_epoll i f w = w\<lparr>w_epolls := (w_epolls w)[i := f (w_epolls w ! i)]\<rparr>"

definition on_task :: "nat \<Rightarrow> (fd_task \<Rightarrow> fd_task) \<Rightarrow> fs_world \<Rightarrow> fs_world" where
  "on_task t f w = w\<lparr>w_tasks := (w_tasks w)(t := f (w_tasks w t))\<rparr>"

definition set_fd :: "nat \<Rightarrow> nat \<Rightarrow> int \<Rightarrow> fs_world \<Rightarrow> fs_world" where
  "set_fd t fd i = on_task t (\<lambda>k. k\<lparr>k_fd_table := (k_fd_table k)[fd := i]\<rparr>)"

abbreviation tbl :: "fs_world \<Rightarrow> nat \<Rightarrow> nat \<Rightarrow> int" where
  "tbl w t fd \<equiv> k_fd_table (w_tasks w t) ! fd"

section \<open>The pool\<close>

definition fd_pool_alloc :: "fs_world \<Rightarrow> int \<times> fs_world" where
  "fd_pool_alloc w =
     (case List.find (\<lambda>i. o_type (w_pool w ! i) = FDT_FREE) [0..<FD_POOL_SIZE] of
        Some i \<Rightarrow> (int i, on_obj i (\<lambda>x. x\<lparr>o_type := FDT_ALLOCATED, o_file := 0\<rparr>) w)
      | None \<Rightarrow> (- 1, w))"

definition fd_pool_free :: "fs_world \<Rightarrow> int \<Rightarrow> fs_world" where
  "fd_pool_free w idx =
     (if idx < 0 \<or> idx \<ge> int FD_POOL_SIZE then w
      else on_obj (nat idx) (\<lambda>x. x\<lparr>o_wq := [], o_file := 0, o_ops := 0, o_priv := 0, o_type := FDT_FREE\<rparr>) w)"

section \<open>Open files\<close>

definition vfs_alloc_file :: "((u64 \<Rightarrow> vfs_file_t option) \<Rightarrow> u64) \<Rightarrow> fs_world \<Rightarrow> u64 \<times> fs_world" where
  "vfs_alloc_file km w =
     (let a = km (w_files w)
      in if a = 0 then (0, w)
         else (a, w\<lparr>w_files := (w_files w)(a \<mapsto>
                 \<lparr>f_kind = VFS_FILE_NONE, f_flags = 0, f_refcnt = 1, f_path = '''', f_pipe_idx = 0, f_is_write_end = False\<rparr>)\<rparr>))"

definition vfs_create_pipe_file ::
  "((u64 \<Rightarrow> vfs_file_t option) \<Rightarrow> u64) \<Rightarrow> fs_world \<Rightarrow> int \<Rightarrow> bool \<Rightarrow> int \<Rightarrow> int \<times> u64 \<times> fs_world" where
  "vfs_create_pipe_file km w pipe_idx is_write_end flags =
     (let (file, w) = vfs_alloc_file km w
      in if file = 0 then (- 24, 0, w)
         else (0, file, w\<lparr>w_files := (w_files w)(file := map_option
                (\<lambda>f. f\<lparr>f_kind := VFS_FILE_PIPE, f_flags := flags, f_pipe_idx := pipe_idx, f_is_write_end := is_write_end\<rparr>)
                (w_files w file))\<rparr>))"

definition vfs_discard_unopened :: "fs_world \<Rightarrow> u64 \<Rightarrow> fs_world" where
  "vfs_discard_unopened w file = (if file \<noteq> 0 then w\<lparr>w_files := (w_files w)(file := None)\<rparr> else w)"

definition vfs_ref :: "fs_world \<Rightarrow> u64 \<Rightarrow> fs_world" where
  "vfs_ref w file =
     (if file \<noteq> 0
      then w\<lparr>w_files := (w_files w)(file := map_option (\<lambda>f. f\<lparr>f_refcnt := f_refcnt f + 1\<rparr>) (w_files w file))\<rparr>
      else w)"

definition pipe_file_close :: "fs_world \<Rightarrow> vfs_file_t \<Rightarrow> fs_world" where
  "pipe_file_close w f =
     (let (ps, es) = pipe_close_endpoint (w_pipes w) (f_pipe_idx f) (f_is_write_end f)
      in log_events (map Pipe_event es) (w\<lparr>w_pipes := ps\<rparr>))"

text \<open>Closing drops a reference; the last one calls the file's close operation, which for a file
  that is not a pipe is an event, and releases the file.\<close>

definition vfs_close :: "fs_world \<Rightarrow> u64 \<Rightarrow> fs_world" where
  "vfs_close w file =
     (case w_files w file of
        None \<Rightarrow> w
      | Some f \<Rightarrow>
          let n = f_refcnt f - 1
          in if n > 0 then w\<lparr>w_files := (w_files w)(file \<mapsto> f\<lparr>f_refcnt := n\<rparr>)\<rparr>
             else let w = (if f_kind f = VFS_FILE_PIPE then pipe_file_close w f else log_events [File_closed file] w)
                  in w\<lparr>w_files := (w_files w)(file := None)\<rparr>)"

text \<open>The pipe file operations; the events of a read or write go to the caller.\<close>

definition nonblocking :: "vfs_file_t \<Rightarrow> bool" where
  "nonblocking f \<longleftrightarrow> f_flags f AND 0x800 \<noteq> 0"

definition pipe_file_read :: "pipe_task \<Rightarrow> pipe_t list \<Rightarrow> vfs_file_t \<Rightarrow> nat \<Rightarrow> call \<times> u8 list \<times> pipe_t list \<times> pipe_event list" where
  "pipe_file_read t g f n =
     (if f_is_write_end f then (Returned (- 9), [], g, [])
      else pipe_read_endpoint t g (f_pipe_idx f) n (nonblocking f))"

definition pipe_file_write ::
  "pipe_task \<Rightarrow> pipe_t list \<Rightarrow> vfs_file_t \<Rightarrow> u8 list \<Rightarrow> call \<times> (u8 list \<times> nat) \<times> pipe_t list \<times> pipe_event list" where
  "pipe_file_write t g f src =
     (if \<not> f_is_write_end f then (Returned (- 9), (src, 0), g, [])
      else pipe_write_endpoint t g (f_pipe_idx f) src (nonblocking f))"

definition pipe_file_poll :: "pipe_t list \<Rightarrow> vfs_file_t \<Rightarrow> u32" where
  "pipe_file_poll g f =
     (if f_is_write_end f then if pipe_poll_writable_endpoint g (f_pipe_idx f) then 0x004 else 0
      else if pipe_poll_readable_endpoint g (f_pipe_idx f) then 0x001 else 0)"

section \<open>Descriptor objects\<close>

definition fd_obj_ref :: "(u64 \<Rightarrow> fd_ops_t) \<Rightarrow> fs_world \<Rightarrow> int \<Rightarrow> int \<times> fs_world" where
  "fd_obj_ref ops w idx =
     (if idx < 0 \<or> idx \<ge> int FD_POOL_SIZE then (- 1, w)
      else let x = w_pool w ! nat idx
           in if o_type x = FDT_FREE then (- 1, w)
              else if o_file x \<noteq> 0 then (0, vfs_ref w (o_file x))
              else if o_ops x \<noteq> 0
              then (case op_dup (ops (o_ops x)) of
                      Some f \<Rightarrow> (f (o_priv x), log_events [Ops_dup (o_ops x) (o_priv x)] w)
                    | None \<Rightarrow> (0, w))
              else (0, w))"

definition fd_obj_attach_vfs :: "fs_world \<Rightarrow> int \<Rightarrow> u64 \<Rightarrow> fs_world" where
  "fd_obj_attach_vfs w idx file =
     (if idx < 0 \<or> idx \<ge> int FD_POOL_SIZE \<or> file = 0 then w
      else case w_files w file of
             None \<Rightarrow> w
           | Some f \<Rightarrow>
               on_obj (nat idx) (\<lambda>x. x\<lparr>o_file := file, o_ops := 0, o_priv := 0, o_flags := f_flags f, o_type := FDT_VFS,
                                      o_path := take 127 (f_path f)\<rparr>) w)"

section \<open>Descriptor tables\<close>

definition task_alloc_fd :: "fs_world \<Rightarrow> nat \<Rightarrow> int \<Rightarrow> int \<times> fs_world" where
  "task_alloc_fd w t pool_idx =
     (case List.find (\<lambda>i. tbl w t i = - 1) [3..<TASK_MAX_FD] of
        Some i \<Rightarrow> (int i, set_fd t i pool_idx w)
      | None \<Rightarrow> (- 1, w))"

definition task_take_fd :: "fs_world \<Rightarrow> nat \<Rightarrow> int \<Rightarrow> int \<times> fs_world" where
  "task_take_fd w t fd =
     (if fd < 0 \<or> fd \<ge> int TASK_MAX_FD then (- 1, w) else (tbl w t (nat fd), set_fd t (nat fd) (- 1) w))"

text \<open>The slot of a descriptor, \<open>None\<close> for NULL.\<close>

definition task_get_fd :: "fs_world \<Rightarrow> nat \<Rightarrow> int \<Rightarrow> nat option" where
  "task_get_fd w t fd =
     (if fd < 0 \<or> fd \<ge> int TASK_MAX_FD then None
      else let idx = tbl w t (nat fd)
           in if idx < 0 \<or> idx \<ge> int FD_POOL_SIZE then None
              else if o_type (w_pool w ! nat idx) = FDT_FREE then None
              else Some (nat idx))"

section \<open>Buffer descriptors\<close>

definition task_alloc_buffer_fd ::
  "fd_type_t \<Rightarrow> string \<Rightarrow> fs_world \<Rightarrow> nat \<Rightarrow> u32 \<Rightarrow> u64 \<Rightarrow> u64 \<Rightarrow> int \<times> fs_world" where
  "task_alloc_buffer_fd ty path w t handle ops priv =
     (let (pool, w) = fd_pool_alloc w
      in if pool < 0 then (- 1, w)
      else let w = on_obj (nat pool) (\<lambda>x. x\<lparr>o_type := ty, o_flags := 0, o_ops := ops, o_priv := priv,
                                           o_handle := handle, o_path := path\<rparr>) w;
               (fd, w) = task_alloc_fd w t pool
      in if fd < 0 then (- 1, fd_pool_free w pool) else (fd, w))"

definition task_alloc_ion_fd :: "fs_world \<Rightarrow> nat \<Rightarrow> u32 \<Rightarrow> u64 \<Rightarrow> u64 \<Rightarrow> int \<times> fs_world" where
  "task_alloc_ion_fd = task_alloc_buffer_fd FDT_ION ''/dev/ion_buffer''"

definition task_alloc_dmabuf_fd :: "fs_world \<Rightarrow> nat \<Rightarrow> u32 \<Rightarrow> u64 \<Rightarrow> u64 \<Rightarrow> int \<times> fs_world" where
  "task_alloc_dmabuf_fd = task_alloc_buffer_fd FDT_DMABUF ''/dev/dmabuf''"

definition task_get_ion_handle :: "fs_world \<Rightarrow> nat \<Rightarrow> int \<Rightarrow> u32 option" where
  "task_get_ion_handle w t fd =
     (case task_get_fd w t fd of
        None \<Rightarrow> None
      | Some i \<Rightarrow> if o_type (w_pool w ! i) \<noteq> FDT_ION then None else Some (o_handle (w_pool w ! i)))"

definition task_get_dmabuf_idx :: "fs_world \<Rightarrow> nat \<Rightarrow> int \<Rightarrow> u32 option" where
  "task_get_dmabuf_idx w t fd =
     (case task_get_fd w t fd of
        None \<Rightarrow> None
      | Some i \<Rightarrow> if o_type (w_pool w ! i) \<noteq> FDT_DMABUF then None else Some (o_handle (w_pool w ! i)))"

end
