(* ===== verification/Epoll.thy ===== *)
theory Epoll
  imports Fd_Pool "HOL-Library.Multiset"
begin

text \<open>
  Waiting for many descriptors, \<^verbatim>\<open>kernel/syscall/io/epoll.c\<close>: wait queues of descriptor objects,
  epoll instances with their items, notification, and the system calls. What the code asks of the
  rest of the kernel is an environment: whether the UART buffer is empty, the events of a file
  that is not a pipe, and whether a task is in the state \<^verbatim>\<open>TASK_BLOCKED\<close>.
\<close>

unbundle bit_operations_syntax

abbreviation (input) EPOLLIN :: u32 where "EPOLLIN \<equiv> 0x001"
abbreviation (input) EPOLLOUT :: u32 where "EPOLLOUT \<equiv> 0x004"
abbreviation (input) EPOLL_ERR_HUP :: u32 where "EPOLL_ERR_HUP \<equiv> 0x018"

abbreviation (input) EPOLL_MAX_INSTANCES :: nat where "EPOLL_MAX_INSTANCES \<equiv> 16"
abbreviation (input) EPOLL_MAX_ITEMS :: nat where "EPOLL_MAX_ITEMS \<equiv> 64"
abbreviation (input) FD_WAIT_MAX :: nat where "FD_WAIT_MAX \<equiv> 4"

record poll_env =
  pe_uart_empty :: bool
  pe_file_poll :: "fs_world \<Rightarrow> u64 \<Rightarrow> u32"
  pe_blocked :: "u64 \<Rightarrow> bool"

section \<open>Instances\<close>

definition epoll_instance_alloc :: "fs_world \<Rightarrow> int \<times> fs_world" where
  "epoll_instance_alloc w =
     (case List.find (\<lambda>i. \<not> ei_in_use (w_epolls w ! i)) [0..<EPOLL_MAX_INSTANCES] of
        Some i \<Rightarrow> (int i, on_epoll i (\<lambda>_. \<lparr>ei_in_use = True, ei_owner_pid = 0, ei_items = [], ei_ready_count = 0,
                                          ei_blocked_task = 0\<rparr>) w)
      | None \<Rightarrow> (- 1, w))"

definition epoll_instance_free :: "fs_world \<Rightarrow> int \<Rightarrow> fs_world" where
  "epoll_instance_free w idx =
     (if idx \<ge> 0 \<and> idx < int EPOLL_MAX_INSTANCES then on_epoll (nat idx) (\<lambda>e. e\<lparr>ei_in_use := False\<rparr>) w else w)"

definition epoll_get :: "fs_world \<Rightarrow> int \<Rightarrow> nat option" where
  "epoll_get w idx =
     (if idx < 0 \<or> idx \<ge> int EPOLL_MAX_INSTANCES then None
      else if \<not> ei_in_use (w_epolls w ! nat idx) then None
      else Some (nat idx))"

section \<open>Wait queues\<close>

definition wq_register :: "fd_waiter_t list \<Rightarrow> nat \<Rightarrow> int \<Rightarrow> int \<times> fd_waiter_t list" where
  "wq_register wq ep item_idx =
     (if length wq \<ge> FD_WAIT_MAX then (- 1, wq) else (0, wq @ [\<lparr>wt_ep = ep, wt_item = item_idx\<rparr>]))"

definition wq_remove :: "fd_waiter_t list \<Rightarrow> nat \<Rightarrow> fd_waiter_t list" where
  "wq_remove wq i = butlast (wq[i := last wq])"

definition wq_unregister :: "fd_waiter_t list \<Rightarrow> nat \<Rightarrow> int \<Rightarrow> fd_waiter_t list" where
  "wq_unregister wq ep item_idx =
     (case List.find (\<lambda>i. wt_ep (wq ! i) = ep \<and> wt_item (wq ! i) = item_idx) [0..<length wq] of
        Some i \<Rightarrow> wq_remove wq i
      | None \<Rightarrow> wq)"

abbreviation wq_of :: "fs_world \<Rightarrow> nat \<Rightarrow> fd_waiter_t list" where
  "wq_of w i \<equiv> o_wq (w_pool w ! i)"

definition on_wq :: "nat \<Rightarrow> (fd_waiter_t list \<Rightarrow> fd_waiter_t list) \<Rightarrow> fs_world \<Rightarrow> fs_world" where
  "on_wq i f = on_obj i (\<lambda>x. x\<lparr>o_wq := f (o_wq x)\<rparr>)"

section \<open>Notification\<close>

definition wake_epoll :: "poll_env \<Rightarrow> nat \<Rightarrow> fs_world \<Rightarrow> fs_world" where
  "wake_epoll env e w =
     (let b = ei_blocked_task (w_epolls w ! e)
      in if b \<noteq> 0 \<and> pe_blocked env b
         then log_events [Wake_epoll b] (on_epoll e (\<lambda>x. x\<lparr>ei_blocked_task := 0\<rparr>) w)
         else w)"

definition mark_ready :: "nat \<Rightarrow> fs_world \<Rightarrow> nat \<Rightarrow> fs_world" where
  "mark_ready e w k =
     on_epoll e (\<lambda>x. x\<lparr>ei_items := (ei_items x)[k := (ei_items x ! k)\<lparr>it_ready := True\<rparr>],
                       ei_ready_count := ei_ready_count x + 1\<rparr>) w"

definition notify_waiter :: "poll_env \<Rightarrow> int \<Rightarrow> u32 \<Rightarrow> fd_waiter_t \<Rightarrow> fs_world \<Rightarrow> fs_world" where
  "notify_waiter env pool_idx events wt w =
     (let e = wt_ep wt; ep = w_epolls w ! e; idx = wt_item wt
      in if \<not> ei_in_use ep then w
      else if idx < 0 \<or> idx \<ge> int (length (ei_items ep)) then w
      else let item = ei_items ep ! nat idx
      in if it_pool_idx item \<noteq> pool_idx then w
      else if it_events item AND events = 0 \<and> events AND EPOLL_ERR_HUP = 0 then w
      else let w = (if \<not> it_ready item then mark_ready e w (nat idx) else w)
      in wake_epoll env e w)"

definition fd_notify_waiters :: "poll_env \<Rightarrow> fs_world \<Rightarrow> int \<Rightarrow> u32 \<Rightarrow> fs_world" where
  "fd_notify_waiters env w pool_idx events =
     (if pool_idx < 0 \<or> pool_idx \<ge> int FD_POOL_SIZE then w
      else fold (notify_waiter env pool_idx events) (wq_of w (nat pool_idx)) w)"

section \<open>Forgetting a descriptor\<close>

text \<open>Items are removed by moving the last one into the gap.\<close>

definition move_last_item :: "bool \<Rightarrow> nat \<Rightarrow> nat \<Rightarrow> fs_world \<Rightarrow> fs_world" where
  "move_last_item check_room e k w =
     (let last = length (ei_items (w_epolls w ! e)) - 1
      in if k < last
         then let lp = nat (it_pool_idx (ei_items (w_epolls w ! e) ! last));
                  w = on_wq lp (\<lambda>q. wq_unregister q e (int last)) w;
                  w = on_epoll e (\<lambda>x. x\<lparr>ei_items := (ei_items x)[k := ei_items x ! last]\<rparr>) w
              in if \<not> check_room \<or> length (wq_of w lp) < FD_WAIT_MAX
                 then on_wq lp (\<lambda>q. snd (wq_register q e (int k))) w else w
         else w)"

definition remove_item :: "bool \<Rightarrow> nat \<Rightarrow> nat \<Rightarrow> fs_world \<Rightarrow> fs_world" where
  "remove_item check_room e k w =
     (let w = (if it_ready (ei_items (w_epolls w ! e) ! k)
               then on_epoll e (\<lambda>x. x\<lparr>ei_ready_count := ei_ready_count x - 1\<rparr>) w else w);
          w = move_last_item check_room e k w
      in on_epoll e (\<lambda>x. x\<lparr>ei_items := butlast (ei_items x)\<rparr>) w)"

text \<open>One round of the loop of \<^verbatim>\<open>fd_close_notify\<close>; a waiter always names one of the instances.\<close>

definition close_notify_round :: "nat \<Rightarrow> fs_world \<Rightarrow> fs_world" where
  "close_notify_round i w =
     (let wt = hd (wq_of w i); e = wt_ep wt; item_idx = wt_item wt;
          w = on_wq i (\<lambda>q. wq_remove q 0) w
      in if e < length (w_epolls w) \<and> ei_in_use (w_epolls w ! e) \<and> item_idx \<ge> 0 \<and>
            item_idx < int (length (ei_items (w_epolls w ! e))) \<and>
            it_pool_idx (ei_items (w_epolls w ! e) ! nat item_idx) = int i
         then remove_item True e (nat item_idx) w
         else w)"

definition total_items :: "fs_world \<Rightarrow> nat" where
  "total_items w = sum_list (map (\<lambda>x. length (ei_items x)) (w_epolls w))"

lemma length_wq_remove [simp]: "length (wq_remove wq i) = length wq - 1"
  by (simp add: wq_remove_def)

lemma on_wq_epolls [simp]: "w_epolls (on_wq i f w) = w_epolls w"
  by (simp add: on_wq_def on_obj_def)

lemma on_obj_epolls [simp]: "w_epolls (on_obj i f w) = w_epolls w"
  by (simp add: on_obj_def)

lemma on_epoll_pool [simp]: "w_pool (on_epoll i f w) = w_pool w"
  by (simp add: on_epoll_def)

lemma length_on_epoll [simp]: "length (w_epolls (on_epoll i f w)) = length (w_epolls w)"
  by (simp add: on_epoll_def)

lemma length_on_wq [simp]: "length (w_pool (on_wq i f w)) = length (w_pool w)"
  by (simp add: on_wq_def on_obj_def)

lemma on_epoll_nth: "e < length (w_epolls w) \<Longrightarrow>
  w_epolls (on_epoll e f w) ! j = (if j = e then f (w_epolls w ! e) else w_epolls w ! j)"
  by (simp add: on_epoll_def nth_list_update)

lemma total_items_on_epoll:
  "e < length (w_epolls w) \<Longrightarrow>
   total_items (on_epoll e f w) + length (ei_items (w_epolls w ! e)) = total_items w + length (ei_items (f (w_epolls w ! e)))"
proof -
  assume e: "e < length (w_epolls w)"
  then have "length (ei_items (w_epolls w ! e)) \<le> total_items w"
    unfolding total_items_def by (intro member_le_sum_list) auto
  then show ?thesis using e by (simp add: total_items_def on_epoll_def map_update sum_list_update)
qed

lemma move_last_item_items:
  "e < length (w_epolls w) \<Longrightarrow>
   length (ei_items (w_epolls (move_last_item c e k w) ! j)) = length (ei_items (w_epolls w ! j)) \<and>
   length (w_epolls (move_last_item c e k w)) = length (w_epolls w)"
  by (auto simp: move_last_item_def Let_def on_epoll_nth)

lemma total_items_cong:
  "length (w_epolls w') = length (w_epolls w) \<Longrightarrow>
   (\<And>j. length (ei_items (w_epolls w' ! j)) = length (ei_items (w_epolls w ! j))) \<Longrightarrow> total_items w' = total_items w"
  unfolding total_items_def by (rule arg_cong [where f = sum_list]) (auto intro!: nth_equalityI)

lemma total_items_remove:
  assumes "e < length (w_epolls w)" "k < length (ei_items (w_epolls w ! e))"
  shows "total_items (remove_item c e k w) < total_items w"
proof -
  define w1 where "w1 = (if it_ready (ei_items (w_epolls w ! e) ! k)
               then on_epoll e (\<lambda>x. x\<lparr>ei_ready_count := ei_ready_count x - 1\<rparr>) w else w)"
  define w2 where "w2 = move_last_item c e k w1"
  have e1: "e < length (w_epolls w1)" using assms by (simp add: w1_def)
  have l1: "length (ei_items (w_epolls w1 ! j)) = length (ei_items (w_epolls w ! j))" for j
    using assms by (simp add: w1_def on_epoll_nth)
  have l2: "length (ei_items (w_epolls w2 ! j)) = length (ei_items (w_epolls w ! j))"
    "length (w_epolls w2) = length (w_epolls w)" for j
    using move_last_item_items [OF e1] l1 by (simp_all add: w2_def w1_def)
  have "total_items w2 = total_items w" using l2 by (intro total_items_cong) auto
  moreover have "total_items (on_epoll e (\<lambda>x. x\<lparr>ei_items := butlast (ei_items x)\<rparr>) w2) < total_items w2"
    using total_items_on_epoll [of e w2 "\<lambda>x. x\<lparr>ei_items := butlast (ei_items x)\<rparr>"] assms l2 by simp
  ultimately show ?thesis by (simp add: remove_item_def Let_def w1_def w2_def)
qed

lemma close_notify_round_less:
  assumes "i < length (w_pool w)" "wq_of w i \<noteq> []"
  shows "total_items (close_notify_round i w) < total_items w \<or>
         total_items (close_notify_round i w) = total_items w \<and>
         length (wq_of (close_notify_round i w) i) < length (wq_of w i)"
proof -
  have t: "total_items (on_wq i f w) = total_items w" for f by (simp add: total_items_def)
  have q: "length (wq_of (on_wq i (\<lambda>q. wq_remove q 0) w) i) < length (wq_of w i)"
    using assms by (simp add: on_wq_def on_obj_def)
  show ?thesis unfolding close_notify_round_def Let_def
    by (auto simp: t q intro!: total_items_remove [THEN order.strict_trans2])
qed

function close_notify_loop :: "nat \<Rightarrow> fs_world \<Rightarrow> fs_world" where
  "close_notify_loop i w =
     (if i < length (w_pool w) \<and> wq_of w i \<noteq> [] then close_notify_loop i (close_notify_round i w) else w)"
  by auto
termination
proof (relation "measures [\<lambda>(i, w). total_items w, \<lambda>(i, w). length (wq_of w i)]")
  fix i w assume "i < length (w_pool w) \<and> wq_of w i \<noteq> []"
  then show "((i, close_notify_round i w), (i, w)) \<in> measures [\<lambda>(i, w). total_items w, \<lambda>(i, w). length (wq_of w i)]"
    using close_notify_round_less [of i w] by auto
qed simp

declare close_notify_loop.simps [simp del]

definition fd_close_notify :: "fs_world \<Rightarrow> int \<Rightarrow> fs_world" where
  "fd_close_notify w pool_idx =
     (if pool_idx < 0 \<or> pool_idx \<ge> int FD_POOL_SIZE then w else close_notify_loop (nat pool_idx) w)"

section \<open>Polling\<close>

definition vfs_poll :: "poll_env \<Rightarrow> fs_world \<Rightarrow> u64 \<Rightarrow> u32" where
  "vfs_poll env w file =
     (case w_files w file of
        None \<Rightarrow> 0
      | Some f \<Rightarrow> if f_kind f = VFS_FILE_PIPE then pipe_file_poll (w_pipes w) f else pe_file_poll env w file)"

definition fd_poll :: "poll_env \<Rightarrow> fs_world \<Rightarrow> nat \<Rightarrow> int \<Rightarrow> u32" where
  "fd_poll env w t fd =
     (if fd < 0 \<or> fd \<ge> int TASK_MAX_FD then 0
      else case task_get_fd w t fd of
        None \<Rightarrow>
          if fd = 0 then (if \<not> pe_uart_empty env then EPOLLIN else 0) OR EPOLLOUT
          else if fd = 1 \<or> fd = 2 then EPOLLOUT
          else 0
      | Some i \<Rightarrow> if o_type (w_pool w ! i) = FDT_EPOLL then 0 else vfs_poll env w (o_file (w_pool w ! i)))"

section \<open>System calls\<close>

definition set_cloexec_bit :: "nat \<Rightarrow> nat \<Rightarrow> bool \<Rightarrow> fs_world \<Rightarrow> fs_world" where
  "set_cloexec_bit t fd on =
     on_task t (\<lambda>k. let b = k_fd_cloexec k ! (fd div 8)
                    in k\<lparr>k_fd_cloexec := (k_fd_cloexec k)[fd div 8 :=
                          if on then b OR push_bit (fd mod 8) 1 else b AND NOT (push_bit (fd mod 8) 1)]\<rparr>)"

definition epoll_create1_handler :: "fs_world \<Rightarrow> nat \<Rightarrow> u32 \<Rightarrow> int \<times> fs_world" where
  "epoll_create1_handler w t flags =
     (if flags AND NOT 0x80000 \<noteq> 0 then (- 22, w)
      else let (ep_idx, w) = epoll_instance_alloc w
      in if ep_idx < 0 then (- 23, w)
      else let (pool, w) = fd_pool_alloc w
      in if pool < 0 then (- 23, epoll_instance_free w ep_idx)
      else let w = on_obj (nat pool) (\<lambda>x. x\<lparr>o_type := FDT_EPOLL, o_flags := 0, o_ep_idx := ep_idx, o_path := '''', o_wq := []\<rparr>) w;
               (fd, w) = task_alloc_fd w t pool
      in if fd < 0 then (- 24, epoll_instance_free (fd_pool_free w pool) ep_idx)
      else let w = on_epoll (nat ep_idx) (\<lambda>e. e\<lparr>ei_owner_pid := t\<rparr>) w
      in (fd, if flags AND 0x80000 \<noteq> 0 then set_cloexec_bit t (nat fd) True w else w))"

definition item_of :: "fs_world \<Rightarrow> nat \<Rightarrow> int \<Rightarrow> nat option" where
  "item_of w e fd =
     List.find (\<lambda>i. it_fd (ei_items (w_epolls w ! e) ! i) = fd) [0..<length (ei_items (w_epolls w ! e))]"

definition epoll_ctl_add :: "poll_env \<Rightarrow> fs_world \<Rightarrow> nat \<Rightarrow> nat \<Rightarrow> int \<Rightarrow> nat \<Rightarrow> (u32 \<times> u64) option \<Rightarrow> int \<times> fs_world" where
  "epoll_ctl_add env w t e fd target ev =
     (if item_of w e fd \<noteq> None then (- 22, w)
      else let idx = length (ei_items (w_epolls w ! e))
      in if idx \<ge> EPOLL_MAX_ITEMS then (- 12, w)
      else case ev of
        None \<Rightarrow> (- 14, w)
      | Some (events, data) \<Rightarrow>
          let w = on_epoll e (\<lambda>x. x\<lparr>ei_items := ei_items x @ [\<lparr>it_fd = fd, it_pool_idx = int target, it_events = events,
                                                             it_data = data, it_ready = False\<rparr>]\<rparr>) w;
              (rc, q) = wq_register (wq_of w target) e (int idx)
          in if rc < 0 then (- 12, on_epoll e (\<lambda>x. x\<lparr>ei_items := butlast (ei_items x)\<rparr>) w)
          else let w = on_wq target (\<lambda>_. q) w
          in if fd_poll env w t fd AND events \<noteq> 0 then (0, wake_epoll env e (mark_ready e w idx)) else (0, w))"

definition epoll_ctl_del :: "fs_world \<Rightarrow> nat \<Rightarrow> int \<Rightarrow> nat \<Rightarrow> int \<times> fs_world" where
  "epoll_ctl_del w e fd target =
     (case item_of w e fd of
        None \<Rightarrow> (- 2, w)
      | Some found \<Rightarrow> (0, remove_item False e found (on_wq target (\<lambda>q. wq_unregister q e (int found)) w)))"

definition epoll_ctl_mod :: "poll_env \<Rightarrow> fs_world \<Rightarrow> nat \<Rightarrow> nat \<Rightarrow> int \<Rightarrow> (u32 \<times> u64) option \<Rightarrow> int \<times> fs_world" where
  "epoll_ctl_mod env w t e fd ev =
     (case item_of w e fd of
        None \<Rightarrow> (- 2, w)
      | Some found \<Rightarrow>
          (case ev of
             None \<Rightarrow> (- 14, w)
           | Some (events, data) \<Rightarrow>
               let w = on_epoll e (\<lambda>x. x\<lparr>ei_items := (ei_items x)[found := (ei_items x ! found)\<lparr>it_events := events, it_data := data\<rparr>]\<rparr>) w;
                   was_ready = it_ready (ei_items (w_epolls w ! e) ! found);
                   now_ready = (fd_poll env w t fd AND events \<noteq> 0)
               in if \<not> was_ready \<and> now_ready then (0, wake_epoll env e (mark_ready e w found))
                  else if was_ready \<and> \<not> now_ready
                  then (0, on_epoll e (\<lambda>x. x\<lparr>ei_items := (ei_items x)[found := (ei_items x ! found)\<lparr>it_ready := False\<rparr>],
                                             ei_ready_count := ei_ready_count x - 1\<rparr>) w)
                  else (0, w)))"

definition epoll_ctl_handler ::
  "poll_env \<Rightarrow> fs_world \<Rightarrow> nat \<Rightarrow> int \<Rightarrow> int \<Rightarrow> int \<Rightarrow> (u32 \<times> u64) option \<Rightarrow> int \<times> fs_world" where
  "epoll_ctl_handler env w t epfd op fd ev =
     (case task_get_fd w t epfd of
        None \<Rightarrow> (- 9, w)
      | Some p \<Rightarrow>
          if o_type (w_pool w ! p) \<noteq> FDT_EPOLL then (- 9, w)
          else (case epoll_get w (o_ep_idx (w_pool w ! p)) of
                  None \<Rightarrow> (- 9, w)
                | Some e \<Rightarrow>
                    if fd = epfd then (- 22, w)
                    else (case task_get_fd w t fd of
                            None \<Rightarrow> (- 9, w)
                          | Some target \<Rightarrow>
                              if op = 1 then epoll_ctl_add env w t e fd target ev
                              else if op = 2 then epoll_ctl_del w e fd target
                              else if op = 3 then epoll_ctl_mod env w t e fd ev
                              else (- 22, w))))"

text \<open>The events of an item that hold now.\<close>

definition matched_events :: "poll_env \<Rightarrow> fs_world \<Rightarrow> nat \<Rightarrow> epoll_item_t \<Rightarrow> u32" where
  "matched_events env w t item =
     (let cur = fd_poll env w t (it_fd item); matched = cur AND it_events item
      in if cur AND EPOLL_ERR_HUP \<noteq> 0 then matched OR (cur AND EPOLL_ERR_HUP) else matched)"

definition epoll_rescan :: "poll_env \<Rightarrow> nat \<Rightarrow> nat \<Rightarrow> fs_world \<Rightarrow> fs_world" where
  "epoll_rescan env t e w =
     on_epoll e (\<lambda>x. let items = map (\<lambda>it. it\<lparr>it_ready := matched_events env w t it \<noteq> 0\<rparr>) (ei_items x)
                     in x\<lparr>ei_items := items, ei_ready_count := int (length (filter it_ready items))\<rparr>) w"

text \<open>The collection loop: at most \<open>n\<close> ready items are reported and marked not ready.\<close>

fun epoll_collect :: "(epoll_item_t \<Rightarrow> u32) \<Rightarrow> nat \<Rightarrow> epoll_item_t list \<Rightarrow> (u32 \<times> u64) list \<times> epoll_item_t list" where
  "epoll_collect m n [] = ([], [])"
| "epoll_collect m n (it # its) =
     (if n = 0 then ([], it # its)
      else if \<not> it_ready it then let (es, its) = epoll_collect m n its in (es, it # its)
      else let (es, its) = epoll_collect m (n - 1) its in ((m it, it_data it) # es, it\<lparr>it_ready := False\<rparr> # its))"

text \<open>One round of the loop of \<^verbatim>\<open>epoll_pwait_handler\<close>, up to \<^verbatim>\<open>task_block\<close>; after a wake-up the loop clears
  the blocked task and starts over.\<close>

definition epoll_wait_pass ::
  "poll_env \<Rightarrow> nat \<Rightarrow> u64 \<Rightarrow> nat \<Rightarrow> nat \<Rightarrow> bool \<Rightarrow> int \<Rightarrow> bool \<Rightarrow> fs_world \<Rightarrow> call \<times> (u32 \<times> u64) list \<times> fs_world" where
  "epoll_wait_pass env t addr e maxevents signalled timeout_ms expired w =
     (if signalled then (Returned (- 4), [], w)
      else let w = epoll_rescan env t e w
      in if ei_ready_count (w_epolls w ! e) > 0
      then let (es, items) = epoll_collect (matched_events env w t) maxevents (ei_items (w_epolls w ! e))
           in (Returned (int (length es)), es, on_epoll e (\<lambda>x. x\<lparr>ei_items := items, ei_ready_count := 0\<rparr>) w)
      else if timeout_ms = 0 then (Returned 0, [], w)
      else if timeout_ms > 0 \<and> expired then (Returned 0, [], w)
      else (Blocked, [], on_epoll e (\<lambda>x. x\<lparr>ei_blocked_task := addr\<rparr>) w))"

definition epoll_wait_resume ::
  "poll_env \<Rightarrow> nat \<Rightarrow> u64 \<Rightarrow> nat \<Rightarrow> nat \<Rightarrow> bool \<Rightarrow> int \<Rightarrow> bool \<Rightarrow> fs_world \<Rightarrow> call \<times> (u32 \<times> u64) list \<times> fs_world" where
  "epoll_wait_resume env t addr e maxevents signalled timeout_ms expired w =
     epoll_wait_pass env t addr e maxevents signalled timeout_ms expired (on_epoll e (\<lambda>x. x\<lparr>ei_blocked_task := 0\<rparr>) w)"

definition epoll_pwait_handler ::
  "poll_env \<Rightarrow> fs_world \<Rightarrow> nat \<Rightarrow> u64 \<Rightarrow> int \<Rightarrow> u64 \<Rightarrow> int \<Rightarrow> bool \<Rightarrow> int \<Rightarrow> bool \<Rightarrow> call \<times> (u32 \<times> u64) list \<times> fs_world" where
  "epoll_pwait_handler env w t addr epfd events maxevents signalled timeout_ms expired =
     (if maxevents \<le> 0 \<or> events = 0 then (Returned (- 22), [], w)
      else case task_get_fd w t epfd of
             None \<Rightarrow> (Returned (- 9), [], w)
           | Some p \<Rightarrow>
               if o_type (w_pool w ! p) \<noteq> FDT_EPOLL then (Returned (- 9), [], w)
               else (case epoll_get w (o_ep_idx (w_pool w ! p)) of
                       None \<Rightarrow> (Returned (- 9), [], w)
                     | Some e \<Rightarrow> epoll_wait_pass env t addr e (nat maxevents) signalled timeout_ms expired w))"

definition epoll_destroy :: "poll_env \<Rightarrow> fs_world \<Rightarrow> int \<Rightarrow> fs_world" where
  "epoll_destroy env w ep_idx =
     (case epoll_get w ep_idx of
        None \<Rightarrow> w
      | Some e \<Rightarrow>
          let w = fold (\<lambda>i w. let p = it_pool_idx (ei_items (w_epolls w ! e) ! i)
                              in if p \<ge> 0 \<and> p < int FD_POOL_SIZE \<and> o_type (w_pool w ! nat p) \<noteq> FDT_FREE
                                 then on_wq (nat p) (\<lambda>q. wq_unregister q e (int i)) w else w)
                    [0..<length (ei_items (w_epolls w ! e))] w
          in epoll_instance_free (wake_epoll env e w) ep_idx)"


text \<open>Pipe operations report their calls of \<^verbatim>\<open>fd_notify_waiters\<close> as events; this carries them out.\<close>

definition deliver :: "poll_env \<Rightarrow> pipe_event \<Rightarrow> fs_world \<Rightarrow> fs_world" where
  "deliver env ev w =
     (case ev of Notify pool_idx events \<Rightarrow> fd_notify_waiters env w pool_idx events | _ \<Rightarrow> log_events [Pipe_event ev] w)"

section \<open>The item lists and ready counts\<close>

text \<open>
  A wait that reports fewer items than are ready sets the count to 0 and leaves the others marked
  ready, so the count is not always the number of ready items, but it never exceeds it.
\<close>

definition ei_ok :: "epoll_instance_t \<Rightarrow> bool" where
  "ei_ok x \<longleftrightarrow> length (ei_items x) \<le> EPOLL_MAX_ITEMS \<and>
     ei_ready_count x \<le> int (length (filter it_ready (ei_items x))) \<and> distinct (map it_fd (ei_items x))"

definition epolls_ok :: "fs_world \<Rightarrow> bool" where
  "epolls_ok w \<longleftrightarrow> length (w_epolls w) = EPOLL_MAX_INSTANCES \<and>
     (\<forall>e < EPOLL_MAX_INSTANCES. ei_in_use (w_epolls w ! e) \<longrightarrow> ei_ok (w_epolls w ! e))"

lemma epolls_ok_cong: "w_epolls w' = w_epolls w \<Longrightarrow> epolls_ok w' = epolls_ok w"
  by (simp add: epolls_ok_def)

lemma epolls_frame [simp]:
  "w_epolls (log_events es w) = w_epolls w" "w_epolls (set_fd t fd i w) = w_epolls w"
  "w_epolls (set_cloexec_bit t fd b w) = w_epolls w" "w_epolls (fd_pool_free w idx) = w_epolls w"
  by (simp_all add: log_events_def set_fd_def on_task_def set_cloexec_bit_def fd_pool_free_def on_obj_def)

lemma epolls_frame_alloc:
  "fd_pool_alloc w = (i, w') \<Longrightarrow> w_epolls w' = w_epolls w" "task_alloc_fd w t p = (fd, w') \<Longrightarrow> w_epolls w' = w_epolls w"
  by (auto simp: fd_pool_alloc_def task_alloc_fd_def split: option.splits)

lemma epolls_ok_on_epoll:
  assumes "epolls_ok w"
    and "e < EPOLL_MAX_INSTANCES \<Longrightarrow> ei_in_use (f (w_epolls w ! e)) \<Longrightarrow> (ei_in_use (w_epolls w ! e) \<Longrightarrow> ei_ok (w_epolls w ! e)) \<Longrightarrow> ei_ok (f (w_epolls w ! e))"
  shows "epolls_ok (on_epoll e f w)"
proof (cases "e < EPOLL_MAX_INSTANCES")
  case True
  then show ?thesis using assms by (auto simp: epolls_ok_def on_epoll_nth)
next
  case False
  then have "(w_epolls w)[e := f (w_epolls w ! e)] = w_epolls w"
    using assms(1) by (intro list_update_beyond) (auto simp: epolls_ok_def)
  then have "on_epoll e f w = w" by (simp add: on_epoll_def)
  then show ?thesis using assms(1) by simp
qed

lemma wake_epoll_ok: "epolls_ok w \<Longrightarrow> epolls_ok (wake_epoll env e w)"
  unfolding wake_epoll_def Let_def
  by (auto simp: epolls_ok_cong [OF epolls_frame(1)] ei_ok_def intro!: epolls_ok_on_epoll)

lemma ready_update:
  "k < length xs \<Longrightarrow> length (filter P (xs[k := y])) + of_bool (P (xs ! k)) = length (filter P xs) + of_bool (P y)"
proof (induction xs arbitrary: k)
  case (Cons x xs)
  then show ?case by (cases k) auto
qed simp

lemma map_fd_update: "it_fd y = it_fd (xs ! k) \<Longrightarrow> map it_fd (xs[k := y]) = map it_fd xs"
  by (metis list_update_id map_update)

lemma ei_ok_mark:
  assumes "ei_ok x" "k < length (ei_items x)" "\<not> it_ready (ei_items x ! k)"
  shows "ei_ok (x\<lparr>ei_items := (ei_items x)[k := (ei_items x ! k)\<lparr>it_ready := True\<rparr>], ei_ready_count := ei_ready_count x + 1\<rparr>)"
  using assms ready_update [OF assms(2), of it_ready "(ei_items x ! k)\<lparr>it_ready := True\<rparr>"]
  by (simp add: ei_ok_def map_fd_update)

lemma mark_ready_ok:
  assumes "epolls_ok w" "ei_in_use (w_epolls w ! e)" "k < length (ei_items (w_epolls w ! e))" "\<not> it_ready (ei_items (w_epolls w ! e) ! k)"
  shows "epolls_ok (mark_ready e w k)"
  using assms unfolding mark_ready_def by (intro epolls_ok_on_epoll) (simp_all add: ei_ok_mark)

text \<open>Removing an item on the instance.\<close>

definition drop_item :: "nat \<Rightarrow> epoll_instance_t \<Rightarrow> epoll_instance_t" where
  "drop_item k x = x\<lparr>ei_ready_count := ei_ready_count x - of_bool (it_ready (ei_items x ! k)),
     ei_items := butlast ((ei_items x)[k := last (ei_items x)])\<rparr>"

lemma record_id [simp]: "x\<lparr>ei_ready_count := ei_ready_count x\<rparr> = x" "w\<lparr>w_epolls := w_epolls w\<rparr> = w"
  "x\<lparr>ei_items := ei_items x\<rparr> = x" for x :: epoll_instance_t and w :: fs_world
  by simp_all

lemma swap_remove_mset: "k < length xs \<Longrightarrow> add_mset (xs ! k) (mset (butlast (xs[k := last xs]))) = mset xs"
proof (cases xs rule: rev_cases)
  case (snoc ys y)
  assume k: "k < length xs"
  show ?thesis
  proof (cases "k = length ys")
    case False
    then have "k < length ys" using k snoc by simp
    then show ?thesis using snoc by (simp add: list_update_append nth_append mset_update)
  qed (simp add: snoc)
qed simp

lemma ei_ok_drop:
  assumes "ei_ok x" "k < length (ei_items x)"
  shows "ei_ok (drop_item k x)"
proof -
  let ?ys = "butlast ((ei_items x)[k := last (ei_items x)])"
  note m = swap_remove_mset [OF assms(2)]
  have "size (filter_mset it_ready (mset (ei_items x))) = length (filter it_ready ?ys) + of_bool (it_ready (ei_items x ! k))"
    by (simp flip: m size_mset mset_filter)
  then have "length (filter it_ready (ei_items x)) = length (filter it_ready ?ys) + of_bool (it_ready (ei_items x ! k))"
    by (simp flip: size_mset mset_filter)
  moreover have "add_mset (it_fd (ei_items x ! k)) (mset (map it_fd ?ys)) = mset (map it_fd (ei_items x))"
    by (simp flip: m)
  then have "distinct (map it_fd ?ys)"
    using assms(1) unfolding ei_ok_def by (metis distinct.simps(2) mset.simps(2) mset_eq_imp_distinct_iff)
  ultimately show ?thesis using assms(1) by (auto simp: ei_ok_def drop_item_def)
qed

lemma remove_item_epolls:
  assumes "e < length (w_epolls w)" "k < length (ei_items (w_epolls w ! e))"
  shows "w_epolls (remove_item c e k w) = (w_epolls w)[e := drop_item k (w_epolls w ! e)]"
proof (cases "k < length (ei_items (w_epolls w ! e)) - 1")
  case True
  then have "ei_items (w_epolls w ! e) ! (length (ei_items (w_epolls w ! e)) - 1) = last (ei_items (w_epolls w ! e))"
    by (metis last_conv_nth length_0_conv less_zeroE zero_diff)
  then show ?thesis using True assms(1)
    by (simp add: remove_item_def move_last_item_def drop_item_def Let_def on_epoll_def on_wq_def on_obj_def)
next
  case False
  then have "k = length (ei_items (w_epolls w ! e)) - 1" using assms(2) by simp
  then have "(ei_items (w_epolls w ! e))[k := last (ei_items (w_epolls w ! e))] = ei_items (w_epolls w ! e)"
    using assms(2) by (metis last_conv_nth length_0_conv less_zeroE list_update_id)
  then show ?thesis using False assms(1)
    by (simp add: remove_item_def move_last_item_def drop_item_def Let_def on_epoll_def)
qed

lemma remove_item_ok:
  assumes "epolls_ok w" "e < EPOLL_MAX_INSTANCES" "ei_in_use (w_epolls w ! e)" "k < length (ei_items (w_epolls w ! e))"
  shows "epolls_ok (remove_item c e k w)"
proof -
  have "e < length (w_epolls w)" using assms by (simp add: epolls_ok_def)
  from remove_item_epolls [OF this assms(4), of c]
  have "w_epolls (remove_item c e k w) = w_epolls (on_epoll e (drop_item k) w)" by (simp add: on_epoll_def)
  moreover have "epolls_ok (on_epoll e (drop_item k) w)"
    using assms by (intro epolls_ok_on_epoll) (auto intro: ei_ok_drop)
  ultimately show ?thesis using epolls_ok_cong by metis
qed

lemma notify_waiter_ok: "epolls_ok w \<Longrightarrow> epolls_ok (notify_waiter env i ev wt w)"
  unfolding notify_waiter_def Let_def by (auto intro!: wake_epoll_ok mark_ready_ok)

lemma fd_notify_ok: "epolls_ok w \<Longrightarrow> epolls_ok (fd_notify_waiters env w i ev)"
  unfolding fd_notify_waiters_def
  by (auto intro!: fold_invariant [where Q = "\<lambda>_. True"] notify_waiter_ok)

lemma close_notify_round_ok: "epolls_ok w \<Longrightarrow> epolls_ok (close_notify_round i w)"
  unfolding close_notify_round_def Let_def
  by (auto simp: epolls_ok_def [of "on_wq i (\<lambda>q. wq_remove q 0) w"] epolls_ok_def [of w] intro!: remove_item_ok)

lemma close_notify_loop_ok: "epolls_ok w \<Longrightarrow> epolls_ok (close_notify_loop i w)"
proof (induction i w rule: close_notify_loop.induct)
  case (1 i w)
  then show ?case by (subst close_notify_loop.simps) (simp add: close_notify_round_ok)
qed

lemma fd_close_notify_ok: "epolls_ok w \<Longrightarrow> epolls_ok (fd_close_notify w i)"
  by (simp add: fd_close_notify_def close_notify_loop_ok)

lemma epoll_instance_alloc_ok: "epolls_ok w \<Longrightarrow> epoll_instance_alloc w = (i, w') \<Longrightarrow> epolls_ok w'"
  by (auto simp: epoll_instance_alloc_def ei_ok_def split: option.splits intro!: epolls_ok_on_epoll)

lemma epoll_instance_free_ok: "epolls_ok w \<Longrightarrow> epolls_ok (epoll_instance_free w i)"
  by (auto simp: epoll_instance_free_def intro!: epolls_ok_on_epoll)

lemma epoll_create1_ok: "epolls_ok w \<Longrightarrow> epolls_ok (snd (epoll_create1_handler w t flags))"
proof -
  assume w: "epolls_ok w"
  obtain ei w1 where 1: "epoll_instance_alloc w = (ei, w1)" by (cases "epoll_instance_alloc w")
  obtain p w2 where 2: "fd_pool_alloc w1 = (p, w2)" by (cases "fd_pool_alloc w1")
  define w3 where "w3 = on_obj (nat p) (\<lambda>x. x\<lparr>o_type := FDT_EPOLL, o_flags := 0, o_ep_idx := ei, o_path := '''', o_wq := []\<rparr>) w2"
  obtain fd w4 where 4: "task_alloc_fd w3 t p = (fd, w4)" by (cases "task_alloc_fd w3 t p")
  have w1: "epolls_ok w1" using epoll_instance_alloc_ok [OF w 1] .
  then have w2: "epolls_ok w2" using epolls_ok_cong [OF epolls_frame_alloc(1) [OF 2]] by simp
  then have "epolls_ok w3" by (simp add: w3_def epolls_ok_def)
  then have w4: "epolls_ok w4" using epolls_ok_cong [OF epolls_frame_alloc(2) [OF 4]] by simp
  have "epolls_ok (on_epoll (nat ei) (\<lambda>e. e\<lparr>ei_owner_pid := t\<rparr>) w4)"
    using w4 by (intro epolls_ok_on_epoll) (auto simp: ei_ok_def)
  then show ?thesis using w w1 w2 w4
    by (simp add: epoll_create1_handler_def Let_def 1 2 4 flip: w3_def)
      (simp add: epoll_instance_free_ok epolls_ok_cong [OF epolls_frame(3)] epolls_ok_cong [OF epolls_frame(4)])
qed

lemma item_of_None: "item_of w e fd = None \<longleftrightarrow> fd \<notin> set (map it_fd (ei_items (w_epolls w ! e)))"
  by (auto simp: item_of_def find_None_iff) (metis in_set_conv_nth)

lemma item_of_Some: "item_of w e fd = Some k \<Longrightarrow> k < length (ei_items (w_epolls w ! e)) \<and> it_fd (ei_items (w_epolls w ! e) ! k) = fd"
  by (auto simp: item_of_def find_Some_iff)

lemma ei_ok_append:
  "ei_ok x \<Longrightarrow> length (ei_items x) < EPOLL_MAX_ITEMS \<Longrightarrow> it_fd it \<notin> set (map it_fd (ei_items x)) \<Longrightarrow> \<not> it_ready it \<Longrightarrow>
   ei_ok (x\<lparr>ei_items := ei_items x @ [it]\<rparr>)"
  by (auto simp: ei_ok_def)

lemma epoll_ctl_add_ok:
  assumes "epolls_ok w" "e < EPOLL_MAX_INSTANCES" "ei_in_use (w_epolls w ! e)"
  shows "epolls_ok (snd (epoll_ctl_add env w t e fd target ev))"
proof (cases "item_of w e fd \<noteq> None \<or> length (ei_items (w_epolls w ! e)) \<ge> EPOLL_MAX_ITEMS \<or> ev = None")
  case True
  then show ?thesis using assms(1) by (auto simp: epoll_ctl_add_def Let_def)
next
  case False
  then obtain events data where ev: "ev = Some (events, data)" by auto
  define n where "n = length (ei_items (w_epolls w ! e))"
  define it where "it = \<lparr>it_fd = fd, it_pool_idx = int target, it_events = events, it_data = data, it_ready = False\<rparr>"
  define w1 where "w1 = on_epoll e (\<lambda>x. x\<lparr>ei_items := ei_items x @ [it]\<rparr>) w"
  have e: "e < length (w_epolls w)" using assms by (simp add: epolls_ok_def)
  have w1: "epolls_ok w1" unfolding w1_def
    using assms False by (intro epolls_ok_on_epoll) (auto simp: it_def item_of_None intro!: ei_ok_append)
  have undo: "w_epolls (on_epoll e (\<lambda>x. x\<lparr>ei_items := butlast (ei_items x)\<rparr>) w1) = w_epolls w"
    using e by (simp add: w1_def on_epoll_def)
  obtain rc q where q: "wq_register (wq_of w target) e (int n) = (rc, q)" by fastforce
  define w2 where "w2 = on_wq target (\<lambda>_. q) w1"
  have w2: "epolls_ok w2" using w1 by (simp add: w2_def epolls_ok_def)
  have "w_epolls w2 ! e = (w_epolls w ! e)\<lparr>ei_items := ei_items (w_epolls w ! e) @ [it]\<rparr>"
    using e by (simp add: w2_def w1_def on_epoll_nth)
  then have "epolls_ok (mark_ready e w2 n)"
    using assms(3) by (intro mark_ready_ok [OF w2]) (simp_all add: n_def it_def nth_append)
  then have "epolls_ok (wake_epoll env e (mark_ready e w2 n))" by (rule wake_epoll_ok)
  moreover have "epolls_ok (on_epoll e (\<lambda>x. x\<lparr>ei_items := butlast (ei_items x)\<rparr>) w1)"
    using epolls_ok_cong [OF undo] assms(1) by simp
  ultimately show ?thesis using False w2
    by (simp add: epoll_ctl_add_def ev Let_def q [unfolded n_def] w2_def w1_def it_def n_def)
qed

lemma ei_ok_unmark:
  assumes "ei_ok x" "k < length (ei_items x)" "it_ready (ei_items x ! k)"
  shows "ei_ok (x\<lparr>ei_items := (ei_items x)[k := (ei_items x ! k)\<lparr>it_ready := False\<rparr>], ei_ready_count := ei_ready_count x - 1\<rparr>)"
  using assms ready_update [OF assms(2), of it_ready "(ei_items x ! k)\<lparr>it_ready := False\<rparr>"]
  by (simp add: ei_ok_def map_fd_update)

lemma ei_ok_modify:
  assumes "ei_ok x" "k < length (ei_items x)"
  shows "ei_ok (x\<lparr>ei_items := (ei_items x)[k := (ei_items x ! k)\<lparr>it_events := ev, it_data := d\<rparr>]\<rparr>)"
  using assms ready_update [OF assms(2), of it_ready "(ei_items x ! k)\<lparr>it_events := ev, it_data := d\<rparr>"]
  by (simp add: ei_ok_def map_fd_update)

lemma epoll_ctl_mod_ok:
  assumes "epolls_ok w" "e < EPOLL_MAX_INSTANCES" "ei_in_use (w_epolls w ! e)"
  shows "epolls_ok (snd (epoll_ctl_mod env w t e fd ev))"
proof (cases "item_of w e fd = None \<or> ev = None")
  case True
  then show ?thesis using assms(1) by (auto simp: epoll_ctl_mod_def split: option.splits)
next
  case False
  then obtain k events data where k: "item_of w e fd = Some k" and ev: "ev = Some (events, data)" by auto
  define w1 where "w1 = on_epoll e (\<lambda>x. x\<lparr>ei_items := (ei_items x)[k := (ei_items x ! k)\<lparr>it_events := events, it_data := data\<rparr>]\<rparr>) w"
  have w1: "epolls_ok w1" unfolding w1_def
    using assms item_of_Some [OF k] by (intro epolls_ok_on_epoll) (auto intro!: ei_ok_modify)
  have x: "ei_in_use (w_epolls w1 ! e)" "k < length (ei_items (w_epolls w1 ! e))"
    using assms item_of_Some [OF k] by (simp_all add: w1_def epolls_ok_def on_epoll_nth)
  have "epolls_ok (on_epoll e (\<lambda>x. x\<lparr>ei_items := (ei_items x)[k := (ei_items x ! k)\<lparr>it_ready := False\<rparr>],
      ei_ready_count := ei_ready_count x - 1\<rparr>) w1)" if "it_ready (ei_items (w_epolls w1 ! e) ! k)"
    using that w1 x by (intro epolls_ok_on_epoll) (auto intro!: ei_ok_unmark)
  then show ?thesis using w1 x
    by (auto simp: epoll_ctl_mod_def k ev Let_def simp flip: w1_def intro!: wake_epoll_ok mark_ready_ok)
qed

lemma epoll_ctl_del_ok:
  assumes "epolls_ok w" "e < EPOLL_MAX_INSTANCES" "ei_in_use (w_epolls w ! e)"
  shows "epolls_ok (snd (epoll_ctl_del w e fd target))"
proof (cases "item_of w e fd")
  case (Some k)
  then show ?thesis using assms item_of_Some [OF Some]
    by (auto simp: epoll_ctl_del_def epolls_ok_def [of "on_wq i f w" for i f w] epolls_ok_def [of w] intro!: remove_item_ok)
qed (simp add: epoll_ctl_del_def assms)

lemma epoll_get_Some: "epoll_get w idx = Some e \<longleftrightarrow> idx = int e \<and> e < EPOLL_MAX_INSTANCES \<and> ei_in_use (w_epolls w ! e)"
  by (auto simp: epoll_get_def split: if_splits)

lemma epoll_ctl_ok: "epolls_ok w \<Longrightarrow> epolls_ok (snd (epoll_ctl_handler env w t epfd op fd ev))"
  by (simp add: epoll_ctl_handler_def epoll_get_Some epoll_ctl_add_ok epoll_ctl_del_ok epoll_ctl_mod_ok split: option.split)

section \<open>Waiting\<close>

lemma epoll_collect_spec:
  "epoll_collect m n its = (es, its') \<Longrightarrow>
   es = map (\<lambda>it. (m it, it_data it)) (take n (filter it_ready its)) \<and> map it_fd its' = map it_fd its"
proof (induction m n its arbitrary: es its' rule: epoll_collect.induct)
  case (2 m n it its)
  show ?case
  proof (cases "n = 0")
    case False
    then obtain n' where n': "n = Suc n'" by (cases n) auto
    then show ?thesis using "2.prems" "2.IH" by (auto split: if_splits prod.splits)
  qed (use "2.prems" in auto)
qed simp

text \<open>The items of instance \<open>e\<close> for which task \<open>t\<close> has something to be told.\<close>

definition pending_items :: "poll_env \<Rightarrow> nat \<Rightarrow> nat \<Rightarrow> fs_world \<Rightarrow> epoll_item_t list" where
  "pending_items env t e w = filter (\<lambda>it. matched_events env w t it \<noteq> 0) (ei_items (w_epolls w ! e))"

lemma task_get_fd_epolls [simp]: "task_get_fd (on_epoll e f w) t fd = task_get_fd w t fd"
  by (simp add: task_get_fd_def on_epoll_def Let_def)

text \<open>The events of other files do not depend on the epoll instances.\<close>

definition env_ok :: "poll_env \<Rightarrow> bool" where
  "env_ok env \<longleftrightarrow> (\<forall>w a e f. pe_file_poll env (on_epoll e f w) a = pe_file_poll env w a)"

lemma fd_poll_epolls: "env_ok env \<Longrightarrow> fd_poll env (on_epoll e f w) t fd = fd_poll env w t fd"
proof -
  assume "env_ok env"
  then have "pe_file_poll env (on_epoll e f w) a = pe_file_poll env w a" for a unfolding env_ok_def by blast
  moreover have "w_files (on_epoll e f w) = w_files w" "w_pipes (on_epoll e f w) = w_pipes w" by (simp_all add: on_epoll_def)
  ultimately have "vfs_poll env (on_epoll e f w) a = vfs_poll env w a" for a
    by (simp add: vfs_poll_def split: option.split)
  then show ?thesis by (simp only: fd_poll_def task_get_fd_epolls on_epoll_pool)
qed

lemma matched_events_epolls: "env_ok env \<Longrightarrow> matched_events env (on_epoll e f w) t it = matched_events env w t it"
  by (simp add: matched_events_def fd_poll_epolls)

lemma matched_events_ready [simp]: "matched_events env w t (it\<lparr>it_ready := b\<rparr>) = matched_events env w t it"
  by (simp add: matched_events_def)

lemma rescan_nth:
  assumes "e < length (w_epolls w)"
  shows "ei_items (w_epolls (epoll_rescan env t e w) ! e) =
           map (\<lambda>it. it\<lparr>it_ready := matched_events env w t it \<noteq> 0\<rparr>) (ei_items (w_epolls w ! e))"
    and "ei_ready_count (w_epolls (epoll_rescan env t e w) ! e) = int (length (pending_items env t e w))"
  using assms by (simp_all add: epoll_rescan_def on_epoll_nth Let_def pending_items_def filter_map o_def)

lemma rescan_matched: "env_ok env \<Longrightarrow> matched_events env (epoll_rescan env t e w) t = matched_events env w t"
  unfolding epoll_rescan_def by (rule ext) (rule matched_events_epolls)

lemma rescan_collect:
  assumes "e < length (w_epolls w)"
  shows "fst (epoll_collect (matched_events env w t) n (ei_items (w_epolls (epoll_rescan env t e w) ! e))) =
    map (\<lambda>it. (matched_events env w t it, it_data it)) (take n (pending_items env t e w))"
proof -
  let ?c = "epoll_collect (matched_events env w t) n (ei_items (w_epolls (epoll_rescan env t e w) ! e))"
  have "?c = (fst ?c, snd ?c)" by simp
  from epoll_collect_spec [OF this] show ?thesis
    unfolding rescan_nth(1) [OF assms] by (simp add: filter_map o_def take_map pending_items_def)
qed

lemma wait_pass_pending:
  assumes "e < length (w_epolls w)" "env_ok env" "pending_items env t e w \<noteq> []"
    and "epoll_wait_pass env t addr e n False timeout expired w = (r, es, w')"
  shows "r = Returned (int (length es)) \<and>
    es = map (\<lambda>it. (matched_events env w t it, it_data it)) (take n (pending_items env t e w))"
proof -
  let ?w = "epoll_rescan env t e w"
  obtain es' its where c: "epoll_collect (matched_events env w t) n (ei_items (w_epolls ?w ! e)) = (es', its)"
    by (meson surj_pair)
  have "ei_ready_count (w_epolls ?w ! e) > 0" using assms(3) by (simp add: rescan_nth(2) [OF assms(1)])
  then have "r = Returned (int (length es')) \<and> es = es'"
    using assms(4) unfolding epoll_wait_pass_def Let_def rescan_matched [OF assms(2)] c by auto
  then show ?thesis using rescan_collect [OF assms(1), of env t n] c by simp
qed

lemma wait_pass_nothing:
  assumes "e < length (w_epolls w)" "pending_items env t e w = []"
  shows "epoll_wait_pass env t addr e n False timeout expired w =
    (let w = epoll_rescan env t e w
     in if timeout = 0 \<or> timeout > 0 \<and> expired then (Returned 0, [], w)
        else (Blocked, [], on_epoll e (\<lambda>x. x\<lparr>ei_blocked_task := addr\<rparr>) w))"
proof -
  have "\<not> ei_ready_count (w_epolls (epoll_rescan env t e w) ! e) > 0"
    using assms(2) by (simp add: rescan_nth(2) [OF assms(1)])
  then show ?thesis unfolding epoll_wait_pass_def Let_def by auto
qed

lemma rescan_ok: "epolls_ok w \<Longrightarrow> epolls_ok (epoll_rescan env t e w)"
  unfolding epoll_rescan_def Let_def by (rule epolls_ok_on_epoll) (auto simp: ei_ok_def o_def)

lemma wait_pass_ok:
  assumes "epolls_ok w" and x: "epoll_wait_pass env t addr e n sig timeout expired w = (r, es, w')"
  shows "epolls_ok w'"
proof -
  let ?w = "epoll_rescan env t e w"
  obtain es' its where c: "epoll_collect (matched_events env ?w t) n (ei_items (w_epolls ?w ! e)) = (es', its)"
    by (meson surj_pair)
  have w: "epolls_ok ?w" by (rule rescan_ok [OF assms(1)])
  have "epolls_ok (on_epoll e (\<lambda>x. x\<lparr>ei_items := its, ei_ready_count := 0\<rparr>) ?w)"
  proof (rule epolls_ok_on_epoll [OF w])
    let ?x = "w_epolls ?w ! e"
    assume "ei_in_use (?x\<lparr>ei_items := its, ei_ready_count := 0\<rparr>)" and "ei_in_use ?x \<Longrightarrow> ei_ok ?x"
    then have "ei_ok ?x" by simp
    moreover have "map it_fd its = map it_fd (ei_items ?x)" using epoll_collect_spec [OF c] by simp
    ultimately show "ei_ok (?x\<lparr>ei_items := its, ei_ready_count := 0\<rparr>)"
      by (simp add: ei_ok_def) (metis length_map)
  qed
  moreover have "epolls_ok (on_epoll e (\<lambda>x. x\<lparr>ei_blocked_task := addr\<rparr>) ?w)"
    by (rule epolls_ok_on_epoll [OF w]) (simp add: ei_ok_def)
  ultimately show ?thesis using x w assms(1) unfolding epoll_wait_pass_def Let_def c by (auto split: if_splits)
qed

lemma wait_resume_ok:
  "epolls_ok w \<Longrightarrow> epoll_wait_resume env t addr e n sig timeout expired w = (r, es, w') \<Longrightarrow> epolls_ok w'"
  unfolding epoll_wait_resume_def
  by (erule wait_pass_ok [rotated], rule epolls_ok_on_epoll) (simp_all add: ei_ok_def)

lemma epoll_destroy_ok: "epolls_ok w \<Longrightarrow> epolls_ok (epoll_destroy env w i)"
proof -
  let ?f = "\<lambda>e i w. let p = it_pool_idx (ei_items (w_epolls w ! e) ! i)
      in if p \<ge> 0 \<and> p < int FD_POOL_SIZE \<and> o_type (w_pool w ! nat p) \<noteq> FDT_FREE
         then on_wq (nat p) (\<lambda>q. wq_unregister q e (int i)) w else w"
  have "w_epolls (fold (?f e) is w) = w_epolls w" for e "is"
    by (induction "is" arbitrary: w) (simp_all add: Let_def)
  moreover assume "epolls_ok w"
  ultimately have "epolls_ok (fold (?f e) is w)" for e "is" using epolls_ok_cong by blast
  then show ?thesis using \<open>epolls_ok w\<close> unfolding epoll_destroy_def Let_def
    by (auto split: option.splits intro!: epoll_instance_free_ok wake_epoll_ok)
qed

section \<open>The wait queues\<close>

definition wqs_ok :: "fs_world \<Rightarrow> bool" where
  "wqs_ok w \<longleftrightarrow> (\<forall>x \<in> set (w_pool w). length (o_wq x) \<le> FD_WAIT_MAX)"

lemma wqs_ok_pool: "w_pool w' = w_pool w \<Longrightarrow> wqs_ok w' = wqs_ok w"
  by (simp add: wqs_ok_def)

lemma wqs_on_obj:
  assumes "wqs_ok w" "\<And>x. length (o_wq x) \<le> FD_WAIT_MAX \<Longrightarrow> length (o_wq (f x)) \<le> FD_WAIT_MAX"
  shows "wqs_ok (on_obj i f w)"
proof (cases "i < length (w_pool w)")
  case True
  then have "w_pool w ! i \<in> set (w_pool w)" by simp
  then have "length (o_wq (f (w_pool w ! i))) \<le> FD_WAIT_MAX" using assms by (simp add: wqs_ok_def)
  then show ?thesis using assms(1) set_update_subset_insert [of "w_pool w" i "f (w_pool w ! i)"]
    unfolding wqs_ok_def on_obj_def by auto
next
  case False
  then show ?thesis using assms(1) by (simp add: wqs_ok_def on_obj_def list_update_beyond)
qed

lemma wqs_on_wq: "wqs_ok w \<Longrightarrow> (\<And>q. length q \<le> FD_WAIT_MAX \<Longrightarrow> length (f q) \<le> FD_WAIT_MAX) \<Longrightarrow> wqs_ok (on_wq i f w)"
  unfolding on_wq_def by (rule wqs_on_obj) simp_all

lemma length_wq_unregister: "length (wq_unregister q e k) \<le> length q"
  by (simp add: wq_unregister_def split: option.split)

lemma length_wq_register: "length q \<le> FD_WAIT_MAX \<Longrightarrow> length (snd (wq_register q e k)) \<le> FD_WAIT_MAX"
  by (simp add: wq_register_def)

lemma pool_frame [simp]:
  "w_pool (log_events es w) = w_pool w" "w_pool (wake_epoll env e w) = w_pool w" "w_pool (mark_ready e w k) = w_pool w"
  "w_pool (epoll_rescan env t e w) = w_pool w" "w_pool (set_fd t fd i w) = w_pool w" "w_pool (set_cloexec_bit t fd b w) = w_pool w"
  "w_pool (epoll_instance_free w j) = w_pool w"
  by (simp_all add: log_events_def wake_epoll_def mark_ready_def epoll_rescan_def set_fd_def on_task_def set_cloexec_bit_def
      epoll_instance_free_def Let_def)

lemma pool_notify [simp]: "w_pool (notify_waiter env i ev wt w) = w_pool w"
  by (simp add: notify_waiter_def Let_def)

lemma pool_fd_notify [simp]: "w_pool (fd_notify_waiters env w i ev) = w_pool w"
proof -
  have "w_pool (fold (notify_waiter env i ev) wts v) = w_pool v" for wts v
    by (induction wts arbitrary: v) simp_all
  then show ?thesis by (simp add: fd_notify_waiters_def)
qed

lemma wqs_frame [simp]:
  "wqs_ok (on_epoll e f w) = wqs_ok w" "wqs_ok (wake_epoll env e w) = wqs_ok w" "wqs_ok (mark_ready e w k) = wqs_ok w"
  "wqs_ok (epoll_rescan env t e w) = wqs_ok w" "wqs_ok (set_cloexec_bit t fd b w) = wqs_ok w"
  "wqs_ok (epoll_instance_free w j) = wqs_ok w" "wqs_ok (fd_notify_waiters env w i ev) = wqs_ok w"
  by (simp_all add: wqs_ok_def)

lemma wqs_remove_item: "wqs_ok w \<Longrightarrow> wqs_ok (remove_item c e k w)"
  unfolding remove_item_def move_last_item_def Let_def
  by (auto intro!: wqs_on_wq length_wq_register order_trans [OF length_wq_unregister])

lemma wqs_close_notify_round: "wqs_ok w \<Longrightarrow> wqs_ok (close_notify_round i w)"
  unfolding close_notify_round_def Let_def by (auto intro!: wqs_remove_item wqs_on_wq)

lemma wqs_close_notify_loop: "wqs_ok w \<Longrightarrow> wqs_ok (close_notify_loop i w)"
proof (induction i w rule: close_notify_loop.induct)
  case (1 i w)
  then show ?case by (subst close_notify_loop.simps) (simp add: wqs_close_notify_round)
qed

lemma wqs_fd_pool_alloc: "wqs_ok w \<Longrightarrow> fd_pool_alloc w = (i, w') \<Longrightarrow> wqs_ok w'"
  by (auto simp: fd_pool_alloc_def split: option.splits intro!: wqs_on_obj)

lemma wqs_fd_pool_free: "wqs_ok w \<Longrightarrow> wqs_ok (fd_pool_free w i)"
  by (auto simp: fd_pool_free_def intro!: wqs_on_obj)

lemma pool_alloc_frame:
  "epoll_instance_alloc w = (i, w') \<Longrightarrow> w_pool w' = w_pool w" "task_alloc_fd w t p = (fd, w') \<Longrightarrow> w_pool w' = w_pool w"
  by (auto simp: epoll_instance_alloc_def task_alloc_fd_def split: option.splits)

lemma wqs_epoll_create1: "wqs_ok w \<Longrightarrow> wqs_ok (snd (epoll_create1_handler w t flags))"
proof -
  assume w: "wqs_ok w"
  obtain ei w1 where 1: "epoll_instance_alloc w = (ei, w1)" by (cases "epoll_instance_alloc w")
  obtain p w2 where 2: "fd_pool_alloc w1 = (p, w2)" by (cases "fd_pool_alloc w1")
  define w3 where "w3 = on_obj (nat p) (\<lambda>x. x\<lparr>o_type := FDT_EPOLL, o_flags := 0, o_ep_idx := ei, o_path := '''', o_wq := []\<rparr>) w2"
  obtain fd w4 where 4: "task_alloc_fd w3 t p = (fd, w4)" by (cases "task_alloc_fd w3 t p")
  have w1: "wqs_ok w1" using w wqs_ok_pool [OF pool_alloc_frame(1) [OF 1]] by simp
  have w2: "wqs_ok w2" using wqs_fd_pool_alloc [OF w1 2] .
  then have "wqs_ok w3" unfolding w3_def by (rule wqs_on_obj) simp
  then have w4: "wqs_ok w4" using wqs_ok_pool [OF pool_alloc_frame(2) [OF 4]] by simp
  then show ?thesis using w w1 w2
    by (simp add: epoll_create1_handler_def Let_def 1 2 4 wqs_fd_pool_free flip: w3_def)
qed

lemma wqs_epoll_ctl: "wqs_ok w \<Longrightarrow> wqs_ok (snd (epoll_ctl_handler env w t epfd op fd ev))"
proof -
  assume w: "wqs_ok w"
  have "wqs_ok (snd (epoll_ctl_add env w t e fd i ev))" for e i
  proof -
    obtain rc q where q: "wq_register (wq_of w i) e (int (length (ei_items (w_epolls w ! e)))) = (rc, q)"
      by (meson surj_pair)
    have "wqs_ok (on_wq i (\<lambda>_. q) (on_epoll e f w))" for f
    proof (cases "i < length (w_pool w)")
      case True
      then have "length (wq_of w i) \<le> FD_WAIT_MAX" using w by (simp add: wqs_ok_def)
      then have "length q \<le> FD_WAIT_MAX" using length_wq_register [of "wq_of w i" e] q by (metis snd_conv)
      then show ?thesis using w by (intro wqs_on_wq) simp_all
    next
      case False
      then show ?thesis using w by (simp add: wqs_ok_def on_wq_def on_obj_def list_update_beyond)
    qed
    then show ?thesis using w by (simp add: epoll_ctl_add_def Let_def q split: option.split)
  qed
  moreover have "wqs_ok (snd (epoll_ctl_del w e fd i))" for e i
    using w by (auto simp: epoll_ctl_del_def split: option.splits
        intro!: wqs_remove_item wqs_on_wq order_trans [OF length_wq_unregister])
  moreover have "wqs_ok (snd (epoll_ctl_mod env w t e fd ev))" for e
    using w by (simp add: epoll_ctl_mod_def Let_def split: option.split)
  ultimately show ?thesis using w by (simp add: epoll_ctl_handler_def split: option.split)
qed

lemma wqs_epoll_destroy: "wqs_ok w \<Longrightarrow> wqs_ok (epoll_destroy env w i)"
proof -
  let ?f = "\<lambda>e i w. let p = it_pool_idx (ei_items (w_epolls w ! e) ! i)
      in if p \<ge> 0 \<and> p < int FD_POOL_SIZE \<and> o_type (w_pool w ! nat p) \<noteq> FDT_FREE
         then on_wq (nat p) (\<lambda>q. wq_unregister q e (int i)) w else w"
  assume w: "wqs_ok w"
  have f: "wqs_ok (?f e k v)" if "wqs_ok v" for e k v
    using that by (auto simp: Let_def intro!: wqs_on_wq order_trans [OF length_wq_unregister])
  have "wqs_ok (fold (?f e) is w)" for e "is"
    by (rule fold_invariant [where Q = "\<lambda>_. True" and P = wqs_ok]) (simp, rule w, rule f)
  then show ?thesis using w unfolding epoll_destroy_def Let_def
    by (simp split: option.split)
qed

lemma wqs_wait_pass: "wqs_ok w \<Longrightarrow> epoll_wait_pass env t addr e n sig timeout expired w = (r, es, w') \<Longrightarrow> wqs_ok w'"
  by (auto simp: epoll_wait_pass_def Let_def split: if_splits prod.splits)

section \<open>Runs\<close>

inductive epoll_step :: "poll_env \<Rightarrow> fs_world \<Rightarrow> fs_world \<Rightarrow> bool" for env where
  create: "epoll_step env w (snd (epoll_create1_handler w t flags))"
| ctl: "epoll_step env w (snd (epoll_ctl_handler env w t epfd op fd ev))"
| notify: "epoll_step env w (fd_notify_waiters env w i events)"
| forget: "epoll_step env w (fd_close_notify w i)"
| wait: "epoll_wait_pass env t addr e n sig timeout expired w = (r, es, w') \<Longrightarrow> epoll_step env w w'"
| resume: "epoll_wait_resume env t addr e n sig timeout expired w = (r, es, w') \<Longrightarrow> epoll_step env w w'"
| destroy: "epoll_step env w (epoll_destroy env w i)"

lemma epoll_step_ok: "epoll_step env w w' \<Longrightarrow> epolls_ok w \<and> wqs_ok w \<Longrightarrow> epolls_ok w' \<and> wqs_ok w'"
proof (induction rule: epoll_step.induct)
  case (create w t flags)
  then show ?case by (simp add: epoll_create1_ok wqs_epoll_create1)
next
  case (ctl w t epfd op fd ev)
  then show ?case by (simp add: epoll_ctl_ok wqs_epoll_ctl)
next
  case (notify w i events)
  then show ?case by (simp add: fd_notify_ok)
next
  case (forget w i)
  then show ?case by (simp add: fd_close_notify_ok) (simp add: fd_close_notify_def wqs_close_notify_loop)
next
  case (wait t addr e n sig timeout expired w r es w')
  then show ?case using wait_pass_ok [OF _ wait.hyps] wqs_wait_pass [OF _ wait.hyps] by simp
next
  case (resume t addr e n sig timeout expired w r es w')
  then have "wqs_ok w'" unfolding epoll_wait_resume_def
    by (elim wqs_wait_pass [rotated]) simp
  then show ?case using resume wait_resume_ok [OF _ resume.hyps] by simp
next
  case (destroy w i)
  then show ?case by (simp add: epoll_destroy_ok wqs_epoll_destroy)
qed

definition no_epolls :: "epoll_instance_t list" where
  "no_epolls = replicate 16 \<lparr>ei_in_use = False, ei_owner_pid = 0, ei_items = [], ei_ready_count = 0, ei_blocked_task = 0\<rparr>"


text \<open>A state with one task whose descriptors 3 and 4 are the ends of a pipe.\<close>

definition one_pipe :: fs_world where
  "one_pipe =
     (let free = \<lparr>o_type = FDT_FREE, o_flags = 0, o_path = '''', o_file = 0, o_ops = 0, o_priv = 0, o_handle = 0, o_ep_idx = 0, o_wq = []\<rparr>;
          file = \<lparr>f_kind = VFS_FILE_PIPE, f_flags = 0, f_refcnt = 1, f_path = '''', f_pipe_idx = 0, f_is_write_end = False\<rparr>
      in \<lparr>w_pool = [free\<lparr>o_type := FDT_VFS, o_file := 0x1000\<rparr>, free\<lparr>o_type := FDT_VFS, o_file := 0x2000\<rparr>] @ replicate 126 free,
          w_pipes = (pipe_zero\<lparr>p_rd_refcount := 1, p_wr_refcount := 1, p_rd_pool_idx := 0, p_wr_pool_idx := 1\<rparr>) # replicate 15 pipe_zero,
          w_epolls = no_epolls,
          w_files = [0x1000 \<mapsto> file, 0x2000 \<mapsto> file\<lparr>f_is_write_end := True\<rparr>],
          w_tasks = (\<lambda>_. \<lparr>k_fd_table = replicate 256 (- 1), k_fd_cloexec = replicate 32 0, k_is_user_process = True\<rparr>)
            (0 := \<lparr>k_fd_table = [- 1, - 1, - 1, 0, 1] @ replicate 251 (- 1), k_fd_cloexec = replicate 32 0, k_is_user_process = True\<rparr>),
          w_events = []\<rparr>)"

definition quiet_env :: poll_env where
  "quiet_env = \<lparr>pe_uart_empty = True, pe_file_poll = (\<lambda>_ _. 0), pe_blocked = (\<lambda>t. t = 7)\<rparr>"

lemma one_pipe_simps:
  "w_epolls one_pipe = no_epolls" "length (w_pool one_pipe) = 128" "length (w_pipes one_pipe) = 16"
  "\<forall>x \<in> set (w_pool one_pipe). o_wq x = []"
  by (simp_all add: one_pipe_def Let_def)

lemma find_upt:
  "a \<le> i \<Longrightarrow> i < b \<Longrightarrow> P i \<Longrightarrow> \<forall>j \<in> {a..<i}. \<not> P j \<Longrightarrow> List.find P [a..<b] = Some i"
  by (auto simp: find_Some_iff nth_upt intro!: exI [of _ "i - a"])

lemma one_pipe_create: "epoll_create1_handler one_pipe 0 0 =
  (5, on_epoll 0 (\<lambda>e. e\<lparr>ei_owner_pid := 0\<rparr>) (set_fd 0 5 2
     (on_obj 2 (\<lambda>x. x\<lparr>o_type := FDT_EPOLL, o_flags := 0, o_ep_idx := 0, o_path := [], o_wq := []\<rparr>)
     (on_obj 2 (\<lambda>x. x\<lparr>o_type := FDT_ALLOCATED, o_file := 0\<rparr>)
     (on_epoll 0 (\<lambda>_. \<lparr>ei_in_use = True, ei_owner_pid = 0, ei_items = [], ei_ready_count = 0, ei_blocked_task = 0\<rparr>) one_pipe)))))"
proof -
  have 0: "List.find (\<lambda>i. \<not> ei_in_use (w_epolls one_pipe ! i)) [0..<16] = Some 0"
    by (rule find_upt) (simp_all add: one_pipe_simps no_epolls_def)
  have 1: "List.find (\<lambda>i. o_type (w_pool one_pipe ! i) = FDT_FREE) [0..<128] = Some 2"
    by (rule find_upt) (auto simp: one_pipe_def Let_def less_Suc_eq numeral_2_eq_2)
  have 2: "List.find (\<lambda>i. tbl one_pipe 0 i = - 1) [3..<256] = Some 5"
    by (rule find_upt) (auto simp: one_pipe_def Let_def nth_append nth_Cons' less_Suc_eq)
  show ?thesis using 0 1 2
    by (simp add: epoll_create1_handler_def epoll_instance_alloc_def fd_pool_alloc_def task_alloc_fd_def on_obj_def on_epoll_def Let_def
        del: upt_rec_numeral)
qed


section \<open>What epoll leaves alone\<close>

text \<open>Everything but the epoll instances, the wait queues and the events.\<close>

definition fd_core :: "fs_world \<Rightarrow> fd_obj_t list \<times> pipe_t list \<times> (u64 \<Rightarrow> vfs_file_t option) \<times> (nat \<Rightarrow> fd_task)" where
  "fd_core w = (map (\<lambda>x. x\<lparr>o_wq := []\<rparr>) (w_pool w), w_pipes w, w_files w, w_tasks w)"

lemma fd_core_basic [simp]:
  "fd_core (on_epoll e f w) = fd_core w" "fd_core (log_events es w) = fd_core w" "fd_core (on_wq i g w) = fd_core w"
proof -
  have "map (\<lambda>x. x\<lparr>o_wq := []\<rparr>) ((w_pool w)[i := (w_pool w ! i)\<lparr>o_wq := q\<rparr>]) = map (\<lambda>x. x\<lparr>o_wq := []\<rparr>) (w_pool w)" for q
    by (cases "i < length (w_pool w)") (simp_all add: map_update list_update_beyond, metis list_update_id map_update nth_map)
  then show "fd_core (on_wq i g w) = fd_core w" by (simp add: fd_core_def on_wq_def on_obj_def)
qed (simp_all add: fd_core_def on_epoll_def log_events_def)

lemma fd_core_epoll [simp]:
  "fd_core (wake_epoll env e w) = fd_core w" "fd_core (mark_ready e w k) = fd_core w"
  "fd_core (epoll_instance_free w j) = fd_core w" "fd_core (remove_item c e k w) = fd_core w"
  "fd_core (notify_waiter env i ev wt w) = fd_core w" "fd_core (epoll_rescan env t e w) = fd_core w"
  by (simp_all add: wake_epoll_def mark_ready_def epoll_instance_free_def remove_item_def move_last_item_def notify_waiter_def
      epoll_rescan_def Let_def)

lemma fd_core_fold: "(\<And>x v. fd_core (f x v) = fd_core v) \<Longrightarrow> fd_core (fold f xs w) = fd_core w"
  by (induction xs arbitrary: w) simp_all

lemma fd_core_notify [simp]: "fd_core (fd_notify_waiters env w i ev) = fd_core w"
  by (simp add: fd_notify_waiters_def fd_core_fold)

lemma fd_core_close_notify [simp]: "fd_core (fd_close_notify w i) = fd_core w"
proof -
  have "fd_core (close_notify_round j v) = fd_core v" for j v by (simp add: close_notify_round_def Let_def)
  then have "fd_core (close_notify_loop j v) = fd_core v" for j v
    by (induction j v rule: close_notify_loop.induct) (subst close_notify_loop.simps, simp)
  then show ?thesis by (simp add: fd_close_notify_def)
qed

lemma fd_core_destroy [simp]: "fd_core (epoll_destroy env w i) = fd_core w"
  by (simp add: epoll_destroy_def Let_def fd_core_fold split: option.split)

lemma fd_core_pool:
  assumes "fd_core w' = fd_core w"
  shows "length (w_pool w') = length (w_pool w)" "i < length (w_pool w) \<Longrightarrow> (w_pool w' ! i)\<lparr>o_wq := []\<rparr> = (w_pool w ! i)\<lparr>o_wq := []\<rparr>"
proof -
  have m: "map (\<lambda>x. x\<lparr>o_wq := []\<rparr>) (w_pool w') = map (\<lambda>x. x\<lparr>o_wq := []\<rparr>) (w_pool w)" using assms by (simp add: fd_core_def)
  then show l: "length (w_pool w') = length (w_pool w)" by (metis length_map)
  show "i < length (w_pool w) \<Longrightarrow> (w_pool w' ! i)\<lparr>o_wq := []\<rparr> = (w_pool w ! i)\<lparr>o_wq := []\<rparr>" using m l by (metis nth_map)
qed

lemma fd_core_obj:
  assumes "fd_core w' = fd_core w" "i < length (w_pool w)"
  shows "o_type (w_pool w' ! i) = o_type (w_pool w ! i)" "o_file (w_pool w' ! i) = o_file (w_pool w ! i)"
    "o_ops (w_pool w' ! i) = o_ops (w_pool w ! i)" "o_priv (w_pool w' ! i) = o_priv (w_pool w ! i)"
    "o_ep_idx (w_pool w' ! i) = o_ep_idx (w_pool w ! i)"
  using arg_cong [OF fd_core_pool(2) [OF assms], of o_type] arg_cong [OF fd_core_pool(2) [OF assms], of o_file]
    arg_cong [OF fd_core_pool(2) [OF assms], of o_ops] arg_cong [OF fd_core_pool(2) [OF assms], of o_priv]
    arg_cong [OF fd_core_pool(2) [OF assms], of o_ep_idx]
  by simp_all

lemma fd_core_rest:
  assumes "fd_core w' = fd_core w"
  shows "w_pipes w' = w_pipes w" "w_files w' = w_files w" "w_tasks w' = w_tasks w"
  using assms by (simp_all add: fd_core_def)

lemma close_notify_loop_empty: "i < length (w_pool w) \<Longrightarrow> wq_of (close_notify_loop i w) i = []"
proof (induction i w rule: close_notify_loop.induct)
  case (1 i w)
  have "length (w_pool (close_notify_round i w)) = length (w_pool w)"
    by (rule fd_core_pool(1)) (simp add: close_notify_round_def Let_def)
  with 1 show ?case by (subst close_notify_loop.simps) simp
qed



section \<open>A write to a watched pipe\<close>

definition ep_shape :: "fs_world \<Rightarrow> (bool \<times> epoll_item_t list) list" where
  "ep_shape w = map (\<lambda>x. (ei_in_use x, map (\<lambda>it. it\<lparr>it_ready := False\<rparr>) (ei_items x))) (w_epolls w)"

lemma ep_shape_on_epoll:
  assumes "ei_in_use (f (w_epolls w ! e)) = ei_in_use (w_epolls w ! e)"
    and "map (\<lambda>it. it\<lparr>it_ready := False\<rparr>) (ei_items (f (w_epolls w ! e))) = map (\<lambda>it. it\<lparr>it_ready := False\<rparr>) (ei_items (w_epolls w ! e))"
  shows "ep_shape (on_epoll e f w) = ep_shape w"
proof (cases "e < length (w_epolls w)")
  case True
  then show ?thesis using assms by (intro nth_equalityI) (simp_all add: ep_shape_def on_epoll_nth)
qed (simp add: ep_shape_def on_epoll_def list_update_beyond)

lemma ep_shape_wake [simp]: "ep_shape (wake_epoll env e w) = ep_shape w"
proof -
  have "ep_shape (log_events es v) = ep_shape v" for es v by (simp add: ep_shape_def)
  then show ?thesis by (simp add: wake_epoll_def Let_def ep_shape_on_epoll)
qed

lemma ep_shape_mark [simp]: "ep_shape (mark_ready e w k) = ep_shape w"
proof -
  have "map (\<lambda>it. it\<lparr>it_ready := False\<rparr>) (xs[k := (xs ! k)\<lparr>it_ready := True\<rparr>]) = map (\<lambda>it. it\<lparr>it_ready := False\<rparr>) xs" for xs
    by (cases "k < length xs") (simp_all add: map_update list_update_beyond, metis list_update_id map_update nth_map)
  then show ?thesis unfolding mark_ready_def by (intro ep_shape_on_epoll) simp_all
qed

lemma ep_shape_notify [simp]: "ep_shape (notify_waiter env i ev wt w) = ep_shape w"
  by (simp add: notify_waiter_def Let_def)

lemma ep_shape_nth:
  assumes "ep_shape w' = ep_shape w"
  shows "length (w_epolls w') = length (w_epolls w)"
    and "e < length (w_epolls w) \<Longrightarrow> ei_in_use (w_epolls w' ! e) = ei_in_use (w_epolls w ! e)"
    and "e < length (w_epolls w) \<Longrightarrow> map (\<lambda>it. it\<lparr>it_ready := False\<rparr>) (ei_items (w_epolls w' ! e)) = map (\<lambda>it. it\<lparr>it_ready := False\<rparr>) (ei_items (w_epolls w ! e))"
proof -
  show l: "length (w_epolls w') = length (w_epolls w)" using assms by (metis ep_shape_def length_map)
  have "e < length (w_epolls w) \<Longrightarrow> ep_shape w' ! e = ep_shape w ! e" using assms by simp
  then show "e < length (w_epolls w) \<Longrightarrow> ei_in_use (w_epolls w' ! e) = ei_in_use (w_epolls w ! e)"
    "e < length (w_epolls w) \<Longrightarrow> map (\<lambda>it. it\<lparr>it_ready := False\<rparr>) (ei_items (w_epolls w' ! e)) = map (\<lambda>it. it\<lparr>it_ready := False\<rparr>) (ei_items (w_epolls w ! e))"
    using l by (simp_all add: ep_shape_def)
qed

lemma ep_shape_item:
  assumes "ep_shape w' = ep_shape w" "e < length (w_epolls w)" "k < length (ei_items (w_epolls w ! e))"
  shows "k < length (ei_items (w_epolls w' ! e))"
    and "(ei_items (w_epolls w' ! e) ! k)\<lparr>it_ready := False\<rparr> = (ei_items (w_epolls w ! e) ! k)\<lparr>it_ready := False\<rparr>"
proof -
  note m = ep_shape_nth(3) [OF assms(1,2)]
  show l: "k < length (ei_items (w_epolls w' ! e))" using arg_cong [OF m, of length] assms(3) by simp
  show "(ei_items (w_epolls w' ! e) ! k)\<lparr>it_ready := False\<rparr> = (ei_items (w_epolls w ! e) ! k)\<lparr>it_ready := False\<rparr>"
    using arg_cong [OF m, of "\<lambda>xs. xs ! k"] l assms(3) by simp
qed

text \<open>A sleeper of instance \<open>e\<close> is either still recorded there or has been woken.\<close>

definition kept_or_woken :: "u64 \<Rightarrow> nat \<Rightarrow> fs_world \<Rightarrow> bool" where
  "kept_or_woken b e w \<longleftrightarrow> ei_blocked_task (w_epolls w ! e) = b \<or> Wake_epoll b \<in> set (w_events w)"

lemma events_on_epoll [simp]: "w_events (on_epoll e f w) = w_events w" "w_events (mark_ready e w k) = w_events w"
  by (simp_all add: on_epoll_def mark_ready_def)

lemma events_log [simp]: "w_events (log_events es w) = w_events w @ es"
  by (simp add: log_events_def)

lemma blocked_mark [simp]: "ei_blocked_task (w_epolls (mark_ready e w k) ! e') = ei_blocked_task (w_epolls w ! e')"
proof (cases "e < length (w_epolls w)")
  case True
  then show ?thesis by (simp add: mark_ready_def on_epoll_nth)
qed (simp add: mark_ready_def on_epoll_def list_update_beyond)

lemma kept_or_woken_wake: "kept_or_woken b e w \<Longrightarrow> kept_or_woken b e (wake_epoll env e' w)"
  by (cases "e' < length (w_epolls w)")
    (auto simp: kept_or_woken_def wake_epoll_def Let_def on_epoll_nth, auto simp: on_epoll_def list_update_beyond)

lemma kept_or_woken_notify: "kept_or_woken b e w \<Longrightarrow> kept_or_woken b e (notify_waiter env i ev wt w)"
proof -
  have "kept_or_woken b e w \<Longrightarrow> kept_or_woken b e (mark_ready e' w k)" for e' k by (simp add: kept_or_woken_def)
  then show "kept_or_woken b e w \<Longrightarrow> ?thesis" by (auto simp: notify_waiter_def Let_def intro!: kept_or_woken_wake)
qed

lemma wake_epoll_events: "set (w_events w) \<subseteq> set (w_events (wake_epoll env e w))"
  by (auto simp: wake_epoll_def Let_def)

lemma notify_events: "set (w_events w) \<subseteq> set (w_events (notify_waiter env i ev wt w))"
  using wake_epoll_events [of "mark_ready e w k" env e for e k] wake_epoll_events [of w env]
  by (auto simp: notify_waiter_def Let_def)

lemma fold_notify_events: "set (w_events w) \<subseteq> set (w_events (fold (notify_waiter env i ev) wts w))"
proof (induction wts arbitrary: w)
  case (Cons wt wts)
  show ?case using notify_events [of w env i ev wt] Cons [of "notify_waiter env i ev wt w"] by auto
qed simp

lemma notify_hits:
  assumes "kept_or_woken b (wt_ep wt) w" "b \<noteq> 0" "pe_blocked env b" "ei_in_use (w_epolls w ! wt_ep wt)"
    and "wt_item wt = int k" "k < length (ei_items (w_epolls w ! wt_ep wt))"
    and "it_pool_idx (ei_items (w_epolls w ! wt_ep wt) ! k) = i" "it_events (ei_items (w_epolls w ! wt_ep wt) ! k) AND ev \<noteq> 0"
  shows "Wake_epoll b \<in> set (w_events (notify_waiter env i ev wt w))"
proof -
  have "kept_or_woken b e v \<Longrightarrow> Wake_epoll b \<in> set (w_events (wake_epoll env e v))" for e v
    using assms(2,3) by (auto simp: kept_or_woken_def wake_epoll_def Let_def)
  moreover have "kept_or_woken b (wt_ep wt) (mark_ready (wt_ep wt) w k)" using assms(1) by (simp add: kept_or_woken_def)
  ultimately show ?thesis using assms by (simp add: notify_waiter_def Let_def)
qed

lemma fd_notify_wakes:
  assumes "wt \<in> set (wq_of w i)" "i < FD_POOL_SIZE" "kept_or_woken b (wt_ep wt) w" "b \<noteq> 0" "pe_blocked env b"
    and e: "wt_ep wt < length (w_epolls w)" and "ei_in_use (w_epolls w ! wt_ep wt)"
    and "wt_item wt = int k" and k: "k < length (ei_items (w_epolls w ! wt_ep wt))"
    and "it_pool_idx (ei_items (w_epolls w ! wt_ep wt) ! k) = int i" "it_events (ei_items (w_epolls w ! wt_ep wt) ! k) AND ev \<noteq> 0"
  shows "Wake_epoll b \<in> set (w_events (fd_notify_waiters env w (int i) ev))"
proof -
  let ?n = "notify_waiter env (int i) ev"
  obtain xs ys where q: "wq_of w i = xs @ wt # ys" using assms(1) by (meson split_list)
  let ?w = "fold ?n xs w"
  have sh: "ep_shape (fold ?n us v) = ep_shape v" for us v by (induction us arbitrary: v) simp_all
  have kw: "kept_or_woken b (wt_ep wt) (fold ?n us v)" if "kept_or_woken b (wt_ep wt) v" for us v
    using that by (induction us arbitrary: v) (simp_all add: kept_or_woken_notify)
  note it = ep_shape_item(2) [OF sh e k, of xs]
  have it': "it_pool_idx (ei_items (w_epolls ?w ! wt_ep wt) ! k) = int i" "it_events (ei_items (w_epolls ?w ! wt_ep wt) ! k) AND ev \<noteq> 0"
    using arg_cong [OF it, of it_pool_idx] arg_cong [OF it, of it_events] assms(10,11) by simp_all
  have "Wake_epoll b \<in> set (w_events (?n wt ?w))"
    using kw [OF assms(3)] assms(4,5,7,8) ep_shape_nth(2) [OF sh e, of xs] ep_shape_item(1) [OF sh e k, of xs]
    by (intro notify_hits [OF _ _ _ _ _ _ it']) simp_all
  then show ?thesis using assms(2) fold_notify_events [of "?n wt ?w" env "int i" ev ys]
    by (auto simp: fd_notify_waiters_def q)
qed

lemma fd_notify_frame:
  "ep_shape (fd_notify_waiters env w i ev) = ep_shape w"
  "kept_or_woken b e w \<Longrightarrow> kept_or_woken b e (fd_notify_waiters env w i ev)"
  "set (w_events w) \<subseteq> set (w_events (fd_notify_waiters env w i ev))"
proof -
  have "ep_shape (fold (notify_waiter env i ev) us v) = ep_shape v" for us v by (induction us arbitrary: v) simp_all
  then show "ep_shape (fd_notify_waiters env w i ev) = ep_shape w" by (simp add: fd_notify_waiters_def)
  have "kept_or_woken b e (fold (notify_waiter env i ev) us v)" if "kept_or_woken b e v" for us v
    using that by (induction us arbitrary: v) (simp_all add: kept_or_woken_notify)
  then show "kept_or_woken b e w \<Longrightarrow> kept_or_woken b e (fd_notify_waiters env w i ev)" by (simp add: fd_notify_waiters_def)
qed (simp add: fd_notify_waiters_def fold_notify_events)

lemma deliver_frame:
  "w_pool (deliver env x w) = w_pool w" "fd_core (deliver env x w) = fd_core w" "ep_shape (deliver env x w) = ep_shape w"
  "kept_or_woken b e w \<Longrightarrow> kept_or_woken b e (deliver env x w)" "set (w_events w) \<subseteq> set (w_events (deliver env x w))"
  using fd_notify_frame
  by (auto simp: deliver_def ep_shape_def kept_or_woken_def split: pipe_event.splits)

lemma deliver_all_frame:
  "w_pool (fold (deliver env) xs w) = w_pool w" "fd_core (fold (deliver env) xs w) = fd_core w" "ep_shape (fold (deliver env) xs w) = ep_shape w"
  "kept_or_woken b e w \<Longrightarrow> kept_or_woken b e (fold (deliver env) xs w)" "set (w_events w) \<subseteq> set (w_events (fold (deliver env) xs w))"
proof (induction xs arbitrary: w)
  case (Cons x xs)
  { case 1 show ?case by (simp add: Cons(1) deliver_frame(1)) }
  { case 2 show ?case by (simp add: Cons(2) deliver_frame(2)) }
  { case 3 show ?case by (simp add: Cons(3) deliver_frame(3)) }
  { case 4 then show ?case by (simp add: Cons(4) deliver_frame(4)) }
  { case 5 show ?case using Cons(5) [of "deliver env x w"] deliver_frame(5) [of w env x] by auto }
qed simp_all

text \<open>Item \<open>k\<close> of instance \<open>e\<close> is task \<open>t\<close>'s descriptor of the read end of pipe \<open>pi\<close>, held in slot \<open>i\<close>,
  and asks for input; the pipe is open at both ends and notifies that slot.\<close>

definition watches_pipe :: "fs_world \<Rightarrow> nat \<Rightarrow> nat \<Rightarrow> nat \<Rightarrow> nat \<Rightarrow> nat \<Rightarrow> bool" where
  "watches_pipe w t e k i pi \<longleftrightarrow>
     e < length (w_epolls w) \<and> ei_in_use (w_epolls w ! e) \<and> k < length (ei_items (w_epolls w ! e)) \<and>
     it_pool_idx (ei_items (w_epolls w ! e) ! k) = int i \<and> it_events (ei_items (w_epolls w ! e) ! k) AND EPOLLIN \<noteq> 0 \<and>
     task_get_fd w t (it_fd (ei_items (w_epolls w ! e) ! k)) = Some i \<and>
     \<lparr>wt_ep = e, wt_item = int k\<rparr> \<in> set (wq_of w i) \<and> o_type (w_pool w ! i) \<noteq> FDT_EPOLL \<and>
     (case w_files w (o_file (w_pool w ! i)) of
        None \<Rightarrow> False | Some f \<Rightarrow> f_kind f = VFS_FILE_PIPE \<and> \<not> f_is_write_end f \<and> f_pipe_idx f = int pi) \<and>
     pi < PIPE_MAX \<and> length (w_pipes w) = PIPE_MAX \<and> pipe_ok (w_pipes w ! pi) \<and> p_rd_pool_idx (w_pipes w ! pi) = int i \<and>
     0 < p_rd_refcount (w_pipes w ! pi) \<and> 0 < p_wr_refcount (w_pipes w ! pi)"

lemma task_get_fd_bound: "task_get_fd w t fd = Some i \<Longrightarrow> i < FD_POOL_SIZE \<and> 0 \<le> fd \<and> fd < int TASK_MAX_FD"
  by (auto simp: task_get_fd_def Let_def split: if_splits)

lemma matched_pipe:
  assumes "task_get_fd w t (it_fd it) = Some i" "o_type (w_pool w ! i) \<noteq> FDT_EPOLL" "w_files w (o_file (w_pool w ! i)) = Some f"
    and "f_kind f = VFS_FILE_PIPE" "\<not> f_is_write_end f" "f_pipe_idx f = int pi" "it_events it AND EPOLLIN \<noteq> 0"
    and "pi < PIPE_MAX" "0 < p_wr_refcount (w_pipes w ! pi)"
  shows "matched_events env w t it \<noteq> 0 \<longleftrightarrow> pipe_list (w_pipes w ! pi) \<noteq> []"
proof -
  have "fd_poll env w t (it_fd it) = (if pipe_poll_readable_endpoint (w_pipes w) (int pi) then EPOLLIN else 0)"
    using assms task_get_fd_bound [OF assms(1)] by (simp add: fd_poll_def vfs_poll_def pipe_file_poll_def)
  moreover have "pipe_poll_readable_endpoint (w_pipes w) (int pi) \<longleftrightarrow> pipe_list (w_pipes w ! pi) \<noteq> []"
    using assms(8,9) by (simp add: pipe_poll_readable_endpoint_def pipe_get_by_idx_def flip: pipe_count_pos)
  ultimately show ?thesis using assms(7) by (simp add: matched_events_def Let_def and.commute)
qed

lemma write_fills:
  assumes "pipe_ok p" "pipe_list p = []" "src \<noteq> []" "pipe_write_pass u src 0 nb p = (res, st, p', es)"
  shows "pipe_list p' \<noteq> [] \<and> Notify (p_rd_pool_idx p) EPOLLIN \<in> set es \<and> p_wr_refcount p' = p_wr_refcount p"
proof -
  obtain k q where k: "pipe_put p src = (k, q)" by (cases "pipe_put p src")
  note s = pipe_put_spec [OF assms(1) k]
  then have "pipe_list q \<noteq> []" using assms(2,3) by (cases src) auto
  moreover have "pipe_list (q\<lparr>p_blocked_reader := a\<rparr>) = pipe_list q" "pipe_list (q\<lparr>p_blocked_reader := a, p_blocked_writer := b\<rparr>) = pipe_list q" for a b
    by (simp_all add: pipe_list_def)
  ultimately show ?thesis using assms(3,4) s by (auto simp: pipe_write_pass_def k Let_def same_ends_def split: if_splits)
qed

lemma watches_cong:
  assumes "watches_pipe w t e k i pi" "ep_shape w' = ep_shape w" "w_pool w' = w_pool w" "w_files w' = w_files w" "w_tasks w' = w_tasks w"
  shows "e < length (w_epolls w') \<and> ei_in_use (w_epolls w' ! e) \<and> k < length (ei_items (w_epolls w' ! e)) \<and>
     it_pool_idx (ei_items (w_epolls w' ! e) ! k) = int i \<and> it_events (ei_items (w_epolls w' ! e) ! k) AND EPOLLIN \<noteq> 0 \<and>
     task_get_fd w' t (it_fd (ei_items (w_epolls w' ! e) ! k)) = Some i"
proof -
  have e: "e < length (w_epolls w)" "k < length (ei_items (w_epolls w ! e))" using assms(1) by (simp_all add: watches_pipe_def)
  note it = ep_shape_item [OF assms(2) e]
  have "task_get_fd w' t fd = task_get_fd w t fd" for fd using assms by (simp add: task_get_fd_def Let_def)
  then show ?thesis
    using it(1) arg_cong [OF it(2), of it_pool_idx] arg_cong [OF it(2), of it_events] arg_cong [OF it(2), of it_fd]
      ep_shape_nth(1,2) [OF assms(2)] assms(1) by (simp add: watches_pipe_def)
qed

lemma watches_matched:
  assumes "watches_pipe w t e k i pi" "ep_shape w' = ep_shape w" "w_pool w' = w_pool w" "w_files w' = w_files w" "w_tasks w' = w_tasks w"
    and "0 < p_wr_refcount (w_pipes w' ! pi)"
  shows "matched_events env w' t (ei_items (w_epolls w' ! e) ! k) \<noteq> 0 \<longleftrightarrow> pipe_list (w_pipes w' ! pi) \<noteq> []"
proof -
  obtain f where f: "w_files w (o_file (w_pool w ! i)) = Some f" "f_kind f = VFS_FILE_PIPE" "\<not> f_is_write_end f" "f_pipe_idx f = int pi"
    using assms(1) by (auto simp: watches_pipe_def split: option.splits)
  show ?thesis
    by (rule matched_pipe [where i = i and f = f])
      (use f assms watches_cong [OF assms(1-5)] in \<open>simp_all add: watches_pipe_def\<close>)
qed

lemma ep_shape_rescan: "ep_shape (epoll_rescan env t e w) = ep_shape w"
  unfolding epoll_rescan_def Let_def by (rule ep_shape_on_epoll) (simp_all add: o_def)

lemma watched_blocked:
  assumes "env_ok env" "watches_pipe w t e k i pi"
    and x: "epoll_wait_pass env t addr e n False timeout expired w = (Blocked, evs, w1)"
  shows "pipe_list (w_pipes w ! pi) = [] \<and> w1 = on_epoll e (\<lambda>x. x\<lparr>ei_blocked_task := addr\<rparr>) (epoll_rescan env t e w)"
proof -
  have e: "e < length (w_epolls w)" and k: "k < length (ei_items (w_epolls w ! e))" and wr: "0 < p_wr_refcount (w_pipes w ! pi)"
    using assms(2) by (simp_all add: watches_pipe_def)
  have p: "pending_items env t e w = []"
  proof (rule ccontr)
    assume "pending_items env t e w \<noteq> []"
    from wait_pass_pending [OF e assms(1) this x] show False by simp
  qed
  have "ei_items (w_epolls w ! e) ! k \<in> set (ei_items (w_epolls w ! e))" using k by simp
  then have "matched_events env w t (ei_items (w_epolls w ! e) ! k) = 0" using p by (auto simp: pending_items_def filter_empty_conv)
  then show ?thesis using x watches_matched [OF assms(2) _ _ _ _ wr] by (auto simp: wait_pass_nothing [OF e p] Let_def split: if_splits)
qed

lemma delivered_wakes:
  assumes "watches_pipe w t e k i pi" and v: "ep_shape v = ep_shape w" "w_pool v = w_pool w" "w_files v = w_files w" "w_tasks v = w_tasks w"
    and "kept_or_woken addr e v" "addr \<noteq> 0" "pe_blocked env addr" "Notify (int i) EPOLLIN \<in> set es"
  shows "Wake_epoll addr \<in> set (w_events (fold (deliver env) es v))"
proof -
  obtain xs ys where es: "es = xs @ Notify (int i) EPOLLIN # ys" using assms(9) by (meson split_list)
  let ?v = "fold (deliver env) xs v"
  have w: "\<lparr>wt_ep = e, wt_item = int k\<rparr> \<in> set (wq_of w i)" "i < FD_POOL_SIZE"
    using assms(1) task_get_fd_bound by (auto simp: watches_pipe_def)
  have "w_files ?v = w_files w" "w_tasks ?v = w_tasks w" using fd_core_rest [OF deliver_all_frame(2) [of env xs v]] v by simp_all
  then have c: "e < length (w_epolls ?v) \<and> ei_in_use (w_epolls ?v ! e) \<and> k < length (ei_items (w_epolls ?v ! e)) \<and>
      it_pool_idx (ei_items (w_epolls ?v ! e) ! k) = int i \<and> it_events (ei_items (w_epolls ?v ! e) ! k) AND EPOLLIN \<noteq> 0"
    using watches_cong [OF assms(1), of ?v] by (simp add: deliver_all_frame(1,3) v)
  have "Wake_epoll addr \<in> set (w_events (fd_notify_waiters env ?v (int i) EPOLLIN))"
    using c w v(2) assms(6-8)
    by (intro fd_notify_wakes [where wt = "\<lparr>wt_ep = e, wt_item = int k\<rparr>" and k = k]) (simp_all add: deliver_all_frame(1,4))
  then show ?thesis
    using deliver_all_frame(5) [of "fd_notify_waiters env ?v (int i) EPOLLIN" env ys] by (auto simp: es deliver_def)
qed

lemma watched_reports:
  assumes "env_ok env" "watches_pipe w t e k i pi" "0 < n"
    and r: "ep_shape v = ep_shape w" "w_pool v = w_pool w" "w_files v = w_files w" "w_tasks v = w_tasks w"
    and "0 < p_wr_refcount (w_pipes v ! pi)" "pipe_list (w_pipes v ! pi) \<noteq> []"
  shows "\<exists>m evs v'. 0 < m \<and> epoll_wait_pass env t addr e n False timeout expired v = (Returned m, evs, v')"
proof -
  have "matched_events env v t (ei_items (w_epolls v ! e) ! k) \<noteq> 0"
    using watches_matched [OF assms(2) r assms(8)] assms(9) by simp
  moreover have "ei_items (w_epolls v ! e) ! k \<in> set (ei_items (w_epolls v ! e))" "e < length (w_epolls v)"
    using watches_cong [OF assms(2) r] by simp_all
  ultimately have pend: "pending_items env t e v \<noteq> []" unfolding pending_items_def filter_empty_conv by blast
  obtain q evs v' where q: "epoll_wait_pass env t addr e n False timeout expired v = (q, evs, v')" by (metis prod_cases3)
  from wait_pass_pending [OF \<open>e < length (w_epolls v)\<close> assms(1) pend q]
  have "q = Returned (int (length evs)) \<and> 0 < int (length evs)" using pend assms(3) by simp
  then show ?thesis using q by blast
qed


section \<open>Examples\<close>

text \<open>The task of \<open>one_pipe\<close> watches the read end, descriptor 3, with instance 0.\<close>

definition watching :: fs_world where
  "watching =
     on_wq 0 (\<lambda>_. [\<lparr>wt_ep = 0, wt_item = 0\<rparr>])
       (on_epoll 0 (\<lambda>_. \<lparr>ei_in_use = True, ei_owner_pid = 0,
          ei_items = [\<lparr>it_fd = 3, it_pool_idx = 0, it_events = EPOLLIN, it_data = 42, it_ready = False\<rparr>], ei_ready_count = 0,
          ei_blocked_task = 0\<rparr>) one_pipe)"

lemma watching_simps:
  "length (w_pool watching) = 128" "length (w_epolls watching) = 16" "wq_of watching 0 = [\<lparr>wt_ep = 0, wt_item = 0\<rparr>]"
  "w_epolls watching ! 0 = \<lparr>ei_in_use = True, ei_owner_pid = 0,
     ei_items = [\<lparr>it_fd = 3, it_pool_idx = 0, it_events = EPOLLIN, it_data = 42, it_ready = False\<rparr>], ei_ready_count = 0, ei_blocked_task = 0\<rparr>"
  "o_type (w_pool watching ! 0) = FDT_VFS" "o_file (w_pool watching ! 0) = 0x1000"
  "w_files watching 0x1000 = Some \<lparr>f_kind = VFS_FILE_PIPE, f_flags = 0, f_refcnt = 1, f_path = '''', f_pipe_idx = 0, f_is_write_end = False\<rparr>"
  "tbl watching 0 3 = 0" "length (w_pipes watching) = 16"
  "w_pipes watching ! 0 = pipe_zero\<lparr>p_rd_refcount := 1, p_wr_refcount := 1, p_rd_pool_idx := 0, p_wr_pool_idx := 1\<rparr>"
  by (simp_all add: watching_def one_pipe_def no_epolls_def on_wq_def on_obj_def on_epoll_def Let_def nth_append)

lemma empty_pipe: "pipe_ok (w_pipes watching ! 0)" "pipe_list (w_pipes watching ! 0) = []"
  by (simp_all add: watching_simps pipe_ok_def pipe_zero_def pipe_list_def)

lemma watching_pipe: "watches_pipe watching 0 0 0 0 0"
  using empty_pipe(1) by (simp add: watches_pipe_def watching_simps task_get_fd_def pipe_zero_def)

lemma quiet_env_ok: "env_ok quiet_env" "pe_blocked quiet_env 7"
  by (simp_all add: env_ok_def quiet_env_def)

lemma watching_pending: "pending_items quiet_env 0 0 watching = []"
  using watches_matched [OF watching_pipe, of watching quiet_env] empty_pipe(2)
  by (simp add: pending_items_def watching_simps)




end
