(* ===== verification/Fd_Ops.thy ===== *)
theory Fd_Ops
  imports Epoll
begin

text \<open>
  Creating, closing, duplicating and inheriting descriptors: \<^verbatim>\<open>pipe_alloc\<close> (\<^verbatim>\<open>pipe.c\<close>),
  \<^verbatim>\<open>close\<close>, \<^verbatim>\<open>dup\<close>, \<^verbatim>\<open>fcntl\<close>, \<^verbatim>\<open>pipe2\<close> and the last part of \<^verbatim>\<open>openat\<close> (\<^verbatim>\<open>file_ops.c\<close>),
  \<^verbatim>\<open>fd_table_inherit\<close> (\<^verbatim>\<open>fd_pool.c\<close>), and the descriptor part of \<^verbatim>\<open>fork\<close>, of thread creation and
  of process exit (\<^verbatim>\<open>proc_lifecycle.c\<close>, \<^verbatim>\<open>task/exec.c\<close>). The theorems are about the reference
  counts that tie descriptor tables, slots, open files and pipe ends together.
\<close>

unbundle bit_operations_syntax

section \<open>Closing\<close>

definition fd_obj_close :: "poll_env \<Rightarrow> (u64 \<Rightarrow> fd_ops_t) \<Rightarrow> fs_world \<Rightarrow> int \<Rightarrow> fs_world" where
  "fd_obj_close env ops w idx =
     (if idx < 0 \<or> idx \<ge> int FD_POOL_SIZE then w
      else let x = w_pool w ! nat idx
           in if o_type x = FDT_FREE then w
              else if o_file x \<noteq> 0 then on_obj (nat idx) (\<lambda>x. x\<lparr>o_file := 0\<rparr>) (vfs_close w (o_file x))
              else if o_type x = FDT_EPOLL then epoll_destroy env w (o_ep_idx x)
              else if o_ops x \<noteq> 0 \<and> op_close (ops (o_ops x)) then log_events [Ops_close (o_ops x) (o_priv x)] w
              else w)"

text \<open>The three calls that close a slot, shared by \<^verbatim>\<open>close\<close> and \<^verbatim>\<open>dup\<close>.\<close>

definition close_slot :: "poll_env \<Rightarrow> (u64 \<Rightarrow> fd_ops_t) \<Rightarrow> fs_world \<Rightarrow> int \<Rightarrow> fs_world" where
  "close_slot env ops w idx = fd_pool_free (fd_obj_close env ops (fd_close_notify w idx) idx) idx"

definition close_handler :: "poll_env \<Rightarrow> (u64 \<Rightarrow> fd_ops_t) \<Rightarrow> fs_world \<Rightarrow> nat \<Rightarrow> int \<Rightarrow> int \<times> fs_world" where
  "close_handler env ops w t fd =
     (if fd < 0 \<or> fd \<ge> int TASK_MAX_FD then (- 9, w)
      else let (idx, w) = task_take_fd w t fd
           in if idx < 0 \<or> idx \<ge> int FD_POOL_SIZE then (0, w) else (0, close_slot env ops w idx))"

text \<open>One round of the loop of process exit, and the loop; \<^verbatim>\<open>exec_wrapper_close_fds\<close> leaves the upper
  bound to the functions it calls.\<close>

definition exit_close_fd :: "poll_env \<Rightarrow> (u64 \<Rightarrow> fd_ops_t) \<Rightarrow> nat \<Rightarrow> nat \<Rightarrow> fs_world \<Rightarrow> fs_world" where
  "exit_close_fd env ops t fd w =
     (let (idx, w) = task_take_fd w t (int fd)
      in if idx < 0 \<or> idx \<ge> int FD_POOL_SIZE then w else fd_pool_free (fd_obj_close env ops w idx) idx)"

definition exit_close_fds :: "poll_env \<Rightarrow> (u64 \<Rightarrow> fd_ops_t) \<Rightarrow> nat \<Rightarrow> fs_world \<Rightarrow> fs_world" where
  "exit_close_fds env ops t = fold (exit_close_fd env ops t) [0..<TASK_MAX_FD]"

definition exec_wrapper_close_fds :: "poll_env \<Rightarrow> (u64 \<Rightarrow> fd_ops_t) \<Rightarrow> nat \<Rightarrow> fs_world \<Rightarrow> fs_world" where
  "exec_wrapper_close_fds env ops t =
     fold (\<lambda>fd w. let (idx, w) = task_take_fd w t (int fd)
                  in if idx < 0 then w else fd_pool_free (fd_obj_close env ops w idx) idx) [0..<TASK_MAX_FD]"

section \<open>Creating\<close>

text \<open>The clean-up that the error paths after the slots share.\<close>

definition pipe_alloc_undo :: "fs_world \<Rightarrow> nat \<Rightarrow> int \<Rightarrow> int \<Rightarrow> fs_world" where
  "pipe_alloc_undo w pi rd_pool wr_pool =
     on_pipe pi (\<lambda>p. p\<lparr>p_rd_refcount := 0, p_wr_refcount := 0\<rparr>) (fd_pool_free (fd_pool_free w rd_pool) wr_pool)"

definition pipe_alloc_ends ::
  "((u64 \<Rightarrow> vfs_file_t option) \<Rightarrow> u64) \<Rightarrow> fs_world \<Rightarrow> nat \<Rightarrow> int \<Rightarrow> int \<Rightarrow> int \<Rightarrow> (int \<times> int) option \<times> fs_world" where
  "pipe_alloc_ends km w t pi rd_pool wr_pool =
     (let (rc, rd_vf, w) = vfs_create_pipe_file km w pi False 0
      in if rc \<noteq> 0 then (None, pipe_alloc_undo w (nat pi) rd_pool wr_pool)
      else let w = fd_obj_attach_vfs w rd_pool rd_vf;
               (rc, wr_vf, w) = vfs_create_pipe_file km w pi True 0
      in if rc \<noteq> 0 then (None, pipe_alloc_undo (vfs_discard_unopened w rd_vf) (nat pi) rd_pool wr_pool)
      else let w = fd_obj_attach_vfs w wr_pool wr_vf;
               (rd_fd, w) = task_alloc_fd w t rd_pool
      in if rd_fd < 0
         then (None, pipe_alloc_undo (vfs_discard_unopened (vfs_discard_unopened w rd_vf) wr_vf) (nat pi) rd_pool wr_pool)
      else let (wr_fd, w) = task_alloc_fd w t wr_pool
      in if wr_fd < 0
         then (None, pipe_alloc_undo (vfs_discard_unopened (vfs_discard_unopened (set_fd t (nat rd_fd) (- 1) w) rd_vf) wr_vf)
                       (nat pi) rd_pool wr_pool)
      else (Some (rd_fd, wr_fd), w))"

definition pipe_alloc ::
  "((u64 \<Rightarrow> vfs_file_t option) \<Rightarrow> u64) \<Rightarrow> fs_world \<Rightarrow> nat \<Rightarrow> (int \<times> int) option \<times> fs_world" where
  "pipe_alloc km w t =
     (let pi = pipe_slot_alloc (w_pipes w)
      in if pi < 0 then (None, w)
      else let (rd_pool, w) = fd_pool_alloc w
      in if rd_pool < 0 then (None, w)
      else let (wr_pool, w) = fd_pool_alloc w
      in if wr_pool < 0 then (None, fd_pool_free w rd_pool)
      else let w = on_pipe (nat pi) (\<lambda>_. pipe_zero\<lparr>p_rd_refcount := 1, p_wr_refcount := 1, p_rd_pool_idx := rd_pool,
                                                  p_wr_pool_idx := wr_pool\<rparr>) w
      in pipe_alloc_ends km w t pi rd_pool wr_pool)"

text \<open>The user's array of two descriptors is part of the result.\<close>

definition pipe2_handler ::
  "((u64 \<Rightarrow> vfs_file_t option) \<Rightarrow> u64) \<Rightarrow> fs_world \<Rightarrow> nat \<Rightarrow> u64 \<Rightarrow> int \<times> (int \<times> int) option \<times> fs_world" where
  "pipe2_handler km w t user_fds =
     (if user_fds = 0 then (- 14, None, w)
      else case pipe_alloc km w t of
             (None, w) \<Rightarrow> (- 24, None, w)
           | (Some fds, w) \<Rightarrow> (0, Some fds, w))"

text \<open>What \<^verbatim>\<open>openat\<close> does with the file \<open>vf\<close> that \<^verbatim>\<open>vfs_open\<close> returned.\<close>

definition openat_install :: "fs_world \<Rightarrow> nat \<Rightarrow> u64 \<Rightarrow> int \<times> fs_world" where
  "openat_install w t vf =
     (let (pool, w) = fd_pool_alloc w
      in if pool < 0 then (- 24, vfs_close w vf)
      else let w = fd_obj_attach_vfs w pool vf;
               (fd, w) = task_alloc_fd w t pool
      in if fd < 0 then (- 24, fd_pool_free (vfs_close w vf) pool) else (fd, w))"

section \<open>Duplicating\<close>

definition dup_close_old :: "poll_env \<Rightarrow> (u64 \<Rightarrow> fd_ops_t) \<Rightarrow> fs_world \<Rightarrow> nat \<Rightarrow> int \<Rightarrow> fs_world" where
  "dup_close_old env ops w t newfd =
     (let (old_idx, w) = task_take_fd w t newfd
      in if old_idx \<ge> 0 \<and> old_idx < int FD_POOL_SIZE then close_slot env ops w old_idx else w)"

text \<open>\<open>src\<close> is the slot to copy, \<open>None\<close> for the console descriptors 0 to 2.\<close>

definition dup_install :: "(u64 \<Rightarrow> fd_ops_t) \<Rightarrow> fs_world \<Rightarrow> nat \<Rightarrow> nat option \<Rightarrow> int \<Rightarrow> u32 \<Rightarrow> int \<times> fs_world" where
  "dup_install ops w t src newfd flags =
     (case src of
        None \<Rightarrow>
          let (uart_idx, w) = fd_pool_alloc w
          in if uart_idx < 0 then (- 24, w)
             else let w = on_obj (nat uart_idx) (\<lambda>x. x\<lparr>o_type := FDT_ALLOCATED, o_flags := 0, o_file := 0, o_path := []\<rparr>) w;
                      w = set_fd t (nat newfd) uart_idx w
                  in (newfd, set_cloexec_bit t (nat newfd) (flags AND 0x80000 \<noteq> 0) w)
      | Some s \<Rightarrow>
          let (new_idx, w) = fd_pool_alloc w
          in if new_idx < 0 then (- 24, w)
             else let w = on_obj (nat new_idx) (\<lambda>_. (w_pool w ! s)\<lparr>o_wq := []\<rparr>) w;
                      (rc, w) = fd_obj_ref ops w new_idx
                  in if rc \<noteq> 0 then (- 9, fd_pool_free w new_idx)
                     else let w = set_fd t (nat newfd) new_idx w
                          in (newfd, set_cloexec_bit t (nat newfd) (flags AND 0x80000 \<noteq> 0) w))"

definition dup_to_fd ::
  "poll_env \<Rightarrow> (u64 \<Rightarrow> fd_ops_t) \<Rightarrow> fs_world \<Rightarrow> nat \<Rightarrow> int \<Rightarrow> int \<Rightarrow> u32 \<Rightarrow> int \<times> fs_world" where
  "dup_to_fd env ops w t oldfd newfd flags =
     (if oldfd < 0 \<or> oldfd \<ge> int TASK_MAX_FD then (- 9, w)
      else if newfd < 0 \<or> newfd \<ge> int TASK_MAX_FD then (- 9, w)
      else let src = task_get_fd w t oldfd
      in if oldfd > 2 \<and> src = None then (- 9, w)
      else dup_install ops (dup_close_old env ops w t newfd) t src newfd flags)"

definition dup_handler :: "poll_env \<Rightarrow> (u64 \<Rightarrow> fd_ops_t) \<Rightarrow> fs_world \<Rightarrow> nat \<Rightarrow> int \<Rightarrow> int \<times> fs_world" where
  "dup_handler env ops w t oldfd =
     (if oldfd < 0 \<or> oldfd \<ge> int TASK_MAX_FD then (- 9, w)
      else if oldfd > 2 \<and> task_get_fd w t oldfd = None then (- 9, w)
      else case List.find (\<lambda>i. tbl w t i = - 1) [3..<TASK_MAX_FD] of
             Some newfd \<Rightarrow> dup_to_fd env ops w t oldfd (int newfd) 0
           | None \<Rightarrow> (- 24, w))"

definition dup3_handler ::
  "poll_env \<Rightarrow> (u64 \<Rightarrow> fd_ops_t) \<Rightarrow> fs_world \<Rightarrow> nat \<Rightarrow> int \<Rightarrow> int \<Rightarrow> u32 \<Rightarrow> int \<times> fs_world" where
  "dup3_handler env ops w t oldfd newfd flags =
     (if oldfd = newfd then (- 22, w) else dup_to_fd env ops w t oldfd newfd flags)"

text \<open>\<^verbatim>\<open>F_DUPFD\<close> and \<^verbatim>\<open>F_DUPFD_CLOEXEC\<close> of \<^verbatim>\<open>fcntl\<close>; \<open>obj\<close> is the slot of \<open>fd\<close>, if it has one.\<close>

definition fcntl_dupfd :: "(u64 \<Rightarrow> fd_ops_t) \<Rightarrow> fs_world \<Rightarrow> nat \<Rightarrow> int \<Rightarrow> nat option \<Rightarrow> int \<Rightarrow> bool \<Rightarrow> int \<times> fs_world" where
  "fcntl_dupfd ops w t fd obj arg cloexec =
     (let minfd = (if arg < 0 then 0 else arg);
          fds = [nat (if minfd < 3 then 3 else minfd)..<TASK_MAX_FD]
      in case obj of
        None \<Rightarrow>
          if fd > 2 then (- 9, w)
          else (case List.find (\<lambda>i. tbl w t i = - 1) fds of
                  None \<Rightarrow> (- 24, w)
                | Some nf \<Rightarrow>
                    let (uart_idx, w) = fd_pool_alloc w
                    in if uart_idx < 0 then (- 24, w)
                       else let w = on_obj (nat uart_idx) (\<lambda>x. x\<lparr>o_type := FDT_ALLOCATED, o_flags := 0, o_file := 0, o_path := []\<rparr>) w
                            in (int nf, set_cloexec_bit t nf cloexec (set_fd t nf uart_idx w)))
      | Some s \<Rightarrow>
          let (new_idx, w) = fd_pool_alloc w
          in if new_idx < 0 then (- 24, w)
             else let w = on_obj (nat new_idx) (\<lambda>_. (w_pool w ! s)\<lparr>o_wq := []\<rparr>) w;
                      w = snd (fd_obj_ref ops w new_idx)
                  in case List.find (\<lambda>i. tbl w t i = - 1) fds of
                       Some nf \<Rightarrow> (int nf, set_cloexec_bit t nf cloexec (set_fd t nf new_idx w))
                     | None \<Rightarrow> (- 24, fd_pool_free w new_idx))"

definition fcntl_handler :: "(u64 \<Rightarrow> fd_ops_t) \<Rightarrow> fs_world \<Rightarrow> nat \<Rightarrow> int \<Rightarrow> int \<Rightarrow> int \<Rightarrow> int \<times> fs_world" where
  "fcntl_handler ops w t fd cmd arg =
     (if fd < 0 \<or> fd \<ge> int TASK_MAX_FD then (- 9, w)
      else let obj = task_get_fd w t fd
      in if obj = None \<and> fd \<ge> 3 then (- 9, w)
      else if cmd = 1
      then (if drop_bit (nat fd mod 8) (k_fd_cloexec (w_tasks w t) ! (nat fd div 8)) AND 1 \<noteq> 0 then 1 else 0, w)
      else if cmd = 2 then (0, set_cloexec_bit t (nat fd) (arg AND 1 \<noteq> 0) w)
      else if cmd = 3 then (case obj of Some i \<Rightarrow> o_flags (w_pool w ! i) | None \<Rightarrow> 0, w)
      else if cmd = 4
      then (case obj of
              None \<Rightarrow> (0, w)
            | Some i \<Rightarrow>
                let fl = (o_flags (w_pool w ! i) AND NOT 0x2C00) OR (arg AND 0x2C00);
                    w = on_obj i (\<lambda>x. x\<lparr>o_flags := fl\<rparr>) w;
                    a = o_file (w_pool w ! i)
                in (0, if a \<noteq> 0 then w\<lparr>w_files := (w_files w)(a := map_option (\<lambda>f. f\<lparr>f_flags := fl\<rparr>) (w_files w a))\<rparr> else w))
      else if cmd = 0 then fcntl_dupfd ops w t fd obj arg False
      else if cmd = 1030 then fcntl_dupfd ops w t fd obj arg True
      else (0, w))"

section \<open>New tasks\<close>

definition init_fd_table :: "nat \<Rightarrow> fs_world \<Rightarrow> fs_world" where
  "init_fd_table t = on_task t (\<lambda>k. k\<lparr>k_fd_table := replicate TASK_MAX_FD (- 1), k_fd_cloexec := replicate 32 0\<rparr>)"

definition inherit_fd :: "(u64 \<Rightarrow> fd_ops_t) \<Rightarrow> nat \<Rightarrow> nat \<Rightarrow> nat \<Rightarrow> fs_world \<Rightarrow> fs_world" where
  "inherit_fd ops child parent fd w =
     (if drop_bit (fd mod 8) (k_fd_cloexec (w_tasks w parent) ! (fd div 8)) AND 1 \<noteq> 0 then set_fd child fd (- 1) w
      else let pidx = tbl w parent fd
      in if pidx < 0 \<or> pidx \<ge> int FD_POOL_SIZE then set_fd child fd (- 1) w
      else let src = w_pool w ! nat pidx
      in if o_type src = FDT_FREE \<or> o_type src = FDT_EPOLL then set_fd child fd (- 1) w
      else let (new_idx, w) = fd_pool_alloc w
      in if new_idx < 0 then set_fd child fd (- 1) w
      else let w = on_obj (nat new_idx) (\<lambda>_. (w_pool w ! nat pidx)\<lparr>o_wq := []\<rparr>) w;
               (rc, w) = fd_obj_ref ops w new_idx
      in if rc \<noteq> 0 then set_fd child fd (- 1) (fd_pool_free w new_idx)
      else set_fd child fd new_idx w)"

definition fd_table_inherit :: "(u64 \<Rightarrow> fd_ops_t) \<Rightarrow> nat \<Rightarrow> nat \<Rightarrow> fs_world \<Rightarrow> fs_world" where
  "fd_table_inherit ops child parent w =
     (if \<not> k_is_user_process (w_tasks w parent)
      then fold (\<lambda>fd. set_fd child fd (- 1)) [0..<TASK_MAX_FD] w
      else fold (inherit_fd ops child parent) [0..<TASK_MAX_FD] w)"

definition fork_fd :: "(u64 \<Rightarrow> fd_ops_t) \<Rightarrow> nat \<Rightarrow> nat \<Rightarrow> nat \<Rightarrow> fs_world \<Rightarrow> fs_world" where
  "fork_fd ops child parent fd w =
     (let pidx = tbl w parent fd
      in if pidx < 0 \<or> pidx \<ge> int FD_POOL_SIZE then set_fd child fd (- 1) w
      else if o_type (w_pool w ! nat pidx) = FDT_FREE then set_fd child fd (- 1) w
      else let (new_idx, w) = fd_pool_alloc w
      in if new_idx < 0 then set_fd child fd (- 1) w
      else let w = on_obj (nat new_idx) (\<lambda>_. (w_pool w ! nat pidx)\<lparr>o_wq := []\<rparr>) w
      in set_fd child fd new_idx (snd (fd_obj_ref ops w new_idx)))"

definition fork_fds :: "(u64 \<Rightarrow> fd_ops_t) \<Rightarrow> nat \<Rightarrow> nat \<Rightarrow> fs_world \<Rightarrow> fs_world" where
  "fork_fds ops child parent w =
     (let w = fold (fork_fd ops child parent) [0..<TASK_MAX_FD] w
      in on_task child (\<lambda>k. k\<lparr>k_fd_cloexec := k_fd_cloexec (w_tasks w parent)\<rparr>) w)"

definition clone_thread_fds :: "nat \<Rightarrow> nat \<Rightarrow> fs_world \<Rightarrow> fs_world" where
  "clone_thread_fds child parent w =
     on_task child (\<lambda>k. k\<lparr>k_fd_table := k_fd_table (w_tasks w parent), k_fd_cloexec := k_fd_cloexec (w_tasks w parent)\<rparr>) w"

section \<open>The invariant\<close>

text \<open>
  During an operation a slot may be allocated and not yet in a table, a reference may be held by
  the operation itself, and a pipe may be under construction: \<open>H\<close> are the slots held by the running
  operation, \<open>X a\<close> the references to file \<open>a\<close> it holds (negative: owes), \<open>P\<close> the pipes exempt.
\<close>

text \<open>The descriptors that name a slot.\<close>

definition owners :: "fs_world \<Rightarrow> nat \<Rightarrow> (nat \<times> nat) set" where
  "owners w i = {(t, fd). fd < TASK_MAX_FD \<and> tbl w t fd = int i}"

definition slot_ok :: "bool \<Rightarrow> (nat \<times> nat) set \<Rightarrow> fd_obj_t \<Rightarrow> bool" where
  "slot_ok held S x \<longleftrightarrow> (\<exists>y. S \<subseteq> {y}) \<and> (o_type x \<noteq> FDT_FREE \<longleftrightarrow> held \<or> S \<noteq> {}) \<and> (held \<longrightarrow> S = {}) \<and>
     (o_type x = FDT_FREE \<longrightarrow> o_file x = 0)"

definition slots_ok :: "nat set \<Rightarrow> fs_world \<Rightarrow> bool" where
  "slots_ok H w \<longleftrightarrow>
     length (w_pool w) = FD_POOL_SIZE \<and> (\<forall>t. length (k_fd_table (w_tasks w t)) = TASK_MAX_FD) \<and>
     (\<forall>t. \<forall>fd < TASK_MAX_FD. - 1 \<le> tbl w t fd \<and> tbl w t fd < int FD_POOL_SIZE) \<and>
     H \<subseteq> {..<FD_POOL_SIZE} \<and> (\<forall>i < FD_POOL_SIZE. slot_ok (i \<in> H) (owners w i) (w_pool w ! i))"

definition slot_refs :: "fs_world \<Rightarrow> u64 \<Rightarrow> nat" where
  "slot_refs w a = length (filter (\<lambda>x. o_file x = a) (w_pool w))"

definition ref_ok :: "vfs_file_t option \<Rightarrow> nat \<Rightarrow> int \<Rightarrow> bool" where
  "ref_ok file n x =
     (case file of
        None \<Rightarrow> n = 0 \<and> x = 0
      | Some f \<Rightarrow> int (unat (f_refcnt f)) = int n + x \<and> 0 < f_refcnt f)"

definition refs_ok :: "(u64 \<Rightarrow> int) \<Rightarrow> fs_world \<Rightarrow> bool" where
  "refs_ok X w \<longleftrightarrow> w_files w 0 = None \<and> (\<forall>a. a \<noteq> 0 \<longrightarrow> ref_ok (w_files w a) (slot_refs w a) (X a))"

definition is_end :: "fs_world \<Rightarrow> nat \<Rightarrow> bool \<Rightarrow> u64 \<Rightarrow> bool" where
  "is_end w pi b a \<longleftrightarrow>
     (case w_files w a of
        None \<Rightarrow> False | Some f \<Rightarrow> f_kind f = VFS_FILE_PIPE \<and> f_pipe_idx f = int pi \<and> f_is_write_end f = b)"

definition end_files :: "fs_world \<Rightarrow> nat \<Rightarrow> bool \<Rightarrow> u64 set" where
  "end_files w pi b = {a. is_end w pi b a}"

definition end_count :: "pipe_t \<Rightarrow> bool \<Rightarrow> int" where
  "end_count p b = (if b then p_wr_refcount p else p_rd_refcount p)"

definition end_ok :: "int \<Rightarrow> u64 set \<Rightarrow> bool" where
  "end_ok n S \<longleftrightarrow> n = of_bool (S \<noteq> {}) \<and> (\<exists>a. S \<subseteq> {a})"

definition pipe_file_range :: "vfs_file_t option \<Rightarrow> bool" where
  "pipe_file_range file =
     (case file of None \<Rightarrow> True | Some f \<Rightarrow> f_kind f = VFS_FILE_PIPE \<longrightarrow> 0 \<le> f_pipe_idx f \<and> f_pipe_idx f < int PIPE_MAX)"

definition ends_ok :: "nat set \<Rightarrow> fs_world \<Rightarrow> bool" where
  "ends_ok P w \<longleftrightarrow> length (w_pipes w) = PIPE_MAX \<and> (\<forall>a. pipe_file_range (w_files w a)) \<and>
     (\<forall>pi < PIPE_MAX. pi \<notin> P \<longrightarrow> (\<forall>b. end_ok (end_count (w_pipes w ! pi) b) (end_files w pi b)))"

definition fd_inv :: "fs_world \<Rightarrow> bool" where
  "fd_inv w \<longleftrightarrow> slots_ok {} w \<and> refs_ok (\<lambda>_. 0) w \<and> ends_ok {} w"

subsection \<open>What epoll and the events leave alone\<close>

lemma slot_refs_core:
  assumes "fd_core w' = fd_core w" shows "slot_refs w' a = slot_refs w a"
proof -
  have "slot_refs v a = length (filter (\<lambda>x. o_file x = a) (fst (fd_core v)))" for v
    by (simp add: slot_refs_def fd_core_def filter_map o_def)
  then show ?thesis using assms by simp
qed

lemma slots_core_imp:
  assumes "fd_core w' = fd_core w" "slots_ok H w" shows "slots_ok H w'"
proof -
  have "length (w_pool w) = FD_POOL_SIZE" using assms(2) by (simp add: slots_ok_def)
  then have "i < FD_POOL_SIZE \<Longrightarrow> slot_ok h S (w_pool w' ! i) = slot_ok h S (w_pool w ! i)" for i h S
    using fd_core_obj(1,2) [OF assms(1)] by (simp add: slot_ok_def)
  moreover have "owners w' = owners w" using fd_core_rest(3) [OF assms(1)] by (simp add: owners_def fun_eq_iff)
  ultimately show ?thesis using assms(2) fd_core_pool(1) [OF assms(1)] fd_core_rest(3) [OF assms(1)] by (simp add: slots_ok_def)
qed

lemma slots_core: "fd_core w' = fd_core w \<Longrightarrow> slots_ok H w' = slots_ok H w"
  using slots_core_imp [of w' w H] slots_core_imp [of w w' H] by metis

lemma refs_core: "fd_core w' = fd_core w \<Longrightarrow> refs_ok X w' = refs_ok X w"
  using slot_refs_core [of w' w] fd_core_rest(2) [of w' w] by (simp add: refs_ok_def)

lemma ends_core: "fd_core w' = fd_core w \<Longrightarrow> ends_ok P w' = ends_ok P w"
  using fd_core_rest(1,2) [of w' w] by (simp add: ends_ok_def end_files_def is_end_def)

lemma fd_inv_core: "fd_core w' = fd_core w \<Longrightarrow> fd_inv w' = fd_inv w"
  unfolding fd_inv_def using slots_core [of w' w] refs_core [of w' w] ends_core [of w' w] by blast

subsection \<open>Tables and slots\<close>

lemma slots_len:
  assumes "slots_ok H w"
  shows "length (w_pool w) = FD_POOL_SIZE" "length (k_fd_table (w_tasks w t)) = TASK_MAX_FD" "i \<in> H \<Longrightarrow> i < FD_POOL_SIZE"
  using assms by (auto simp: slots_ok_def)

lemma slots_slot: "slots_ok H w \<Longrightarrow> i < FD_POOL_SIZE \<Longrightarrow> slot_ok (i \<in> H) (owners w i) (w_pool w ! i)"
  by (simp add: slots_ok_def)

lemma slots_held:
  assumes "slots_ok H w" "i \<in> H"
  shows "o_type (w_pool w ! i) \<noteq> FDT_FREE" "owners w i = {}"
  using slots_slot [OF assms(1) slots_len(3) [OF assms]] assms(2) by (simp_all add: slot_ok_def)

lemma on_obj_nth: "length (w_pool w) = FD_POOL_SIZE \<Longrightarrow> i < FD_POOL_SIZE \<Longrightarrow>
  w_pool (on_obj i f w) ! j = (if j = i then f (w_pool w ! i) else w_pool w ! j)"
  by (simp add: on_obj_def)

lemma on_obj_rest [simp]: "w_tasks (on_obj i f w) = w_tasks w" "w_files (on_obj i f w) = w_files w" "w_pipes (on_obj i f w) = w_pipes w"
  "length (w_pool (on_obj i f w)) = length (w_pool w)"
  by (simp_all add: on_obj_def)

lemma set_fd_rest [simp]: "w_files (set_fd t fd i w) = w_files w" "w_pipes (set_fd t fd i w) = w_pipes w"
  by (simp_all add: set_fd_def on_task_def)

lemma set_fd_tbl: "length (k_fd_table (w_tasks w t)) = TASK_MAX_FD \<Longrightarrow> fd < TASK_MAX_FD \<Longrightarrow>
  tbl (set_fd t fd i w) t' fd' = (if t' = t \<and> fd' = fd then i else tbl w t' fd')"
  by (simp add: set_fd_def on_task_def)

lemma set_fd_len: "length (k_fd_table (w_tasks (set_fd t fd i w) t')) = length (k_fd_table (w_tasks w t'))"
  by (simp add: set_fd_def on_task_def)

lemma owners_on_obj [simp]: "owners (on_obj i f w) = owners w"
  by (simp add: owners_def fun_eq_iff)

text \<open>A change at slot \<open>i\<close> that leaves the tables alone.\<close>

lemma slots_change:
  assumes "slots_ok H w" "i < FD_POOL_SIZE" "H' - {i} = H - {i}" "slot_ok (i \<in> H') (owners w i) (f (w_pool w ! i))"
  shows "slots_ok H' (on_obj i f w)"
proof -
  have "slot_ok (j \<in> H') (owners w j) (w_pool (on_obj i f w) ! j)" if "j < FD_POOL_SIZE" for j
  proof (cases "j = i")
    case False
    then have "j \<in> H' \<longleftrightarrow> j \<in> H" using assms(3) by blast
    then show ?thesis using False that assms(1,2) slots_len(1) [OF assms(1)] slots_slot by (simp add: on_obj_nth)
  qed (use assms slots_len(1) [OF assms(1)] in \<open>simp add: on_obj_nth\<close>)
  moreover have "H' \<subseteq> {..<FD_POOL_SIZE}" using assms(1-3) unfolding slots_ok_def by blast
  ultimately show ?thesis using assms(1) by (simp add: slots_ok_def)
qed

lemma slots_on_obj:
  "slots_ok H w \<Longrightarrow> i \<in> H \<Longrightarrow> o_type (f (w_pool w ! i)) \<noteq> FDT_FREE \<Longrightarrow> slots_ok H (on_obj i f w)"
  using slots_held [of H w i] by (intro slots_change) (auto simp: slot_ok_def dest: slots_len(3))

lemma slots_alloc:
  assumes "slots_ok H w" "i < FD_POOL_SIZE" "o_type (w_pool w ! i) = FDT_FREE" "o_type (f (w_pool w ! i)) \<noteq> FDT_FREE"
  shows "slots_ok (insert i H) (on_obj i f w)" "i \<notin> H"
proof -
  have "owners w i = {} \<and> i \<notin> H" using slots_slot [OF assms(1,2)] assms(3) by (auto simp: slot_ok_def)
  then show "slots_ok (insert i H) (on_obj i f w)" "i \<notin> H"
    using assms by (auto simp: slot_ok_def intro!: slots_change [OF assms(1,2)])
qed

lemma slots_free:
  assumes "slots_ok H w" "i \<in> H" "o_type (f (w_pool w ! i)) = FDT_FREE" "o_file (f (w_pool w ! i)) = 0"
  shows "slots_ok (H - {i}) (on_obj i f w)"
  using assms slots_held [OF assms(1,2)] slots_len(3) [OF assms(1,2)] by (intro slots_change [OF assms(1)]) (auto simp: slot_ok_def)

lemma owners_set_fd:
  assumes "slots_ok H w" "fd < TASK_MAX_FD"
  shows "owners (set_fd t fd k w) j = (if k = int j then insert (t, fd) (owners w j) else owners w j - {(t, fd)})"
  using assms(2) slots_len(2) [OF assms(1), of t] by (auto simp: owners_def set_fd_tbl)

text \<open>A change of one table entry.\<close>

lemma slots_set:
  assumes "slots_ok H w" "fd < TASK_MAX_FD" "- 1 \<le> k" "k < int FD_POOL_SIZE" "H' \<subseteq> {..<FD_POOL_SIZE}"
    and "\<And>i. i < FD_POOL_SIZE \<Longrightarrow>
      slot_ok (i \<in> H') (if k = int i then insert (t, fd) (owners w i) else owners w i - {(t, fd)}) (w_pool w ! i)"
  shows "slots_ok H' (set_fd t fd k w)"
  using assms slots_len(2) [OF assms(1), of t] unfolding slots_ok_def
  by (simp add: owners_set_fd [OF assms(1,2)] set_fd_len set_fd_tbl)

lemma slots_set_fd:
  assumes "slots_ok H w" "i \<in> H" "fd < TASK_MAX_FD" "tbl w t fd = - 1"
  shows "slots_ok (H - {i}) (set_fd t fd (int i) w)"
proof (rule slots_set [OF assms(1,3)])
  have n: "(t, fd) \<notin> owners w j" for j using assms(4) by (simp add: owners_def)
  show "slot_ok (j \<in> H - {i}) (if int i = int j then insert (t, fd) (owners w j) else owners w j - {(t, fd)}) (w_pool w ! j)"
    if "j < FD_POOL_SIZE" for j
    using slots_slot [OF assms(1) that] assms(2) n [of j] slots_held [OF assms(1,2)] by (cases "j = i") (auto simp: slot_ok_def)
qed (use assms slots_len(3) [OF assms(1,2)] in \<open>auto dest: slots_len(3)\<close>)

lemma slots_take_fd:
  assumes "slots_ok H w" "fd < TASK_MAX_FD" "tbl w t fd = int i"
  shows "slots_ok (insert i H) (set_fd t fd (- 1) w)" "i < FD_POOL_SIZE" "i \<notin> H"
proof -
  have o: "(t, fd) \<in> owners w j \<longleftrightarrow> j = i" for j using assms(2,3) by (auto simp: owners_def)
  show i: "i < FD_POOL_SIZE" using assms unfolding slots_ok_def by (metis of_nat_less_iff)
  then show "i \<notin> H" using slots_held(2) [OF assms(1), of i] o [of i] by blast
  show "slots_ok (insert i H) (set_fd t fd (- 1) w)"
  proof (rule slots_set [OF assms(1,2)])
    show "slot_ok (j \<in> insert i H) (if - 1 = int j then insert (t, fd) (owners w j) else owners w j - {(t, fd)}) (w_pool w ! j)"
      if "j < FD_POOL_SIZE" for j
      using slots_slot [OF assms(1) that] o [of j] by (cases "j = i") (auto simp: slot_ok_def)
  qed (use i in \<open>auto dest: slots_len(3) [OF assms(1)]\<close>)
qed

lemma slots_clear_fd:
  assumes "slots_ok H w" "fd < TASK_MAX_FD" "tbl w t fd = - 1"
  shows "slots_ok H (set_fd t fd (- 1) w)"
proof (rule slots_set [OF assms(1,2)])
  have n: "(t, fd) \<notin> owners w j" for j using assms(3) by (simp add: owners_def)
  show "slot_ok (j \<in> H) (if - 1 = int j then insert (t, fd) (owners w j) else owners w j - {(t, fd)}) (w_pool w ! j)"
    if "j < FD_POOL_SIZE" for j using slots_slot [OF assms(1) that] n [of j] by simp
qed (auto dest: slots_len(3) [OF assms(1)])

subsection \<open>References\<close>

lemma slot_refs_on_obj:
  assumes "length (w_pool w) = FD_POOL_SIZE" "i < FD_POOL_SIZE"
  shows "slot_refs (on_obj i f w) a + of_bool (o_file (w_pool w ! i) = a) = slot_refs w a + of_bool (o_file (f (w_pool w ! i)) = a)"
  using ready_update [of i "w_pool w" "\<lambda>x. o_file x = a" "f (w_pool w ! i)"] assms by (simp add: slot_refs_def on_obj_def)

lemma refs_live: "refs_ok X w \<Longrightarrow> slot_refs w a \<noteq> 0 \<Longrightarrow> a \<noteq> 0 \<Longrightarrow> w_files w a \<noteq> None"
  by (auto simp: refs_ok_def ref_ok_def split: option.splits)

lemma refs_move:
  assumes "refs_ok X w" "length (w_pool w) = FD_POOL_SIZE" "i < FD_POOL_SIZE"
    and "o_file (f (w_pool w ! i)) = 0 \<or> w_files w (o_file (f (w_pool w ! i))) \<noteq> None"
  shows "refs_ok (\<lambda>a. X a + of_bool (o_file (w_pool w ! i) = a) - of_bool (o_file (f (w_pool w ! i)) = a)) (on_obj i f w)"
  unfolding refs_ok_def
proof (intro conjI allI impI)
  fix a :: u64 assume a: "a \<noteq> 0"
  have r: "ref_ok (w_files w a) (slot_refs w a) (X a)" using assms(1) a by (simp add: refs_ok_def)
  note s = slot_refs_on_obj [OF assms(2,3), of f a]
  show "ref_ok (w_files (on_obj i f w) a) (slot_refs (on_obj i f w) a)
     (X a + of_bool (o_file (w_pool w ! i) = a) - of_bool (o_file (f (w_pool w ! i)) = a))"
  proof (cases "w_files w a")
    case None
    then have "o_file (f (w_pool w ! i)) \<noteq> a" using assms(4) a by auto
    then show ?thesis using r s None by (cases "o_file (w_pool w ! i) = a") (auto simp: ref_ok_def)
  next
    case (Some g)
    have "int (slot_refs (on_obj i f w) a) + of_bool (o_file (w_pool w ! i) = a) =
        int (slot_refs w a) + of_bool (o_file (f (w_pool w ! i)) = a)"
      using arg_cong [OF s, of int] by simp
    then show ?thesis using r Some by (simp add: ref_ok_def)
  qed
qed (use assms(1) in \<open>simp add: refs_ok_def\<close>)

lemma refs_obj:
  assumes "refs_ok X w" "length (w_pool w) = FD_POOL_SIZE" "i < FD_POOL_SIZE"
    and "o_file (f (w_pool w ! i)) = 0 \<or> w_files w (o_file (f (w_pool w ! i))) \<noteq> None"
    and "\<And>a. a \<noteq> 0 \<Longrightarrow> Y a = X a + of_bool (o_file (w_pool w ! i) = a) - of_bool (o_file (f (w_pool w ! i)) = a)"
  shows "refs_ok Y (on_obj i f w)"
proof -
  from refs_move [of X w i f, OF assms(1-4)] show ?thesis unfolding refs_ok_def using assms(5) by simp
qed

lemma refs_file:
  assumes "refs_ok X w" "w_pool w' = w_pool w" "w_files w' = (w_files w)(a := fo)" "a \<noteq> 0" "ref_ok fo (slot_refs w a) x"
  shows "refs_ok (X(a := x)) w'"
  using assms by (auto simp: refs_ok_def slot_refs_def)

lemma refs_cong: "refs_ok X w \<Longrightarrow> w_pool w' = w_pool w \<Longrightarrow> w_files w' = w_files w \<Longrightarrow> refs_ok X w'"
  by (simp add: refs_ok_def slot_refs_def)

lemma refs_ext: "refs_ok X w \<Longrightarrow> (\<And>a. a \<noteq> 0 \<Longrightarrow> X a = Y a) \<Longrightarrow> refs_ok Y w"
  by (simp add: refs_ok_def)

lemma slot_refs_le: "slots_ok H w \<Longrightarrow> slot_refs w a \<le> FD_POOL_SIZE"
  using length_filter_le [of "\<lambda>x. o_file x = a" "w_pool w"] slots_len(1) [of H w] by (simp add: slot_refs_def)

lemma refs_vfs_ref:
  assumes "refs_ok X w" "slots_ok H w" "a \<noteq> 0" "w_files w a \<noteq> None" "X a \<le> 0"
  shows "refs_ok (X(a := X a + 1)) (vfs_ref w a)"
proof -
  obtain f where f: "w_files w a = Some f" using assms(4) by blast
  have r: "int (unat (f_refcnt f)) = int (slot_refs w a) + X a" using assms(1,3) f by (auto simp: refs_ok_def ref_ok_def)
  then have "unat (f_refcnt f) \<le> 128" using slot_refs_le [OF assms(2), of a] assms(5) by linarith
  then have u: "unat (f_refcnt f + 1) = unat (f_refcnt f) + 1" by (intro unat_inc32) simp
  then have "0 < f_refcnt f + 1" by (simp add: word_less_nat_alt)
  then show ?thesis using r u f assms(3)
    by (intro refs_file [OF assms(1), where fo = "Some (f\<lparr>f_refcnt := f_refcnt f + 1\<rparr>)"]) (simp_all add: vfs_ref_def ref_ok_def)
qed

subsection \<open>Pipe ends\<close>

lemma ends_cong: "ends_ok P w \<Longrightarrow> w_pipes w' = w_pipes w \<Longrightarrow> w_files w' = w_files w \<Longrightarrow> ends_ok P w'"
  by (simp add: ends_ok_def end_files_def is_end_def)

lemma end_files_upd:
  "w_files w' = (w_files w)(a := fo) \<Longrightarrow> end_files w' pi b =
   (if (case fo of None \<Rightarrow> False | Some f \<Rightarrow> f_kind f = VFS_FILE_PIPE \<and> f_pipe_idx f = int pi \<and> f_is_write_end f = b)
    then insert a (end_files w pi b) else end_files w pi b - {a})"
  by (auto simp: end_files_def is_end_def split: option.splits if_splits)

lemma in_end_files [simp]: "a \<in> end_files w pi b \<longleftrightarrow> is_end w pi b a"
  by (simp add: end_files_def)

lemma end_files_None: "w_files w' = (w_files w)(a := None) \<Longrightarrow> end_files w' pi b = end_files w pi b - {a}"
  by (simp add: end_files_upd)

text \<open>A file changes without changing the end it stands for.\<close>

lemma ends_same_file:
  assumes "ends_ok P w" "w_pipes w' = w_pipes w" "w_files w a = Some f" "w_files w' = (w_files w)(a \<mapsto> g)"
    and "f_kind g = f_kind f" "f_pipe_idx g = f_pipe_idx f" "f_is_write_end g = f_is_write_end f"
  shows "ends_ok P w'"
proof -
  have "end_files w' pi b = end_files w pi b" for pi b
    using assms(3,5-7) by (simp add: end_files_def is_end_def assms(4) if_distrib cong: if_cong) (rule Collect_cong, auto)
  moreover have "pipe_file_range (w_files w' c)" for c
  proof -
    have "pipe_file_range (w_files w a)" "pipe_file_range (w_files w c)" using assms(1) by (simp_all add: ends_ok_def)
    then show ?thesis using assms(3-7) by (simp add: pipe_file_range_def)
  qed
  ultimately show ?thesis using assms(1,2) by (simp add: ends_ok_def)
qed

lemma ends_vfs_ref: "ends_ok P w \<Longrightarrow> ends_ok P (vfs_ref w a)"
proof (cases "w_files w a")
  case None
  assume "ends_ok P w"
  then show ?thesis using None by (rule_tac ends_cong) (simp_all add: vfs_ref_def fun_upd_idem)
next
  case (Some f)
  assume e: "ends_ok P w"
  then show ?thesis using Some
    by (cases "a = 0") (simp add: vfs_ref_def,
      rule ends_same_file [OF e, where a = a and f = f and g = "f\<lparr>f_refcnt := f_refcnt f + 1\<rparr>"], simp_all add: vfs_ref_def)
qed

lemma ends_drop_other:
  assumes "ends_ok P w" "w_pipes w' = w_pipes w" "w_files w' = (w_files w)(a := None)" "\<And>pi b. pi \<notin> P \<Longrightarrow> \<not> is_end w pi b a"
  shows "ends_ok P w'"
proof -
  have "end_files w' pi b = end_files w pi b" if "pi \<notin> P" for pi b
    using assms(4) [OF that, of b] by (simp add: end_files_None [OF assms(3)])
  then show ?thesis using assms(1-3) by (simp add: ends_ok_def pipe_file_range_def)
qed

lemma end_count_close:
  assumes "end_count p b = 1"
  shows "end_count (fst (pipe_close p b)) c = (if c = b then 0 else end_count p c)"
  using assms by (auto simp: end_count_def pipe_close_def split: if_splits)

lemma ends_close_pipe:
  assumes "ends_ok {} w" "w_files w a = Some f" "f_kind f = VFS_FILE_PIPE" "w_pipes w' = fst (pipe_close_endpoint (w_pipes w) (f_pipe_idx f) (f_is_write_end f))"
    and "w_files w' = (w_files w)(a := None)"
  shows "ends_ok {} w'"
proof -
  have "pipe_file_range (w_files w a)" using assms(1) by (simp add: ends_ok_def)
  then obtain pi where pi: "f_pipe_idx f = int pi" "pi < PIPE_MAX"
    using assms(2,3) by (auto simp: pipe_file_range_def) (metis nat_less_iff nonneg_int_cases of_nat_numeral)
  define b where "b = f_is_write_end f"
  have a: "is_end w pj c a \<longleftrightarrow> pj = pi \<and> c = b" for pj c using assms(2,3) pi by (auto simp: is_end_def b_def)
  have "end_ok (end_count (w_pipes w ! pi) b) (end_files w pi b)" using assms(1) pi by (simp add: ends_ok_def)
  then have e: "end_files w pi b = {a}" "end_count (w_pipes w ! pi) b = 1" using a [of pi b] in_end_files [of a w pi b] by (auto simp: end_ok_def simp del: in_end_files)
  then have "pipe_get_by_idx (w_pipes w) (int pi) = Some (w_pipes w ! pi)"
    using pi by (auto simp: pipe_get_by_idx_def Let_def end_count_def split: if_splits)
  then have p: "w_pipes w' = (w_pipes w)[pi := fst (pipe_close (w_pipes w ! pi) b)]"
    using assms(4) pi by (simp add: pipe_close_endpoint_def b_def split: prod.splits)
  have f: "end_files w' pj c = (if pj = pi \<and> c = b then {} else end_files w pj c)" for pj c
    using a [of pj c] e(1) by (auto simp: end_files_None [OF assms(5)])
  have "end_ok (end_count (w_pipes w' ! pj) c) (end_files w' pj c)" if "pj < PIPE_MAX" for pj c
  proof -
    have "length (w_pipes w) = PIPE_MAX" and o: "end_ok (end_count (w_pipes w ! pj) c) (end_files w pj c)"
      using assms(1) that by (simp_all add: ends_ok_def)
    then have "end_count (w_pipes w' ! pj) c = (if pj = pi \<and> c = b then 0 else end_count (w_pipes w ! pj) c)"
      using pi(2) by (cases "pj = pi") (simp_all add: p end_count_close [OF e(2)])
    then show ?thesis using o by (simp add: f end_ok_def)
  qed
  then show ?thesis using assms(1,5) p by (simp add: ends_ok_def pipe_file_range_def)
qed

lemma vfs_close_frame [simp]:
  "w_pool (vfs_close w a) = w_pool w" "w_tasks (vfs_close w a) = w_tasks w"
  by (simp_all add: vfs_close_def pipe_file_close_def log_events_def Let_def split: option.split prod.split)

lemma vfs_close_inv:
  assumes "refs_ok X w" "ends_ok {} w" "a \<noteq> 0" "w_files w a \<noteq> None" "1 \<le> X a"
  shows "refs_ok (X(a := X a - 1)) (vfs_close w a) \<and> ends_ok {} (vfs_close w a)"
proof -
  obtain f where f: "w_files w a = Some f" using assms(4) by blast
  have r: "int (unat (f_refcnt f)) = int (slot_refs w a) + X a" "0 < f_refcnt f" using assms(1,3) f by (auto simp: refs_ok_def ref_ok_def)
  have u: "unat (f_refcnt f - 1) = unat (f_refcnt f) - 1" "0 < unat (f_refcnt f)" using r(2) unat_dec32 [of "f_refcnt f"] by (simp_all add: unat_gt_0)
  show ?thesis
  proof (cases "f_refcnt f - 1 > 0")
    case True
    let ?g = "f\<lparr>f_refcnt := f_refcnt f - 1\<rparr>"
    have w': "vfs_close w a = w\<lparr>w_files := (w_files w)(a \<mapsto> ?g)\<rparr>" using True f by (simp add: vfs_close_def)
    have "int (unat (f_refcnt f - 1)) = int (slot_refs w a) + (X a - 1)" using u r by linarith
    then have "refs_ok (X(a := X a - 1)) (vfs_close w a)"
      unfolding w' using True assms(3) by (intro refs_file [OF assms(1), where fo = "Some ?g"]) (simp_all add: ref_ok_def)
    moreover have "ends_ok {} (vfs_close w a)"
      unfolding w' by (rule ends_same_file [OF assms(2), where a = a and f = f and g = ?g]) (simp_all add: f)
    ultimately show ?thesis ..
  next
    case False
    then have "unat (f_refcnt f) = 1" using u by (simp add: word_less_nat_alt)
    then have x: "slot_refs w a = 0 \<and> X a = 1" using r assms(5) by linarith
    have w': "w_files (vfs_close w a) = (w_files w)(a := None)"
      "w_pipes (vfs_close w a) = (if f_kind f = VFS_FILE_PIPE then fst (pipe_close_endpoint (w_pipes w) (f_pipe_idx f) (f_is_write_end f)) else w_pipes w)"
      using False f by (simp_all add: vfs_close_def Let_def pipe_file_close_def log_events_def split: prod.split)
    have "refs_ok (X(a := X a - 1)) (vfs_close w a)"
      using x assms(3) by (intro refs_file [OF assms(1), where fo = None]) (simp_all add: ref_ok_def w')
    moreover have "ends_ok {} (vfs_close w a)"
    proof (cases "f_kind f = VFS_FILE_PIPE")
      case True
      then show ?thesis using w' by (intro ends_close_pipe [OF assms(2) f]) simp_all
    next
      case False
      then have "\<not> is_end w pi b a" for pi b by (simp add: is_end_def f)
      then show ?thesis using w' False by (intro ends_drop_other [OF assms(2)]) simp_all
    qed
    ultimately show ?thesis ..
  qed
qed

section \<open>Operations keep the invariant\<close>

definition fd_ok :: "nat set \<Rightarrow> (u64 \<Rightarrow> int) \<Rightarrow> nat set \<Rightarrow> fs_world \<Rightarrow> bool" where
  "fd_ok H X P w \<longleftrightarrow> slots_ok H w \<and> refs_ok X w \<and> ends_ok P w"

abbreviation no_refs :: "u64 \<Rightarrow> int" where
  "no_refs \<equiv> \<lambda>_. 0"

lemma fd_inv_ok: "fd_inv w = fd_ok {} no_refs {} w"
  by (simp add: fd_inv_def fd_ok_def)

lemma fd_ok_core: "fd_core w' = fd_core w \<Longrightarrow> fd_ok H X P w' = fd_ok H X P w"
  unfolding fd_ok_def using slots_core [of w' w] refs_core [of w' w] ends_core [of w' w] by blast

lemma fd_ok_ext: "fd_ok H X P w \<Longrightarrow> (\<And>a. a \<noteq> 0 \<Longrightarrow> X a = Y a) \<Longrightarrow> fd_ok H Y P w"
  unfolding fd_ok_def using refs_ext by blast

lemma fd_ok_obj:
  assumes "fd_ok H X P w" "i \<in> H" "o_type (f (w_pool w ! i)) \<noteq> FDT_FREE"
    and "o_file (f (w_pool w ! i)) = 0 \<or> w_files w (o_file (f (w_pool w ! i))) \<noteq> None"
    and "\<And>a. a \<noteq> 0 \<Longrightarrow> Y a = X a + of_bool (o_file (w_pool w ! i) = a) - of_bool (o_file (f (w_pool w ! i)) = a)"
  shows "fd_ok H Y P (on_obj i f w)"
proof -
  have s: "slots_ok H w" "refs_ok X w" "ends_ok P w" using assms(1) by (simp_all add: fd_ok_def)
  have "ends_ok P (on_obj i f w)" using s(3) by (rule ends_cong) simp_all
  moreover have "refs_ok Y (on_obj i f w)"
    using s assms slots_len(1) [OF s(1)] slots_len(3) [OF s(1) assms(2)] by (intro refs_obj [OF s(2)]) simp_all
  ultimately show ?thesis using slots_on_obj [of H w i f] s(1) assms(2,3) by (simp add: fd_ok_def)
qed

lemma fd_pool_alloc_ok:
  assumes "fd_ok H X P w" "fd_pool_alloc w = (r, w')"
  shows "r = - 1 \<and> w' = w \<or>
    (\<exists>i < FD_POOL_SIZE. r = int i \<and> i \<notin> H \<and> o_type (w_pool w ! i) = FDT_FREE \<and>
       w' = on_obj i (\<lambda>x. x\<lparr>o_type := FDT_ALLOCATED, o_file := 0\<rparr>) w \<and> fd_ok (insert i H) X P w' \<and> o_file (w_pool w' ! i) = 0)"
proof (cases "List.find (\<lambda>i. o_type (w_pool w ! i) = FDT_FREE) [0..<FD_POOL_SIZE]")
  case None
  then show ?thesis using assms(2) by (simp add: fd_pool_alloc_def del: upt_rec_numeral)
next
  case (Some i)
  let ?f = "\<lambda>x. x\<lparr>o_type := FDT_ALLOCATED, o_file := 0\<rparr>"
  have i: "i < FD_POOL_SIZE" "o_type (w_pool w ! i) = FDT_FREE" using Some by (auto simp: find_Some_iff simp del: upt_rec_numeral)
  have w': "r = int i" "w' = on_obj i ?f w" using assms(2) Some by (simp_all add: fd_pool_alloc_def del: upt_rec_numeral)
  have s: "slots_ok H w" "refs_ok X w" "ends_ok P w" using assms(1) by (simp_all add: fd_ok_def)
  have "o_file (w_pool w ! i) = 0" using slots_slot [OF s(1) i(1)] i(2) by (simp add: slot_ok_def)
  then have "refs_ok X (on_obj i ?f w)"
    using slots_len(1) [OF s(1)] i(1) by (intro refs_obj [OF s(2)]) auto
  moreover have "ends_ok P (on_obj i ?f w)" using s(3) by (rule ends_cong) simp_all
  moreover note slots_alloc [OF s(1) i, of ?f]
  ultimately show ?thesis using i w' slots_len(1) [OF s(1)] by (auto simp: fd_ok_def on_obj_nth)
qed

lemma fd_pool_free_ok:
  assumes "fd_ok H X P w" "i \<in> H" "\<And>a. a \<noteq> 0 \<Longrightarrow> Y a = X a + of_bool (o_file (w_pool w ! i) = a)"
  shows "fd_ok (H - {i}) Y P (fd_pool_free w (int i))"
proof -
  let ?f = "\<lambda>x. x\<lparr>o_wq := [], o_file := 0, o_ops := 0, o_priv := 0, o_type := FDT_FREE\<rparr>"
  have s: "slots_ok H w" "refs_ok X w" "ends_ok P w" using assms(1) by (simp_all add: fd_ok_def)
  have i: "i < FD_POOL_SIZE" by (rule slots_len(3) [OF s(1) assms(2)])
  then have w': "fd_pool_free w (int i) = on_obj i ?f w" by (simp add: fd_pool_free_def)
  have "refs_ok Y (on_obj i ?f w)" using slots_len(1) [OF s(1)] i assms(3) by (intro refs_obj [OF s(2)]) auto
  moreover have "ends_ok P (on_obj i ?f w)" using s(3) by (rule ends_cong) simp_all
  ultimately show ?thesis using slots_free [OF s(1) assms(2), of ?f] by (simp add: fd_ok_def w')
qed

lemma vfs_close_on_obj: "vfs_close (on_obj i f w) a = on_obj i f (vfs_close w a)"
  by (simp add: vfs_close_def on_obj_def pipe_file_close_def log_events_def Let_def split: option.split prod.split)

lemma slot_refs_pos: "length (w_pool w) = FD_POOL_SIZE \<Longrightarrow> i < FD_POOL_SIZE \<Longrightarrow> slot_refs w (o_file (w_pool w ! i)) \<noteq> 0"
  by (auto simp: slot_refs_def filter_empty_conv)

lemma slot_file_live:
  assumes "fd_ok H X P w" "i < FD_POOL_SIZE" "o_file (w_pool w ! i) \<noteq> 0"
  shows "w_files w (o_file (w_pool w ! i)) \<noteq> None"
  using assms slot_refs_pos [of w i] slots_len(1) [of H w] by (auto simp: fd_ok_def dest: refs_live)

lemma fd_obj_close_ok:
  assumes "fd_ok H no_refs {} w" "i \<in> H"
  shows "fd_ok H no_refs {} (fd_obj_close env ops w (int i)) \<and> o_file (w_pool (fd_obj_close env ops w (int i)) ! i) = 0 \<and>
    w_tasks (fd_obj_close env ops w (int i)) = w_tasks w"
proof -
  have s: "slots_ok H w" using assms(1) by (simp add: fd_ok_def)
  have i: "i < FD_POOL_SIZE" by (rule slots_len(3) [OF s assms(2)])
  have t: "o_type (w_pool w ! i) \<noteq> FDT_FREE" by (rule slots_held(1) [OF s assms(2)])
  let ?a = "o_file (w_pool w ! i)" and ?f = "\<lambda>x. x\<lparr>o_file := 0\<rparr>"
  show ?thesis
  proof (cases "?a = 0")
    case False
    have w': "fd_obj_close env ops w (int i) = vfs_close (on_obj i ?f w) ?a"
      using False i t by (simp add: fd_obj_close_def vfs_close_on_obj)
    have ok: "fd_ok H (\<lambda>a. of_bool (?a = a)) {} (on_obj i ?f w)"
      using t by (intro fd_ok_obj [OF assms]) auto
    have live: "w_files w ?a \<noteq> None" by (rule slot_file_live [OF assms(1) i False])
    have "refs_ok (\<lambda>a. of_bool (?a = a)) (on_obj i ?f w)" "ends_ok {} (on_obj i ?f w)" using ok by (simp_all add: fd_ok_def)
    from vfs_close_inv [OF this False] live
    have "refs_ok no_refs (vfs_close (on_obj i ?f w) ?a)" "ends_ok {} (vfs_close (on_obj i ?f w) ?a)"
      by (simp_all, elim conjE refs_ext) auto
    moreover have "slots_ok H (vfs_close (on_obj i ?f w) ?a)"
      using ok unfolding fd_ok_def slots_ok_def by (simp add: owners_def)
    ultimately show ?thesis using w' slots_len(1) [OF s] i by (simp add: fd_ok_def on_obj_nth)
  next
    case True
    let ?w = "fd_obj_close env ops w (int i)"
    have c: "fd_core ?w = fd_core w" using True i t by (simp add: fd_obj_close_def Let_def)
    show ?thesis using fd_ok_core [OF c] assms(1) fd_core_obj(2) [OF c] fd_core_rest(3) [OF c] slots_len(1) [OF s] i True by simp
  qed
qed

lemma close_ok:
  assumes "fd_ok H no_refs {} w" "i \<in> H"
  shows "fd_ok (H - {i}) no_refs {} (fd_pool_free (fd_obj_close env ops w (int i)) (int i))"
  using fd_obj_close_ok [OF assms, of env ops] assms(2) by (intro fd_pool_free_ok [where X = no_refs]) auto

lemma close_slot_ok:
  assumes "fd_ok H no_refs {} w" "i \<in> H"
  shows "fd_ok (H - {i}) no_refs {} (close_slot env ops w (int i))"
  unfolding close_slot_def using fd_ok_core [OF fd_core_close_notify] assms by (intro close_ok) simp_all

lemma take_fd_ok:
  assumes "fd_ok H X P w" "fd < TASK_MAX_FD" "task_take_fd w t (int fd) = (idx, w')"
  shows "idx = tbl w t fd \<and> w' = set_fd t fd (- 1) w \<and>
    (idx = - 1 \<and> fd_ok H X P w' \<or> (\<exists>i < FD_POOL_SIZE. idx = int i \<and> i \<notin> H \<and> fd_ok (insert i H) X P w'))"
proof -
  have s: "slots_ok H w" "refs_ok X w" "ends_ok P w" using assms(1) by (simp_all add: fd_ok_def)
  have w': "idx = tbl w t fd" "w' = set_fd t fd (- 1) w" using assms(2,3) by (simp_all add: task_take_fd_def)
  have r: "refs_ok X w'" "ends_ok P w'" using s w' by (auto intro: refs_cong ends_cong)
  have "- 1 \<le> tbl w t fd" using s(1) assms(2) by (simp add: slots_ok_def)
  then consider "tbl w t fd = - 1" | i where "tbl w t fd = int i"
    by (cases "tbl w t fd = - 1") (auto intro: that(2) [of "nat (tbl w t fd)"])
  then show ?thesis
  proof cases
    case 1
    then show ?thesis using slots_clear_fd [OF s(1) assms(2)] r w' by (simp add: fd_ok_def)
  next
    case (2 i)
    then show ?thesis using slots_take_fd [OF s(1) assms(2) 2] r w' by (auto simp: fd_ok_def)
  qed
qed

lemma set_fd_ok:
  assumes "fd_ok H X P w" "i \<in> H" "fd < TASK_MAX_FD" "tbl w t fd = - 1"
  shows "fd_ok (H - {i}) X P (set_fd t fd (int i) w)"
  using assms slots_set_fd [of H w i fd t] by (auto simp: fd_ok_def intro: refs_cong ends_cong)

lemma clear_fd_ok:
  assumes "fd_ok H X P w" "fd < TASK_MAX_FD" "tbl w t fd = - 1"
  shows "fd_ok H X P (set_fd t fd (- 1) w)"
  using assms slots_clear_fd [of H w fd t] by (auto simp: fd_ok_def intro: refs_cong ends_cong)

lemma cloexec_frame [simp]:
  "k_fd_table (w_tasks (set_cloexec_bit t fd b w) t') = k_fd_table (w_tasks w t')"
  "w_files (set_cloexec_bit t fd b w) = w_files w" "w_pipes (set_cloexec_bit t fd b w) = w_pipes w"
  by (simp_all add: set_cloexec_bit_def on_task_def Let_def)

lemma slots_table_cong:
  assumes "slots_ok H w" "w_pool w' = w_pool w" "\<And>t. k_fd_table (w_tasks w' t) = k_fd_table (w_tasks w t)"
  shows "slots_ok H w'"
  using assms unfolding slots_ok_def owners_def by simp

lemma cloexec_ok [simp]: "fd_ok H X P w \<Longrightarrow> fd_ok H X P (set_cloexec_bit t fd b w)"
  unfolding fd_ok_def by (auto intro: slots_table_cong refs_cong ends_cong)

lemma task_alloc_fd_ok:
  assumes "fd_ok H X P w" "i \<in> H" "task_alloc_fd w t (int i) = (r, w')"
  shows "r = - 1 \<and> w' = w \<or>
    (\<exists>fd < TASK_MAX_FD. r = int fd \<and> tbl w t fd = - 1 \<and> w' = set_fd t fd (int i) w \<and> fd_ok (H - {i}) X P w')"
proof (cases "List.find (\<lambda>i. tbl w t i = - 1) [3..<TASK_MAX_FD]")
  case None
  then show ?thesis using assms(3) by (simp add: task_alloc_fd_def del: upt_rec_numeral)
next
  case (Some fd)
  then have fd: "fd < TASK_MAX_FD" "tbl w t fd = - 1" by (auto simp: find_Some_iff nth_upt simp del: upt_rec_numeral)
  have "r = int fd" "w' = set_fd t fd (int i) w" using assms(3) Some by (simp_all add: task_alloc_fd_def del: upt_rec_numeral)
  then show ?thesis using set_fd_ok [OF assms(1,2) fd] fd by blast
qed

text \<open>Copying a slot and taking a reference for the copy.\<close>

lemma fd_obj_ref_core: "o_file (w_pool w ! nat i) = 0 \<Longrightarrow> fd_core (snd (fd_obj_ref ops w i)) = fd_core w"
  by (simp add: fd_obj_ref_def Let_def split: option.split)

lemma copy_slot_ok:
  assumes "fd_ok H no_refs P w" "j \<in> H" "o_file (w_pool w ! j) = 0" "s < FD_POOL_SIZE" "o_type (w_pool w ! s) \<noteq> FDT_FREE"
    and "fd_obj_ref ops (on_obj j (\<lambda>_. (w_pool w ! s)\<lparr>o_wq := []\<rparr>) w) (int j) = (rc, w')"
  shows "fd_ok H no_refs P w' \<and> (rc \<noteq> 0 \<longrightarrow> o_file (w_pool w' ! j) = 0) \<and> w_tasks w' = w_tasks w"
proof -
  let ?a = "o_file (w_pool w ! s)" and ?w = "on_obj j (\<lambda>_. (w_pool w ! s)\<lparr>o_wq := []\<rparr>) w"
  have sl: "slots_ok H w" using assms(1) by (simp add: fd_ok_def)
  have j: "j < FD_POOL_SIZE" "length (w_pool w) = FD_POOL_SIZE" using slots_len [OF sl] assms(2) by auto
  have x: "w_pool ?w ! j = (w_pool w ! s)\<lparr>o_wq := []\<rparr>" using j by (simp add: on_obj_nth)
  have live: "?a \<noteq> 0 \<Longrightarrow> w_files w ?a \<noteq> None" using slot_file_live [OF assms(1,4)] .
  have ok: "fd_ok H (\<lambda>a. - of_bool (?a = a)) P ?w"
    using assms(3,5) live by (intro fd_ok_obj [OF assms(1,2)]) auto
  show ?thesis
  proof (cases "?a = 0")
    case True
    have c: "fd_core w' = fd_core ?w" using fd_obj_ref_core [of ?w "int j" ops] x True assms(6) by simp
    have "fd_ok H no_refs P ?w" using ok by (rule fd_ok_ext) (simp add: True)
    then show ?thesis using fd_ok_core [OF c] fd_core_obj(2) [OF c, of j] fd_core_rest(3) [OF c] x j True by simp
  next
    case False
    have w': "rc = 0" "w' = vfs_ref ?w ?a" using assms(5,6) False j by (auto simp: fd_obj_ref_def x split: if_splits)
    have s': "slots_ok H ?w" "refs_ok (\<lambda>a. - of_bool (?a = a)) ?w" "ends_ok P ?w" using ok by (simp_all add: fd_ok_def)
    have "refs_ok ((\<lambda>a. - of_bool (?a = a))(?a := - of_bool (?a = ?a) + 1)) (vfs_ref ?w ?a)"
      using live False by (intro refs_vfs_ref [OF s'(2,1)]) simp_all
    then have "refs_ok no_refs (vfs_ref ?w ?a)" by (rule refs_ext) auto
    moreover have "slots_ok H (vfs_ref ?w ?a)" using s'(1) by (rule slots_table_cong) (simp_all add: vfs_ref_def)
    ultimately show ?thesis using w' ends_vfs_ref [OF s'(3)] by (simp add: fd_ok_def vfs_ref_def)
  qed
qed

lemma fd_ok_tbl: "fd_ok H X P w \<Longrightarrow> fd < TASK_MAX_FD \<Longrightarrow> tbl w t fd = - 1 \<or> (\<exists>i < FD_POOL_SIZE. tbl w t fd = int i)"
  using take_fd_ok [of H X P w fd t] by (cases "task_take_fd w t (int fd)") auto

lemma set_fd_other: "(t', fd') \<noteq> (t, fd) \<Longrightarrow> tbl (set_fd t fd i w) t' fd' = tbl w t' fd'"
  by (auto simp: set_fd_def on_task_def)

lemma set_fd_same: "fd_ok H X P w \<Longrightarrow> fd < TASK_MAX_FD \<Longrightarrow> tbl (set_fd t fd i w) t fd = i"
  using slots_len(2) [of H w t] by (simp add: set_fd_tbl fd_ok_def)

lemma close_handler_ok:
  assumes "fd_inv w" shows "fd_inv (snd (close_handler env ops w t fd))"
proof (cases "fd < 0 \<or> fd \<ge> int TASK_MAX_FD")
  case False
  then obtain n where n: "fd = int n" "n < TASK_MAX_FD" by (cases fd) auto
  obtain idx w' where w': "task_take_fd w t (int n) = (idx, w')" by (cases "task_take_fd w t (int n)")
  from take_fd_ok [OF assms [unfolded fd_inv_ok] n(2) w'] show ?thesis
    using close_slot_ok [of "{nat idx}" w' "nat idx" env ops] False
    by (auto simp: close_handler_def n(1) w' fd_inv_ok split: if_splits)
qed (use assms in \<open>simp add: close_handler_def\<close>)

lemma exit_close_fd_ok:
  assumes "fd_inv w" "n < TASK_MAX_FD" shows "fd_inv (exit_close_fd env ops t n w)"
proof -
  obtain idx w' where w': "task_take_fd w t (int n) = (idx, w')" by (cases "task_take_fd w t (int n)")
  from take_fd_ok [OF assms(1) [unfolded fd_inv_ok] assms(2) w'] show ?thesis
    using close_ok [of "{nat idx}" w' "nat idx" env ops] by (auto simp: exit_close_fd_def w' fd_inv_ok)
qed

lemma exit_close_fds_ok: "fd_inv w \<Longrightarrow> fd_inv (exit_close_fds env ops t w)"
  unfolding exit_close_fds_def
  by (rule fold_invariant [where Q = "\<lambda>fd. fd < TASK_MAX_FD" and P = fd_inv]) (auto intro: exit_close_fd_ok)

text \<open>\<open>exec_wrapper_close_fds\<close> leaves out the upper bound, which makes no difference on a valid table.\<close>

lemma exec_close_eq:
  assumes "fd_inv w" shows "exec_wrapper_close_fds env ops t w = exit_close_fds env ops t w"
proof -
  let ?f = "\<lambda>fd w. let (idx, w) = task_take_fd w t (int fd) in if idx < 0 then w else fd_pool_free (fd_obj_close env ops w idx) idx"
  have step: "?f n v = exit_close_fd env ops t n v" if "fd_inv v" "n < TASK_MAX_FD" for n v
  proof -
    obtain idx v' where v': "task_take_fd v t (int n) = (idx, v')" by (cases "task_take_fd v t (int n)")
    from take_fd_ok [OF that(1) [unfolded fd_inv_ok] that(2) v'] show ?thesis by (auto simp: exit_close_fd_def v')
  qed
  have "fold ?f ns v = fold (exit_close_fd env ops t) ns v" if "fd_inv v" "\<forall>n \<in> set ns. n < TASK_MAX_FD" for ns v
    using that
  proof (induction ns arbitrary: v)
    case (Cons n ns)
    then show ?case using step [of v n] exit_close_fd_ok [of v n env ops t] by simp
  qed simp
  then show ?thesis using assms unfolding exec_wrapper_close_fds_def exit_close_fds_def by simp
qed

lemma task_alloc_buffer_fd_ok:
  assumes "fd_inv w" "ty \<noteq> FDT_FREE" shows "fd_inv (snd (task_alloc_buffer_fd ty path w t h ops priv))"
proof -
  obtain r w1 where 1: "fd_pool_alloc w = (r, w1)" by (cases "fd_pool_alloc w")
  from fd_pool_alloc_ok [OF assms(1) [unfolded fd_inv_ok] 1] show ?thesis
  proof (elim disjE exE conjE)
    fix i assume i: "r = int i" "fd_ok {i} no_refs {} w1" "o_file (w_pool w1 ! i) = 0"
    let ?w = "on_obj i (\<lambda>x. x\<lparr>o_type := ty, o_flags := 0, o_ops := ops, o_priv := priv, o_handle := h, o_path := path\<rparr>) w1"
    have ok: "fd_ok {i} no_refs {} ?w" using i(3) assms(2) by (intro fd_ok_obj [OF i(2)]) simp_all
    have z: "o_file (w_pool ?w ! i) = 0"
      using i slots_len [of "{i}" w1] by (simp add: fd_ok_def on_obj_nth)
    obtain fd w2 where 2: "task_alloc_fd ?w t (int i) = (fd, w2)" by (cases "task_alloc_fd ?w t (int i)")
    have f: "fd_ok {} no_refs {} (fd_pool_free ?w (int i))" using fd_pool_free_ok [OF ok, of i no_refs] z by simp
    from task_alloc_fd_ok [OF ok _ 2] f show ?thesis
      by (auto simp: task_alloc_buffer_fd_def 1 i(1) 2 fd_inv_ok Let_def)
  qed (use assms 1 in \<open>simp add: task_alloc_buffer_fd_def\<close>)
qed

text \<open>The descriptor of an epoll instance.\<close>

lemma epoll_create1_fd_ok:
  assumes "fd_inv w" shows "fd_inv (snd (epoll_create1_handler w t flags))"
proof -
  obtain e w0 where 0: "epoll_instance_alloc w = (e, w0)" by (cases "epoll_instance_alloc w")
  have c: "fd_core w0 = fd_core w" using 0 by (auto simp: epoll_instance_alloc_def split: option.splits)
  have w0: "fd_ok {} no_refs {} w0" using assms fd_inv_core [OF c] by (simp add: fd_inv_ok)
  obtain r w1 where 1: "fd_pool_alloc w0 = (r, w1)" by (cases "fd_pool_alloc w0")
  from fd_pool_alloc_ok [OF w0 1] show ?thesis
  proof (elim disjE exE conjE)
    fix i assume i: "r = int i" "fd_ok {i} no_refs {} w1" "o_file (w_pool w1 ! i) = 0"
    let ?w = "on_obj i (\<lambda>x. x\<lparr>o_type := FDT_EPOLL, o_flags := 0, o_ep_idx := e, o_path := [], o_wq := []\<rparr>) w1"
    have ok: "fd_ok {i} no_refs {} ?w" using i(3) by (intro fd_ok_obj [OF i(2)]) simp_all
    have z: "o_file (w_pool ?w ! i) = 0"
      using i slots_len [of "{i}" w1] by (simp add: fd_ok_def on_obj_nth)
    obtain fd w2 where 2: "task_alloc_fd ?w t (int i) = (fd, w2)" by (cases "task_alloc_fd ?w t (int i)")
    have f: "fd_ok {} no_refs {} (fd_pool_free ?w (int i))" using fd_pool_free_ok [OF ok, of i no_refs] z by simp
    from task_alloc_fd_ok [OF ok _ 2] f assms w0 show ?thesis
      by (auto simp: epoll_create1_handler_def 0 1 i(1) 2 fd_inv_ok Let_def fd_ok_core [OF fd_core_epoll(3)] fd_ok_core [OF fd_core_basic(1)])
  qed (use assms w0 0 1 in \<open>simp add: epoll_create1_handler_def fd_inv_ok Let_def fd_ok_core [OF fd_core_epoll(3)]\<close>)
qed

lemma named_slot_used:
  assumes "fd_ok H X P w" "fd < TASK_MAX_FD" "tbl w t fd = int s"
  shows "s < FD_POOL_SIZE \<and> o_type (w_pool w ! s) \<noteq> FDT_FREE"
proof -
  have s: "slots_ok H w" using assms(1) by (simp add: fd_ok_def)
  have "s < FD_POOL_SIZE" by (rule slots_take_fd(2) [OF s assms(2,3)])
  moreover have "(t, fd) \<in> owners w s" using assms(2,3) by (simp add: owners_def)
  ultimately show ?thesis using slots_slot [OF s, of s] by (auto simp: slot_ok_def)
qed

lemma task_get_fd_ok:
  assumes "fd_ok H X P w" "fd < TASK_MAX_FD"
  shows "task_get_fd w t (int fd) = (if tbl w t fd = - 1 then None else Some (nat (tbl w t fd)))"
  using fd_ok_tbl [OF assms, of t] named_slot_used [OF assms, of t] assms(2) by (auto simp: task_get_fd_def)

lemma alloc_copy_ok:
  assumes "fd_ok {} no_refs {} w" "s < FD_POOL_SIZE" "o_type (w_pool w ! s) \<noteq> FDT_FREE" "fd_pool_alloc w = (r, w1)" "\<not> r < 0"
    and "fd_obj_ref ops (on_obj (nat r) (\<lambda>_. (w_pool w1 ! s)\<lparr>o_wq := []\<rparr>) w1) r = (rc, w2)"
  shows "fd_ok {nat r} no_refs {} w2 \<and> r = int (nat r) \<and> w_tasks w2 = w_tasks w \<and> (rc \<noteq> 0 \<longrightarrow> fd_ok {} no_refs {} (fd_pool_free w2 r))"
proof -
  from fd_pool_alloc_ok [OF assms(1,4)] assms(5) obtain j where j: "j < FD_POOL_SIZE" "r = int j" "o_type (w_pool w ! j) = FDT_FREE"
    "w1 = on_obj j (\<lambda>x. x\<lparr>o_type := FDT_ALLOCATED, o_file := 0\<rparr>) w" "fd_ok {j} no_refs {} w1" "o_file (w_pool w1 ! j) = 0"
    by auto
  have "length (w_pool w) = FD_POOL_SIZE" using assms(1) slots_len by (auto simp: fd_ok_def)
  then have "o_type (w_pool w1 ! s) \<noteq> FDT_FREE" using j assms(3) by (auto simp: on_obj_nth)
  from copy_slot_ok [OF j(5) _ j(6) assms(2) this] assms(6) j(2)
  have c: "fd_ok {j} no_refs {} w2" "rc \<noteq> 0 \<longrightarrow> o_file (w_pool w2 ! j) = 0" "w_tasks w2 = w_tasks w1" by auto
  have "fd_ok {} no_refs {} (fd_pool_free w2 (int j))" if "rc \<noteq> 0"
    using fd_pool_free_ok [OF c(1), of j no_refs] c(2) that by simp
  then show ?thesis using c j(2,4) by simp
qed

lemma tasks_obj_close [simp]: "w_tasks (fd_obj_close env ops w i) = w_tasks w"
  using fd_core_rest(3) [OF fd_core_destroy] fd_core_rest(3) [OF fd_core_basic(2)] by (simp add: fd_obj_close_def Let_def)

lemma tasks_pool_free [simp]: "w_tasks (fd_pool_free w i) = w_tasks w"
  by (simp add: fd_pool_free_def)

lemma tasks_close_slot [simp]: "w_tasks (close_slot env ops w i) = w_tasks w"
  using fd_core_rest(3) [OF fd_core_close_notify] by (simp add: close_slot_def)

lemma dup_close_old_ok:
  assumes "fd_inv w" "n < TASK_MAX_FD" and w2: "w2 = dup_close_old env ops w t (int n)"
  shows "fd_ok {} no_refs {} w2" "tbl w2 t n = - 1" "m \<noteq> n \<Longrightarrow> tbl w2 t m = tbl w t m"
proof -
  obtain idx w1 where 1: "task_take_fd w t (int n) = (idx, w1)" by (cases "task_take_fd w t (int n)")
  note a = take_fd_ok [OF assms(1) [unfolded fd_inv_ok] assms(2) 1]
  then show "fd_ok {} no_refs {} w2" using close_slot_ok [of "{nat idx}" w1 "nat idx" env ops] w2 by (auto simp: dup_close_old_def 1)
  have "w_tasks w2 = w_tasks w1" using w2 by (simp add: dup_close_old_def 1)
  then show "tbl w2 t n = - 1" "m \<noteq> n \<Longrightarrow> tbl w2 t m = tbl w t m"
    using a set_fd_same [OF assms(1) [unfolded fd_inv_ok] assms(2)] by (simp_all add: set_fd_other)
qed

lemma uart_slot_ok:
  assumes "fd_ok {} no_refs {} w" "n < TASK_MAX_FD" "tbl w t n = - 1" "fd_pool_alloc w = (r, w1)" "\<not> r < 0"
  shows "fd_ok {} no_refs {} (set_fd t n r (on_obj (nat r) (\<lambda>x. x\<lparr>o_type := FDT_ALLOCATED, o_flags := 0, o_file := 0, o_path := []\<rparr>) w1))"
proof -
  from fd_pool_alloc_ok [OF assms(1,4)] assms(5) obtain j where j: "r = int j"
    "w1 = on_obj j (\<lambda>x. x\<lparr>o_type := FDT_ALLOCATED, o_file := 0\<rparr>) w" "fd_ok {j} no_refs {} w1" "o_file (w_pool w1 ! j) = 0" by auto
  have "fd_ok {j} no_refs {} (on_obj j (\<lambda>x. x\<lparr>o_type := FDT_ALLOCATED, o_flags := 0, o_file := 0, o_path := []\<rparr>) w1)"
    using j(4) by (intro fd_ok_obj [OF j(3)]) simp_all
  from set_fd_ok [OF this, of j n t] show ?thesis using assms(2,3) j(1,2) by simp
qed

lemma dup_install_ok:
  assumes "fd_ok {} no_refs {} w" "n < TASK_MAX_FD" "tbl w t n = - 1"
    and "\<And>s. src = Some s \<Longrightarrow> s < FD_POOL_SIZE \<and> o_type (w_pool w ! s) \<noteq> FDT_FREE"
  shows "fd_ok {} no_refs {} (snd (dup_install ops w t src (int n) flags))"
proof -
  obtain r w3 where 3: "fd_pool_alloc w = (r, w3)" by (cases "fd_pool_alloc w")
  have f: "r < 0 \<Longrightarrow> fd_ok {} no_refs {} w3" using fd_pool_alloc_ok [OF assms(1) 3] assms(1) by auto
  show ?thesis
  proof (cases src)
    case None
    then show ?thesis using f uart_slot_ok [OF assms(1-3) 3] by (simp add: dup_install_def 3 Let_def)
  next
    case (Some s)
    obtain rc w4 where 4: "fd_obj_ref ops (on_obj (nat r) (\<lambda>_. (w_pool w3 ! s)\<lparr>o_wq := []\<rparr>) w3) r = (rc, w4)"
      by (meson surj_pair)
    have "fd_ok {} no_refs {} (set_fd t n r w4)" "rc \<noteq> 0 \<longrightarrow> fd_ok {} no_refs {} (fd_pool_free w4 r)" if "\<not> r < 0"
      using alloc_copy_ok [OF assms(1) _ _ 3 that 4] assms(4) [OF Some] set_fd_ok [of "{nat r}" no_refs "{}" w4 "nat r" n t] assms(2,3)
      by auto
    then show ?thesis using f Some by (simp add: dup_install_def 3 4 Let_def)
  qed
qed

lemma dup_to_fd_ok:
  assumes "fd_inv w" "oldfd \<noteq> newfd"
  shows "fd_inv (snd (dup_to_fd env ops w t oldfd newfd flags))"
proof (cases "oldfd < 0 \<or> oldfd \<ge> int TASK_MAX_FD \<or> newfd < 0 \<or> newfd \<ge> int TASK_MAX_FD \<or> oldfd > 2 \<and> task_get_fd w t oldfd = None")
  case False
  then obtain m n where mn: "oldfd = int m" "m < TASK_MAX_FD" "newfd = int n" "n < TASK_MAX_FD" by (cases oldfd; cases newfd) auto
  define w2 where "w2 = dup_close_old env ops w t (int n)"
  note w2 = dup_close_old_ok [OF assms(1) mn(4) w2_def]
  have "s < FD_POOL_SIZE \<and> o_type (w_pool w2 ! s) \<noteq> FDT_FREE" if "task_get_fd w t oldfd = Some s" for s
  proof (rule named_slot_used [OF w2(1) mn(2)])
    show "tbl w2 t m = int s"
      using that w2(3) [of m] task_get_fd_ok [OF assms(1) [unfolded fd_inv_ok] mn(2), of t] assms(2) mn
        fd_ok_tbl [OF assms(1) [unfolded fd_inv_ok] mn(2), of t] by (auto split: if_splits)
  qed
  from dup_install_ok [OF w2(1) mn(4) w2(2) this] have "fd_inv (snd (dup_install ops w2 t (task_get_fd w t oldfd) newfd flags))"
    by (simp add: fd_inv_ok mn(3))
  then show ?thesis using False unfolding dup_to_fd_def Let_def w2_def mn(3) by auto
qed (use assms in \<open>auto simp: dup_to_fd_def\<close>)

lemma dup3_handler_ok: "fd_inv w \<Longrightarrow> fd_inv (snd (dup3_handler env ops w t oldfd newfd flags))"
  by (simp add: dup3_handler_def dup_to_fd_ok)

lemma dup_handler_ok:
  assumes "fd_inv w" shows "fd_inv (snd (dup_handler env ops w t oldfd))"
proof (cases "oldfd < 0 \<or> oldfd \<ge> int TASK_MAX_FD \<or> oldfd > 2 \<and> task_get_fd w t oldfd = None")
  case False
  show ?thesis
  proof (cases "List.find (\<lambda>i. tbl w t i = - 1) [3..<TASK_MAX_FD]")
    case (Some n)
    then have n: "3 \<le> n" "n < TASK_MAX_FD" "tbl w t n = - 1" by (auto simp: find_Some_iff nth_upt simp del: upt_rec_numeral)
    then have "oldfd \<noteq> int n" using False task_get_fd_ok [OF assms [unfolded fd_inv_ok] n(2), of t] by auto
    then show ?thesis using False Some dup_to_fd_ok [OF assms, of oldfd "int n" env ops t 0]
      unfolding dup_handler_def by (auto simp del: upt_rec_numeral)
  qed (use assms False in \<open>simp add: dup_handler_def del: upt_rec_numeral\<close>)
qed (use assms in \<open>auto simp: dup_handler_def simp del: upt_rec_numeral\<close>)

text \<open>One descriptor of a new task, whose table entry is still empty.\<close>

lemma child_copy_ok:
  assumes "fd_ok {} no_refs {} w" "n < TASK_MAX_FD" "tbl w child n = - 1" "s < FD_POOL_SIZE" "o_type (w_pool w ! s) \<noteq> FDT_FREE"
    and "fd_pool_alloc w = (r, w1)" "\<not> r < 0"
    and "fd_obj_ref ops (on_obj (nat r) (\<lambda>_. (w_pool w1 ! s)\<lparr>o_wq := []\<rparr>) w1) r = (rc, w2)"
  shows "fd_ok {} no_refs {} (set_fd child n r w2)" "rc \<noteq> 0 \<Longrightarrow> fd_ok {} no_refs {} (set_fd child n (- 1) (fd_pool_free w2 r))"
    "w_tasks w2 = w_tasks w"
proof -
  note c = alloc_copy_ok [OF assms(1,4-8)]
  then show t: "w_tasks w2 = w_tasks w" by simp
  show "fd_ok {} no_refs {} (set_fd child n r w2)"
    using c set_fd_ok [of "{nat r}" no_refs "{}" w2 "nat r" n child] assms(2,3) t by auto
  show "fd_ok {} no_refs {} (set_fd child n (- 1) (fd_pool_free w2 r))" if "rc \<noteq> 0"
    using c that clear_fd_ok [of "{}" no_refs "{}" "fd_pool_free w2 r" n child] assms(2,3) t by auto
qed

lemma inherit_fd_ok:
  assumes "fd_inv w" "n < TASK_MAX_FD" "tbl w child n = - 1"
  shows "fd_inv (inherit_fd ops child parent n w)" "m \<noteq> n \<Longrightarrow> tbl (inherit_fd ops child parent n w) child m = tbl w child m"
proof -
  note ok = assms(1) [unfolded fd_inv_ok]
  have clear: "fd_ok {} no_refs {} (set_fd child n (- 1) w)" by (rule clear_fd_ok [OF ok assms(2,3)])
  obtain r w1 where 1: "fd_pool_alloc w = (r, w1)" by (cases "fd_pool_alloc w")
  define s where "s = nat (tbl w parent n)"
  obtain rc w2 where 2: "fd_obj_ref ops (on_obj (nat r) (\<lambda>_. (w_pool w1 ! s)\<lparr>o_wq := []\<rparr>) w1) r = (rc, w2)" by (meson surj_pair)
  have f: "r < 0 \<Longrightarrow> w1 = w" using fd_pool_alloc_ok [OF ok 1] by auto
  note c = child_copy_ok [OF ok assms(2,3) _ _ 1 _ 2]
  show "fd_inv (inherit_fd ops child parent n w)"
    using c f clear by (auto simp: inherit_fd_def 1 2 [unfolded s_def] s_def Let_def fd_inv_ok nat_less_iff)
  show "m \<noteq> n \<Longrightarrow> tbl (inherit_fd ops child parent n w) child m = tbl w child m"
    using c(3) f by (auto simp: inherit_fd_def 1 2 [unfolded s_def] s_def Let_def nat_less_iff set_fd_other)
qed

lemma fork_fd_ok:
  assumes "fd_inv w" "n < TASK_MAX_FD" "tbl w child n = - 1"
  shows "fd_inv (fork_fd ops child parent n w)" "m \<noteq> n \<Longrightarrow> tbl (fork_fd ops child parent n w) child m = tbl w child m"
proof -
  note ok = assms(1) [unfolded fd_inv_ok]
  have clear: "fd_ok {} no_refs {} (set_fd child n (- 1) w)" by (rule clear_fd_ok [OF ok assms(2,3)])
  obtain r w1 where 1: "fd_pool_alloc w = (r, w1)" by (cases "fd_pool_alloc w")
  define s where "s = nat (tbl w parent n)"
  obtain rc w2 where 2: "fd_obj_ref ops (on_obj (nat r) (\<lambda>_. (w_pool w1 ! s)\<lparr>o_wq := []\<rparr>) w1) r = (rc, w2)" by (meson surj_pair)
  have f: "r < 0 \<Longrightarrow> w1 = w" using fd_pool_alloc_ok [OF ok 1] by auto
  note c = child_copy_ok [OF ok assms(2,3) _ _ 1 _ 2]
  show "fd_inv (fork_fd ops child parent n w)"
    using c f clear by (auto simp: fork_fd_def 1 2 [unfolded s_def] s_def Let_def fd_inv_ok nat_less_iff)
  show "m \<noteq> n \<Longrightarrow> tbl (fork_fd ops child parent n w) child m = tbl w child m"
    using c(3) f by (auto simp: fork_fd_def 1 2 [unfolded s_def] s_def Let_def nat_less_iff set_fd_other)
qed

text \<open>A loop over the descriptors of a new task.\<close>

lemma child_loop_ok:
  assumes "\<And>w n. fd_inv w \<Longrightarrow> n < TASK_MAX_FD \<Longrightarrow> tbl w child n = - 1 \<Longrightarrow>
      fd_inv (f n w) \<and> (\<forall>m. m \<noteq> n \<longrightarrow> tbl (f n w) child m = tbl w child m)"
    and "fd_inv w" "distinct ns" "\<forall>n \<in> set ns. n < TASK_MAX_FD \<and> tbl w child n = - 1"
  shows "fd_inv (fold f ns w)"
  using assms(2-4)
proof (induction ns arbitrary: w)
  case (Cons n ns)
  have "fd_inv (f n w) \<and> (\<forall>m. m \<noteq> n \<longrightarrow> tbl (f n w) child m = tbl w child m)" using Cons.prems by (intro assms(1)) auto
  then show ?case using Cons.prems by (auto intro!: Cons.IH)
qed simp

definition fresh_table :: "nat \<Rightarrow> fs_world \<Rightarrow> bool" where
  "fresh_table t w \<longleftrightarrow> (\<forall>fd < TASK_MAX_FD. tbl w t fd = - 1)"

lemma init_fd_table_fresh: "fresh_table t (init_fd_table t w)"
  by (simp add: fresh_table_def init_fd_table_def on_task_def)

lemma fd_table_inherit_ok:
  assumes "fd_inv w" "fresh_table child w"
  shows "fd_inv (fd_table_inherit ops child parent w)"
proof -
  have "fd_inv (fold (\<lambda>fd. set_fd child fd (- 1)) [0..<TASK_MAX_FD] w)"
    using assms by (intro child_loop_ok) (auto simp: fresh_table_def fd_inv_ok clear_fd_ok set_fd_other simp del: upt_rec_numeral)
  moreover have "fd_inv (fold (inherit_fd ops child parent) [0..<TASK_MAX_FD] w)"
    using assms by (intro child_loop_ok) (auto simp: fresh_table_def inherit_fd_ok simp del: upt_rec_numeral)
  ultimately show ?thesis by (simp add: fd_table_inherit_def del: upt_rec_numeral)
qed

lemma fd_inv_tables:
  "fd_inv w \<Longrightarrow> (\<And>t. k_fd_table (w_tasks w' t) = k_fd_table (w_tasks w t)) \<Longrightarrow> w_pool w' = w_pool w \<Longrightarrow> w_files w' = w_files w \<Longrightarrow>
   w_pipes w' = w_pipes w \<Longrightarrow> fd_inv w'"
  unfolding fd_inv_def by (auto intro: slots_table_cong refs_cong ends_cong)

lemma fork_fds_ok:
  assumes "fd_inv w" "fresh_table child w"
  shows "fd_inv (fork_fds ops child parent w)"
proof -
  have "fd_inv (fold (fork_fd ops child parent) [0..<TASK_MAX_FD] w)"
    using assms by (intro child_loop_ok) (auto simp: fresh_table_def fork_fd_ok simp del: upt_rec_numeral)
  then show ?thesis unfolding fork_fds_def Let_def by (rule fd_inv_tables) (simp_all add: on_task_def)
qed

section \<open>Creating a pipe\<close>

text \<open>What the code relies on of \<^verbatim>\<open>kmalloc\<close>: NULL, or a place where no file lives.\<close>

definition km_ok :: "((u64 \<Rightarrow> vfs_file_t option) \<Rightarrow> u64) \<Rightarrow> bool" where
  "km_ok km \<longleftrightarrow> (\<forall>h. km h = 0 \<or> h (km h) = None)"

definition pipe_file :: "nat \<Rightarrow> bool \<Rightarrow> vfs_file_t" where
  "pipe_file pi b = \<lparr>f_kind = VFS_FILE_PIPE, f_flags = 0, f_refcnt = 1, f_path = [], f_pipe_idx = int pi, f_is_write_end = b\<rparr>"

lemma create_cases:
  assumes "km_ok km" "vfs_create_pipe_file km w (int pi) b 0 = (rc, a, w')"
  shows "rc \<noteq> 0 \<and> w' = w \<or> rc = 0 \<and> a \<noteq> 0 \<and> w_files w a = None \<and> w' = w\<lparr>w_files := (w_files w)(a \<mapsto> pipe_file pi b)\<rparr>"
  using assms(2) assms(1) [unfolded km_ok_def, rule_format, of "w_files w"]
  by (auto simp: vfs_create_pipe_file_def vfs_alloc_file_def Let_def pipe_file_def split: if_splits)

lemma new_file_ok:
  assumes "fd_ok H X P w" "pi \<in> P" "pi < PIPE_MAX" "a \<noteq> 0" "w_files w a = None"
  shows "fd_ok H (X(a := 1)) P (w\<lparr>w_files := (w_files w)(a \<mapsto> pipe_file pi b)\<rparr>)"
proof -
  let ?w = "w\<lparr>w_files := (w_files w)(a \<mapsto> pipe_file pi b)\<rparr>"
  have s: "slots_ok H w" "refs_ok X w" "ends_ok P w" using assms(1) by (simp_all add: fd_ok_def)
  have "slot_refs w a = 0" using s(2) assms(4,5) by (auto simp: refs_ok_def ref_ok_def)
  then have "refs_ok (X(a := 1)) ?w"
    using assms(4) by (intro refs_file [OF s(2), where fo = "Some (pipe_file pi b)"]) (simp_all add: ref_ok_def pipe_file_def)
  moreover have "end_files ?w q c = end_files w q c" if "q \<notin> P" for q c
    using that assms(2,5) end_files_upd [of ?w w a "Some (pipe_file pi b)" q c] by (auto simp: pipe_file_def is_end_def)
  then have "ends_ok P ?w" using s(3) assms(3) by (simp add: ends_ok_def pipe_file_range_def pipe_file_def)
  moreover have "slots_ok H ?w" using s(1) by (rule slots_table_cong) simp_all
  ultimately show ?thesis by (simp add: fd_ok_def)
qed

lemma attach_ok:
  assumes "fd_ok H X P w" "i \<in> H" "o_file (w_pool w ! i) = 0" "w_files w a = Some f" "a \<noteq> 0" "X a = 1"
  shows "fd_ok H (X(a := 0)) P (fd_obj_attach_vfs w (int i) a)"
    and "\<exists>g. fd_obj_attach_vfs w (int i) a = on_obj i g w \<and> (\<forall>x. o_file (g x) = a)"
proof -
  have i: "i < FD_POOL_SIZE" using assms(1,2) slots_len(3) by (auto simp: fd_ok_def)
  let ?g = "\<lambda>x. x\<lparr>o_file := a, o_ops := 0, o_priv := 0, o_flags := f_flags f, o_type := FDT_VFS, o_path := take 127 (f_path f)\<rparr>"
  have w': "fd_obj_attach_vfs w (int i) a = on_obj i ?g w" using i assms(4,5) by (simp add: fd_obj_attach_vfs_def)
  show "fd_ok H (X(a := 0)) P (fd_obj_attach_vfs w (int i) a)"
    unfolding w' using assms by (intro fd_ok_obj [OF assms(1,2)]) auto
  show "\<exists>g. fd_obj_attach_vfs w (int i) a = on_obj i g w \<and> (\<forall>x. o_file (g x) = a)" using w' by auto
qed

lemma discard_ok:
  assumes "fd_ok H X P w" "a \<noteq> 0" "w_files w a = Some (pipe_file pi b)" "pi \<in> P" "X a = 1"
  shows "fd_ok H (X(a := 0)) P (vfs_discard_unopened w a)"
proof -
  let ?w = "w\<lparr>w_files := (w_files w)(a := None)\<rparr>"
  have s: "slots_ok H w" "refs_ok X w" "ends_ok P w" using assms(1) by (simp_all add: fd_ok_def)
  have "ref_ok (Some (pipe_file pi b)) (slot_refs w a) (X a)" using s(2) assms(2,3) by (metis refs_ok_def)
  then have "slot_refs w a = 0" using assms(5) by (simp add: ref_ok_def pipe_file_def)
  then have "refs_ok (X(a := 0)) ?w" using assms(2) by (intro refs_file [OF s(2), where fo = None]) (simp_all add: ref_ok_def)
  moreover have "ends_ok P ?w"
    using assms(3,4) by (intro ends_drop_other [OF s(3)]) (auto simp: is_end_def pipe_file_def)
  moreover have "slots_ok H ?w" using s(1) by (rule slots_table_cong) simp_all
  ultimately show ?thesis using assms(2) by (simp add: fd_ok_def vfs_discard_unopened_def)
qed

lemma on_pipe_ok:
  assumes "fd_ok H X P w" "pi \<in> P" shows "fd_ok H X P (on_pipe pi f w)"
proof -
  have "slots_ok H (on_pipe pi f w)" using assms(1) by (auto simp: fd_ok_def on_pipe_def intro: slots_table_cong)
  moreover have "refs_ok X (on_pipe pi f w)" using assms(1) by (auto simp: fd_ok_def on_pipe_def intro: refs_cong)
  moreover have "end_files (on_pipe pi f w) q b = end_files w q b" for q b by (simp add: end_files_def is_end_def on_pipe_def)
  then have "ends_ok P (on_pipe pi f w)" using assms by (auto simp: fd_ok_def ends_ok_def on_pipe_def) (metis nth_list_update_neq)
  ultimately show ?thesis by (simp add: fd_ok_def)
qed

lemma ends_finish:
  assumes "ends_ok {pi} w" "\<And>b. end_ok (end_count (w_pipes w ! pi) b) (end_files w pi b)"
  shows "ends_ok {} w"
  using assms unfolding ends_ok_def by auto

text \<open>The state while a pipe is under construction: slots \<open>i\<close> and \<open>j\<close> were free in \<open>w0\<close> and are held,
  they refer to the files \<open>rd\<close> and \<open>wr\<close> created so far (0 is none), pipe \<open>pi\<close> was free and is set up,
  and everything else is as in \<open>w0\<close>.\<close>

definition add_file :: "nat \<Rightarrow> bool \<Rightarrow> u64 \<Rightarrow> (u64 \<Rightarrow> vfs_file_t option) \<Rightarrow> u64 \<Rightarrow> vfs_file_t option" where
  "add_file pi b a h = (if a = 0 then h else h(a \<mapsto> pipe_file pi b))"

definition building :: "fs_world \<Rightarrow> nat \<Rightarrow> nat \<Rightarrow> nat \<Rightarrow> u64 \<Rightarrow> u64 \<Rightarrow> fs_world \<Rightarrow> bool" where
  "building w0 pi i j rd wr w \<longleftrightarrow>
     fd_inv w0 \<and> i \<noteq> j \<and> o_type (w_pool w0 ! i) = FDT_FREE \<and> o_type (w_pool w0 ! j) = FDT_FREE \<and> pi < PIPE_MAX \<and>
     (\<forall>b. end_count (w_pipes w0 ! pi) b = 0) \<and> fd_ok {i, j} no_refs {pi} w \<and>
     (rd \<noteq> 0 \<longrightarrow> w_files w0 rd = None) \<and> (wr \<noteq> 0 \<longrightarrow> w_files w0 wr = None \<and> wr \<noteq> rd) \<and>
     o_file (w_pool w ! i) = rd \<and> o_file (w_pool w ! j) = wr \<and> (\<forall>k. k \<noteq> i \<and> k \<noteq> j \<longrightarrow> w_pool w ! k = w_pool w0 ! k) \<and>
     w_files w = add_file pi True wr (add_file pi False rd (w_files w0)) \<and> w_tasks w = w_tasks w0 \<and>
     w_pipes w = (w_pipes w0)[pi := pipe_zero\<lparr>p_rd_refcount := 1, p_wr_refcount := 1, p_rd_pool_idx := int i, p_wr_pool_idx := int j\<rparr>]"

lemma fd_inv_no_ends: "fd_inv w \<Longrightarrow> pi < PIPE_MAX \<Longrightarrow> end_count (w_pipes w ! pi) b = 0 \<Longrightarrow> end_files w pi b = {}"
  by (auto simp: fd_inv_def ends_ok_def end_ok_def)

lemma end_files_cong: "w_files w' = w_files w \<Longrightarrow> end_files w' pi b = end_files w pi b"
  by (simp add: end_files_def is_end_def)

lemma discard_rest [simp]:
  "w_pool (vfs_discard_unopened w a) = w_pool w" "w_tasks (vfs_discard_unopened w a) = w_tasks w" "w_pipes (vfs_discard_unopened w a) = w_pipes w"
  by (simp_all add: vfs_discard_unopened_def)

lemma discard_free: "fd_pool_free (vfs_discard_unopened w a) i = vfs_discard_unopened (fd_pool_free w i) a"
  by (simp add: fd_pool_free_def vfs_discard_unopened_def on_obj_def)

lemma free_rest [simp]: "w_files (fd_pool_free w i) = w_files w" "w_pipes (fd_pool_free w i) = w_pipes w"
  by (simp_all add: fd_pool_free_def)

lemma free_nth:
  "length (w_pool w) = FD_POOL_SIZE \<Longrightarrow> i < FD_POOL_SIZE \<Longrightarrow>
   w_pool (fd_pool_free w (int i)) ! k =
     (if k = i then (w_pool w ! i)\<lparr>o_wq := [], o_file := 0, o_ops := 0, o_priv := 0, o_type := FDT_FREE\<rparr> else w_pool w ! k)"
  by (simp add: fd_pool_free_def on_obj_nth)

lemma length_free [simp]: "length (w_pool (fd_pool_free w i)) = length (w_pool w)"
  by (simp add: fd_pool_free_def)

text \<open>Nothing that was in use has changed.\<close>

definition unchanged :: "fs_world \<Rightarrow> fs_world \<Rightarrow> bool" where
  "unchanged w w' \<longleftrightarrow> w_files w' = w_files w \<and> w_tasks w' = w_tasks w \<and>
     (\<forall>k < FD_POOL_SIZE. o_type (w_pool w' ! k) = o_type (w_pool w ! k) \<and>
        (o_type (w_pool w ! k) = FDT_FREE \<or> w_pool w' ! k = w_pool w ! k)) \<and>
     (\<forall>q < PIPE_MAX. w_pipes w' ! q = w_pipes w ! q \<or> (\<forall>b. end_count (w_pipes w ! q) b = 0 \<and> end_count (w_pipes w' ! q) b = 0))"

lemma undo_discards:
  assumes "building w0 pi i j rd wr w"
  shows "fd_ok {} no_refs {pi} (vfs_discard_unopened (vfs_discard_unopened (fd_pool_free (fd_pool_free w (int i)) (int j)) rd) wr)"
proof -
  note B = assms [unfolded building_def]
  have ij: "i \<noteq> j" and ok: "fd_ok {i, j} no_refs {pi} w" and fi: "o_file (w_pool w ! i) = rd" "o_file (w_pool w ! j) = wr"
    and fs: "w_files w = add_file pi True wr (add_file pi False rd (w_files w0))" and z: "w_files w0 0 = None"
    using B by (auto simp: fd_inv_def refs_ok_def)
  have l: "length (w_pool w) = FD_POOL_SIZE" "i < FD_POOL_SIZE" "j < FD_POOL_SIZE" using ok slots_len [of "{i, j}" w] by (auto simp: fd_ok_def)
  let ?X = "\<lambda>a. of_bool (rd = a) :: int" and ?Y = "\<lambda>a. of_bool (rd = a) + of_bool (wr = a) :: int"
  let ?w1 = "fd_pool_free w (int i)" let ?w2 = "fd_pool_free ?w1 (int j)"
  have "fd_ok ({i, j} - {i}) ?X {pi} ?w1" using fi by (intro fd_pool_free_ok [OF ok]) simp_all
  moreover have "{i, j} - {i} = {j}" using ij by auto
  ultimately have 1: "fd_ok {j} ?X {pi} ?w1" by simp
  have "fd_ok ({j} - {j}) ?Y {pi} ?w2" using fi l ij by (intro fd_pool_free_ok [OF 1]) (simp_all add: free_nth)
  then have 2: "fd_ok {} ?Y {pi} ?w2" by simp
  have 3: "fd_ok {} (\<lambda>a. of_bool (wr = a)) {pi} (vfs_discard_unopened ?w2 rd)"
  proof (cases "rd = 0")
    case True
    then show ?thesis using 2 by (auto simp: vfs_discard_unopened_def elim: fd_ok_ext)
  next
    case False
    have "wr \<noteq> rd" using B False z by auto
    then have "fd_ok {} (?Y(rd := 0)) {pi} (vfs_discard_unopened ?w2 rd)"
      using False fs by (intro discard_ok [OF 2, where pi = pi and b = False]) (simp_all add: add_file_def)
    then show ?thesis by (rule fd_ok_ext) (use \<open>wr \<noteq> rd\<close> in auto)
  qed
  show ?thesis
  proof (cases "wr = 0")
    case True
    have "fd_ok {} no_refs {pi} (vfs_discard_unopened ?w2 rd)" using 3 by (rule fd_ok_ext) (simp add: True)
    then show ?thesis using True by (simp add: vfs_discard_unopened_def [of _ 0])
  next
    case False
    have "wr \<noteq> rd" using B False by auto
    then have "w_files (vfs_discard_unopened ?w2 rd) wr = Some (pipe_file pi True)"
      using False fs by (simp add: add_file_def vfs_discard_unopened_def)
    then have "fd_ok {} ((\<lambda>a. of_bool (wr = a))(wr := 0)) {pi} (vfs_discard_unopened (vfs_discard_unopened ?w2 rd) wr)"
      using False by (intro discard_ok [OF 3, where pi = pi and b = True]) simp_all
    then show ?thesis by (rule fd_ok_ext) auto
  qed
qed

lemma undo_ok:
  assumes "building w0 pi i j rd wr w"
  defines "u \<equiv> pipe_alloc_undo (vfs_discard_unopened (vfs_discard_unopened w rd) wr) pi (int i) (int j)"
  shows "fd_inv u \<and> unchanged w0 u"
proof -
  note B = assms(1) [unfolded building_def]
  let ?d = "vfs_discard_unopened (vfs_discard_unopened (fd_pool_free (fd_pool_free w (int i)) (int j)) rd) wr"
  let ?z = "\<lambda>p. p\<lparr>p_rd_refcount := 0, p_wr_refcount := 0\<rparr>"
  have u: "u = on_pipe pi ?z ?d" by (simp add: u_def pipe_alloc_undo_def discard_free)
  have ok: "fd_ok {} no_refs {pi} u" unfolding u using undo_discards [OF assms(1)] by (rule on_pipe_ok) simp
  have fs: "w_files u = w_files w0"
    using B by (auto simp: u on_pipe_def vfs_discard_unopened_def add_file_def fun_upd_idem fun_upd_twist)
  have len: "length (w_pipes w0) = PIPE_MAX" using B by (simp add: fd_inv_def ends_ok_def)
  have ps: "w_pipes u = (w_pipes w0)[pi := ?z (w_pipes w ! pi)]" using B len by (simp add: u on_pipe_def)
  then have c: "end_count (w_pipes u ! pi) b = 0" for b using B len by (simp add: end_count_def)
  have "ends_ok {} u" using ok c fd_inv_no_ends [of w0 pi] B end_files_cong [OF fs, of pi]
    by (intro ends_finish [where pi = pi]) (simp_all add: fd_ok_def end_ok_def)
  then have "fd_inv u" using ok by (simp add: fd_inv_def fd_ok_def)
  moreover have "unchanged w0 u"
  proof -
    have l: "length (w_pool w) = FD_POOL_SIZE" "i < FD_POOL_SIZE" "j < FD_POOL_SIZE"
      using B slots_len [of "{i, j}" w] by (auto simp: fd_ok_def)
    have "w_tasks u = w_tasks w0" "w_pool u = w_pool (fd_pool_free (fd_pool_free w (int i)) (int j))" using B by (simp_all add: u on_pipe_def)
    then show ?thesis using B l fs c ps len
      by (auto simp: unchanged_def free_nth nth_list_update)
  qed
  ultimately show ?thesis ..
qed

lemma build_start:
  assumes "fd_inv w0" "fd_pool_alloc w0 = (int i, w1)" "fd_pool_alloc w1 = (int j, w2)" "pipe_slot_alloc (w_pipes w0) = int pi"
  shows "building w0 pi i j 0 0 (on_pipe pi (\<lambda>_. pipe_zero\<lparr>p_rd_refcount := 1, p_wr_refcount := 1, p_rd_pool_idx := int i,
                                                  p_wr_pool_idx := int j\<rparr>) w2)" (is "building _ _ _ _ _ _ ?w")
proof -
  have 0: "fd_ok {} no_refs {} w0" using assms(1) by (simp add: fd_inv_ok)
  have l: "length (w_pool w0) = FD_POOL_SIZE" "length (w_pipes w0) = PIPE_MAX"
    using 0 slots_len(1) by (auto simp: fd_ok_def ends_ok_def)
  from fd_pool_alloc_ok [OF 0 assms(2)] have 1: "i < FD_POOL_SIZE" "o_type (w_pool w0 ! i) = FDT_FREE"
    "w1 = on_obj i (\<lambda>x. x\<lparr>o_type := FDT_ALLOCATED, o_file := 0\<rparr>) w0" "fd_ok {i} no_refs {} w1" by auto
  from fd_pool_alloc_ok [OF 1(4) assms(3)] have 2: "j < FD_POOL_SIZE" "j \<noteq> i" "o_type (w_pool w1 ! j) = FDT_FREE"
    "w2 = on_obj j (\<lambda>x. x\<lparr>o_type := FDT_ALLOCATED, o_file := 0\<rparr>) w1" "fd_ok {j, i} no_refs {} w2" by auto
  have pi: "pi < PIPE_MAX" "p_rd_refcount (w_pipes w0 ! pi) = 0" "p_wr_refcount (w_pipes w0 ! pi) = 0"
    using assms(4) by (auto simp: pipe_slot_alloc_def find_Some_iff nth_upt split: option.splits simp del: upt_rec_numeral)
  have "fd_ok {i, j} no_refs {pi} w2" using 2(5) by (auto simp: fd_ok_def ends_ok_def insert_commute)
  then have ok: "fd_ok {i, j} no_refs {pi} ?w" by (rule on_pipe_ok) simp
  have "o_type (w_pool w0 ! j) = FDT_FREE" using 1 2 l by (simp add: on_obj_nth)
  moreover have "o_file (w_pool ?w ! i) = 0" "o_file (w_pool ?w ! j) = 0" "\<forall>k. k \<noteq> i \<and> k \<noteq> j \<longrightarrow> w_pool ?w ! k = w_pool w0 ! k"
    using 1 2 l by (auto simp: on_obj_nth on_pipe_def)
  moreover have "w_pipes ?w = (w_pipes w0)[pi := pipe_zero\<lparr>p_rd_refcount := 1, p_wr_refcount := 1, p_rd_pool_idx := int i, p_wr_pool_idx := int j\<rparr>]"
    "w_files ?w = w_files w0" "w_tasks ?w = w_tasks w0" using 1(3) 2(4) by (simp_all add: on_obj_def on_pipe_def)
  ultimately show ?thesis using assms(1) 1(2) 2(2) pi ok by (auto simp: building_def add_file_def end_count_def)
qed

lemma file_step:
  fixes b :: bool
  assumes "fd_ok H no_refs {pi} w" "k \<in> H" "o_file (w_pool w ! k) = 0" "pi < PIPE_MAX" "a \<noteq> 0" "w_files w a = None"
  defines "w' \<equiv> fd_obj_attach_vfs (w\<lparr>w_files := (w_files w)(a \<mapsto> pipe_file pi b)\<rparr>) (int k) a"
  shows "fd_ok H no_refs {pi} w'" "w_files w' = (w_files w)(a \<mapsto> pipe_file pi b)" "w_tasks w' = w_tasks w" "w_pipes w' = w_pipes w"
    "o_file (w_pool w' ! k) = a" "\<And>l. l \<noteq> k \<Longrightarrow> w_pool w' ! l = w_pool w ! l"
proof -
  let ?w = "w\<lparr>w_files := (w_files w)(a \<mapsto> pipe_file pi b)\<rparr>"
  have n: "fd_ok H (no_refs(a := 1)) {pi} ?w" using assms(4-6) by (intro new_file_ok [OF assms(1)]) simp_all
  have k: "length (w_pool w) = FD_POOL_SIZE" "k < FD_POOL_SIZE" using assms(1,2) slots_len [of H w] by (auto simp: fd_ok_def)
  note a = attach_ok [OF n assms(2), of a "pipe_file pi b"]
  have "fd_ok H ((no_refs(a := 1))(a := 0)) {pi} w'" unfolding w'_def using a(1) assms(3,5) by simp
  then show "fd_ok H no_refs {pi} w'" by (rule fd_ok_ext) simp
  obtain g where g: "w' = on_obj k g ?w" "\<forall>x. o_file (g x) = a" using a(2) assms(3,5) unfolding w'_def by auto
  show "w_files w' = (w_files w)(a \<mapsto> pipe_file pi b)" "w_tasks w' = w_tasks w" "w_pipes w' = w_pipes w"
    "o_file (w_pool w' ! k) = a" "\<And>l. l \<noteq> k \<Longrightarrow> w_pool w' ! l = w_pool w ! l"
    using g k by (simp_all add: on_obj_def)
qed

lemma build_rd:
  assumes "building w0 pi i j 0 0 w" "rd \<noteq> 0" "w_files w rd = None"
  shows "building w0 pi i j rd 0 (fd_obj_attach_vfs (w\<lparr>w_files := (w_files w)(rd \<mapsto> pipe_file pi False)\<rparr>) (int i) rd)"
proof -
  note B = assms(1) [unfolded building_def]
  have s: "fd_ok {i, j} no_refs {pi} w" "o_file (w_pool w ! i) = 0" "pi < PIPE_MAX" using B by simp_all
  note F = file_step [OF s(1) _ s(2,3) assms(2,3), where b = False, simplified]
  show ?thesis using B F assms(2,3) unfolding building_def by (simp add: add_file_def)
qed

lemma build_wr:
  assumes "building w0 pi i j rd 0 w" "rd \<noteq> 0" "wr \<noteq> 0" "w_files w wr = None"
  shows "building w0 pi i j rd wr (fd_obj_attach_vfs (w\<lparr>w_files := (w_files w)(wr \<mapsto> pipe_file pi True)\<rparr>) (int j) wr)"
proof -
  note B = assms(1) [unfolded building_def]
  have s: "fd_ok {i, j} no_refs {pi} w" "o_file (w_pool w ! j) = 0" "pi < PIPE_MAX" using B by simp_all
  have n: "w_files w0 wr = None" "wr \<noteq> rd" using B assms(2,4) by (auto simp: add_file_def split: if_splits)
  note F = file_step [OF s(1) _ s(2,3) assms(3,4), where b = True, simplified]
  show ?thesis using B F assms(2,3) n unfolding building_def by (simp add: add_file_def)
qed

lemma undo_cases:
  "building w0 pi i j 0 0 w \<Longrightarrow> fd_inv (pipe_alloc_undo w pi (int i) (int j)) \<and> unchanged w0 (pipe_alloc_undo w pi (int i) (int j))"
  "building w0 pi i j rd 0 w \<Longrightarrow> fd_inv (pipe_alloc_undo (vfs_discard_unopened w rd) pi (int i) (int j)) \<and>
     unchanged w0 (pipe_alloc_undo (vfs_discard_unopened w rd) pi (int i) (int j))"
  using undo_ok [of w0 pi i j 0 0 w] undo_ok [of w0 pi i j rd 0 w] by (simp_all add: vfs_discard_unopened_def)

text \<open>A built pipe with both descriptors installed.\<close>

lemma build_done:
  assumes "building w0 pi i j rd wr w" "rd \<noteq> 0" "wr \<noteq> 0" "fd_ok {} no_refs {pi} w'" "w_files w' = w_files w" "w_pipes w' = w_pipes w"
  shows "fd_inv w'" and "end_files w' pi False = {rd}" and "end_files w' pi True = {wr}"
proof -
  note B = assms(1) [unfolded building_def]
  have e0: "end_files w0 pi b = {}" for b using B by (intro fd_inv_no_ends) simp_all
  have f: "w_files w' = (w_files w0)(rd \<mapsto> pipe_file pi False, wr \<mapsto> pipe_file pi True)" "wr \<noteq> rd"
    using B assms(2,3,5) by (simp_all add: add_file_def)
  have e: "end_files w' pi b = (if b then {wr} else {rd})" for b
    using e0 [of b] f by (auto simp: end_files_def is_end_def pipe_file_def split: if_splits)
  then show "end_files w' pi False = {rd}" "end_files w' pi True = {wr}" by simp_all
  have "length (w_pipes w0) = PIPE_MAX" "pi < PIPE_MAX" using B by (simp_all add: fd_inv_def ends_ok_def)
  then have "end_count (w_pipes w' ! pi) b = 1" for b using B assms(6) by (simp add: end_count_def)
  then have "ends_ok {} w'" using assms(4) e by (intro ends_finish [where pi = pi]) (auto simp: fd_ok_def end_ok_def)
  then show "fd_inv w'" using assms(4) by (simp add: fd_inv_def fd_ok_def)
qed

text \<open>The descriptors a successful \<open>pipe_alloc\<close> returns are two entries that were free, and they refer to the two
  ends of one pipe that was free.\<close>

definition new_pipe :: "fs_world \<Rightarrow> nat \<Rightarrow> nat \<Rightarrow> nat \<Rightarrow> fs_world \<Rightarrow> bool" where
  "new_pipe w0 t fd fd' w \<longleftrightarrow>
     fd < TASK_MAX_FD \<and> fd' < TASK_MAX_FD \<and> fd \<noteq> fd' \<and> tbl w0 t fd = - 1 \<and> tbl w0 t fd' = - 1 \<and>
     (\<exists>pi < PIPE_MAX. (\<forall>b. end_count (w_pipes w0 ! pi) b = 0) \<and>
        end_files w pi False = {o_file (w_pool w ! nat (tbl w t fd))} \<and>
        end_files w pi True = {o_file (w_pool w ! nat (tbl w t fd'))})"

lemma set_fd_undo: "tbl w t fd = v \<Longrightarrow> set_fd t fd v (set_fd t fd x w) = w"
  by (cases w) (auto simp: set_fd_def on_task_def fun_upd_idem)


lemma build_fds:
  assumes B: "building w0 pi i j rd wr w" and nz: "rd \<noteq> 0" "wr \<noteq> 0"
    and r: "task_alloc_fd w t (int i) = (r, w1)" and r': "task_alloc_fd w1 t (int j) = (r', w2)"
  shows "r = - 1 \<and> w1 = w \<or> r = int (nat r) \<and> r' = - 1 \<and> set_fd t (nat r) (- 1) w2 = w \<or>
     (\<exists>fd fd'. r = int fd \<and> r' = int fd' \<and> fd_inv w2 \<and> new_pipe w0 t fd fd' w2)"
proof -
  have ok: "fd_ok {i, j} no_refs {pi} w" and ij: "i \<noteq> j" and tk: "w_tasks w = w_tasks w0" and rf: "o_file (w_pool w ! i) = rd" "o_file (w_pool w ! j) = wr"
    and pi: "pi < PIPE_MAX" "\<forall>b. end_count (w_pipes w0 ! pi) b = 0"
    using B by (auto simp: building_def)
  from task_alloc_fd_ok [OF ok _ r] consider "r = - 1" "w1 = w" | fd where "fd < TASK_MAX_FD" "r = int fd" "tbl w t fd = - 1"
    "w1 = set_fd t fd (int i) w" "fd_ok ({i, j} - {i}) no_refs {pi} w1" by auto
  then show ?thesis
  proof cases
    case (2 fd)
    have ok1: "fd_ok {j} no_refs {pi} w1" using 2(5) ij by (simp add: insert_Diff_if)
    have len: "length (k_fd_table (w_tasks w t)) = TASK_MAX_FD" using ok by (auto simp: fd_ok_def slots_ok_def)
    from task_alloc_fd_ok [OF ok1 _ r'] consider "r' = - 1" "w2 = w1" | fd' where "fd' < TASK_MAX_FD" "r' = int fd'" "tbl w1 t fd' = - 1"
      "w2 = set_fd t fd' (int j) w1" "fd_ok {} no_refs {pi} w2" by auto
    then show ?thesis
    proof cases
      case 1
      then show ?thesis using 2 set_fd_undo [of w t fd "- 1"] by simp
    next
      case (2 fd')
      have w2: "w_files w2 = w_files w" "w_pipes w2 = w_pipes w" "w_pool w2 = w_pool w"
        using 2 \<open>w1 = _\<close> by (simp_all add: set_fd_def on_task_def)
      have "fd' \<noteq> fd" using 2(3) \<open>w1 = _\<close> len \<open>fd < _\<close> by (auto simp: set_fd_def on_task_def)
      then have "tbl w2 t fd = int i" "tbl w2 t fd' = int j" "tbl w t fd' = - 1"
        using 2 \<open>w1 = _\<close> len \<open>fd < _\<close> by (auto simp: set_fd_def on_task_def)
      then have "new_pipe w0 t fd fd' w2"
        using pi tk rf w2 2(1) \<open>fd' \<noteq> fd\<close> \<open>fd < _\<close> \<open>tbl w t fd = _\<close> build_done(2,3) [OF B nz 2(5) w2(1,2)] by (auto simp: new_pipe_def)
      then show ?thesis using build_done(1) [OF B nz 2(5) w2(1,2)] 2(2) \<open>r = _\<close> by auto
    qed
  qed simp
qed

lemma unchanged_refl: "unchanged w w"
  by (simp add: unchanged_def)

lemma one_slot_undo:
  assumes "fd_inv w" "fd_pool_alloc w = (int i, w1)"
  shows "fd_inv (fd_pool_free w1 (int i)) \<and> unchanged w (fd_pool_free w1 (int i))"
proof -
  have 0: "fd_ok {} no_refs {} w" using assms(1) by (simp add: fd_inv_ok)
  from fd_pool_alloc_ok [OF 0 assms(2)] have 1: "i < FD_POOL_SIZE" "o_type (w_pool w ! i) = FDT_FREE"
    "w1 = on_obj i (\<lambda>x. x\<lparr>o_type := FDT_ALLOCATED, o_file := 0\<rparr>) w" "fd_ok {i} no_refs {} w1" "o_file (w_pool w1 ! i) = 0" by auto
  have l: "length (w_pool w) = FD_POOL_SIZE" using 0 slots_len(1) by (auto simp: fd_ok_def)
  have "fd_ok ({i} - {i}) no_refs {} (fd_pool_free w1 (int i))" using 1(5) by (intro fd_pool_free_ok [OF 1(4)]) simp_all
  then show ?thesis using 1 l by (auto simp: fd_inv_ok unchanged_def free_nth) (simp_all add: on_obj_def)
qed

definition pipe_outcome :: "fs_world \<Rightarrow> nat \<Rightarrow> (int \<times> int) option \<Rightarrow> fs_world \<Rightarrow> bool" where
  "pipe_outcome w t r w' \<longleftrightarrow> fd_inv w' \<and>
     (case r of None \<Rightarrow> unchanged w w' | Some (a, b) \<Rightarrow> 0 \<le> a \<and> 0 \<le> b \<and> new_pipe w t (nat a) (nat b) w')"

lemma pipe_alloc_ends_ok:
  assumes "building w0 pi i j 0 0 w" "km_ok km" "pipe_alloc_ends km w t (int pi) (int i) (int j) = (r, w')"
  shows "pipe_outcome w0 t r w'"
proof -
  obtain rc rd w1 where c: "vfs_create_pipe_file km w (int pi) False 0 = (rc, rd, w1)" by (metis prod_cases3)
  let ?w1 = "fd_obj_attach_vfs w1 (int i) rd"
  obtain rc' wr w2 where c': "vfs_create_pipe_file km ?w1 (int pi) True 0 = (rc', wr, w2)" by (metis prod_cases3)
  let ?w2 = "fd_obj_attach_vfs w2 (int j) wr"
  obtain fd w3 where f: "task_alloc_fd ?w2 t (int i) = (fd, w3)" by (meson surj_pair)
  obtain fd' w4 where f': "task_alloc_fd w3 t (int j) = (fd', w4)" by (meson surj_pair)
  note E = assms(3) [unfolded pipe_alloc_ends_def Let_def c split_conv c' f f']
  show ?thesis
  proof (cases "rc = 0")
    case False
    then show ?thesis using E create_cases [OF assms(2) c] undo_cases(1) [OF assms(1)] by (auto simp: pipe_outcome_def)
  next
    case True
    then have rd: "rd \<noteq> 0" and B1: "building w0 pi i j rd 0 ?w1" using create_cases [OF assms(2) c] build_rd [OF assms(1), of rd] by auto
    show ?thesis
    proof (cases "rc' = 0")
      case False
      then show ?thesis using E True create_cases [OF assms(2) c'] undo_cases(2) [OF B1] by (auto simp: pipe_outcome_def)
    next
      case rc': True
      then have wr: "wr \<noteq> 0" and B2: "building w0 pi i j rd wr ?w2" using create_cases [OF assms(2) c'] build_wr [OF B1 rd, of wr] by auto
      from build_fds [OF B2 rd wr f f'] show ?thesis
        using E True rc' undo_ok [OF B2] by (auto simp: pipe_outcome_def split: if_splits)
    qed
  qed
qed

lemma pipe_alloc_ok:
  assumes "fd_inv w0" "km_ok km" "pipe_alloc km w0 t = (r, w')"
  shows "pipe_outcome w0 t r w'"
proof -
  obtain ri w1 rj w2 where a: "fd_pool_alloc w0 = (ri, w1)" "fd_pool_alloc w1 = (rj, w2)" by (meson surj_pair)
  have 0: "fd_ok {} no_refs {} w0" using assms(1) by (simp add: fd_inv_ok)
  consider "pipe_slot_alloc (w_pipes w0) < 0" | pi where "pipe_slot_alloc (w_pipes w0) = int pi"
    by (metis nonneg_eq_int not_less)
  then show ?thesis
  proof cases
    case 1
    then show ?thesis using assms(1,3) unchanged_refl by (auto simp: pipe_alloc_def pipe_outcome_def)
  next
    case (2 pi)
    note E = assms(3) [unfolded pipe_alloc_def Let_def 2 a split_conv]
    from fd_pool_alloc_ok [OF 0 a(1)] consider "ri = - 1" "w1 = w0" | i where "ri = int i" "fd_ok {i} no_refs {} w1" by auto
    then show ?thesis
    proof cases
      case 1
      then show ?thesis using E assms(1) unchanged_refl by (auto simp: pipe_outcome_def)
    next
      case (2 i)
      from fd_pool_alloc_ok [OF 2(2) a(2)] consider "rj = - 1" "w2 = w1" | j where "rj = int j" by auto
      then show ?thesis
      proof cases
        case 1
        then show ?thesis using E 2(1) one_slot_undo [OF assms(1), of i w1] a(1) by (auto simp: pipe_outcome_def)
      next
        case (2 j)
        then show ?thesis using E \<open>ri = int i\<close> a \<open>pipe_slot_alloc _ = _\<close>
          by (intro pipe_alloc_ends_ok [OF build_start [OF assms(1), of i w1 j w2 pi] assms(2), of t]) simp_all
      qed
    qed
  qed
qed

subsection \<open>Opening\<close>

lemma vfs_close_ok:
  assumes "fd_ok H X {} w" "a \<noteq> 0" "w_files w a \<noteq> None" "1 \<le> X a"
  shows "fd_ok H (X(a := X a - 1)) {} (vfs_close w a)"
proof -
  have "slots_ok H (vfs_close w a)" using assms(1) by (auto simp: fd_ok_def intro: slots_table_cong)
  then show ?thesis using assms vfs_close_inv [of X w a] by (simp add: fd_ok_def)
qed

lemma vfs_close_free: "fd_pool_free (vfs_close w a) i = vfs_close (fd_pool_free w i) a"
  by (simp add: fd_pool_free_def vfs_close_on_obj)

text \<open>The caller holds the one reference of the file it opened.\<close>

lemma openat_install_ok:
  assumes "fd_ok {} (no_refs(vf := 1)) {} w" "vf \<noteq> 0" "w_files w vf = Some f" "openat_install w t vf = (r, w')"
  shows "fd_inv w' \<and> (r = - 24 \<or> (\<exists>fd < TASK_MAX_FD. r = int fd \<and> tbl w t fd = - 1 \<and> o_file (w_pool w' ! nat (tbl w' t fd)) = vf))"
proof -
  have drop: "fd_inv (vfs_close v vf)" if "fd_ok {} (no_refs(vf := 1)) {} v" "w_files v vf = Some f" for v
    using vfs_close_ok [OF that(1) assms(2)] that(2) by (auto simp: fd_inv_ok elim: fd_ok_ext)
  obtain p w1 where 1: "fd_pool_alloc w = (p, w1)" by (cases "fd_pool_alloc w")
  from fd_pool_alloc_ok [OF assms(1) 1] consider "p = - 1" "w1 = w" | i where "i < FD_POOL_SIZE" "p = int i"
    "w1 = on_obj i (\<lambda>x. x\<lparr>o_type := FDT_ALLOCATED, o_file := 0\<rparr>) w" "fd_ok {i} (no_refs(vf := 1)) {} w1" "o_file (w_pool w1 ! i) = 0" by auto
  then show ?thesis
  proof cases
    case 1
    then show ?thesis using assms drop [OF assms(1)] \<open>fd_pool_alloc w = _\<close> by (auto simp: openat_install_def)
  next
    case (2 i)
    let ?w2 = "fd_obj_attach_vfs w1 (int i) vf"
    have f1: "w_files w1 vf = Some f" using 2(3) assms(3) by simp
    obtain g where g: "?w2 = on_obj i g w1" "\<And>x. o_file (g x) = vf" using attach_ok(2) [OF 2(4) _ 2(5) f1 assms(2)] by auto
    have "fd_ok {i} ((no_refs(vf := 1))(vf := 0)) {} ?w2" using 2(5) f1 assms(2) by (intro attach_ok(1) [OF 2(4)]) simp_all
    then have ok: "fd_ok {i} no_refs {} ?w2" by (rule fd_ok_ext) simp
    have len: "length (w_pool w1) = FD_POOL_SIZE" using 2(4) slots_len(1) by (auto simp: fd_ok_def)
    then have fi: "o_file (w_pool ?w2 ! i) = vf" using g 2(1) by (simp add: on_obj_nth)
    obtain fd w3 where 3: "task_alloc_fd ?w2 t (int i) = (fd, w3)" by (meson surj_pair)
    from task_alloc_fd_ok [OF ok _ 3] consider "fd = - 1" "w3 = ?w2" | n where "n < TASK_MAX_FD" "fd = int n" "tbl ?w2 t n = - 1"
      "w3 = set_fd t n (int i) ?w2" "fd_ok {} no_refs {} w3" by auto
    then show ?thesis
    proof cases
      case 1
      have "fd_ok ({i} - {i}) (no_refs(vf := 1)) {} (fd_pool_free ?w2 (int i))" using fi by (intro fd_pool_free_ok [OF ok]) auto
      then have "fd_inv (vfs_close (fd_pool_free ?w2 (int i)) vf)" using g(1) f1 by (intro drop) simp_all
      moreover have "w' = fd_pool_free (vfs_close ?w2 vf) (int i)" "r = - 24"
        using assms(4) 1 \<open>p = _\<close> \<open>fd_pool_alloc w = _\<close> 3 by (simp_all add: openat_install_def Let_def)
      ultimately show ?thesis by (simp add: vfs_close_free)
    next
      case (2 n)
      have "w' = w3" "r = int n" using assms(4) 2 \<open>p = _\<close> \<open>fd_pool_alloc w = _\<close> 3 by (simp_all add: openat_install_def Let_def)
      moreover have "w_pool w3 = w_pool ?w2" using 2(4) by (simp add: set_fd_def on_task_def)
      moreover have "tbl w3 t n = int i" using set_fd_same [OF ok 2(1)] 2(4) by simp
      moreover have "tbl w t n = - 1" using 2(3) g(1) \<open>w1 = _\<close> by simp
      ultimately show ?thesis using 2(1,5) fi by (auto simp: fd_inv_ok)
    qed
  qed
qed

subsection \<open>fcntl\<close>

lemma set_flags_ok:
  assumes "fd_inv w"
  shows "fd_inv (on_obj i (\<lambda>x. x\<lparr>o_flags := fl\<rparr>) w)" and "fd_inv (w\<lparr>w_files := (w_files w)(a := map_option (\<lambda>f. f\<lparr>f_flags := fl\<rparr>) (w_files w a))\<rparr>)"
proof -
  let ?w = "on_obj i (\<lambda>x. x\<lparr>o_flags := fl\<rparr>) w"
  have p: "o_type (w_pool ?w ! k) = o_type (w_pool w ! k)" "o_file (w_pool ?w ! k) = o_file (w_pool w ! k)" for k
    by (cases "k = i"; cases "i < length (w_pool w)"; simp add: on_obj_def list_update_beyond)+
  have "slots_ok {} ?w" using assms p by (simp add: fd_inv_def slots_ok_def slot_ok_def)
  moreover have "slot_refs ?w a = slot_refs w a" for a
    unfolding slot_refs_def length_filter_conv_card using p by simp
  ultimately show "fd_inv ?w" using assms by (auto simp: fd_inv_def refs_ok_def intro: ends_cong)
  let ?w = "w\<lparr>w_files := (w_files w)(a := map_option (\<lambda>f. f\<lparr>f_flags := fl\<rparr>) (w_files w a))\<rparr>"
  have "ref_ok (w_files ?w b) n x = ref_ok (w_files w b) n x" for b n x by (auto simp: ref_ok_def split: option.split)
  moreover have "pipe_file_range (w_files ?w b) = pipe_file_range (w_files w b)" "is_end ?w pi c b = is_end w pi c b" for b c pi
    by (auto simp: pipe_file_range_def is_end_def split: option.split)
  moreover have "slots_ok {} ?w" using assms by (auto simp: fd_inv_def intro: slots_table_cong)
  ultimately show "fd_inv ?w" using assms by (auto simp: fd_inv_def refs_ok_def ends_ok_def end_files_def slot_refs_def)
qed

lemma copied_file:
  assumes "fd_ok {} no_refs {} w" "s < FD_POOL_SIZE" "o_type (w_pool w ! s) \<noteq> FDT_FREE" "fd_pool_alloc w = (r, w1)" "\<not> r < 0"
    and "fd_obj_ref ops (on_obj (nat r) (\<lambda>_. (w_pool w1 ! s)\<lparr>o_wq := []\<rparr>) w1) r = (rc, w2)"
  shows "o_file (w_pool w2 ! nat r) = o_file (w_pool w ! s)"
proof -
  from fd_pool_alloc_ok [OF assms(1,4)] assms(5) obtain j where j: "j < FD_POOL_SIZE" "r = int j" "o_type (w_pool w ! j) = FDT_FREE"
    "w1 = on_obj j (\<lambda>x. x\<lparr>o_type := FDT_ALLOCATED, o_file := 0\<rparr>) w" by auto
  have l: "length (w_pool w) = FD_POOL_SIZE" using assms(1) slots_len by (auto simp: fd_ok_def)
  define v where "v = on_obj j (\<lambda>_. (w_pool w1 ! s)\<lparr>o_wq := []\<rparr>) w1"
  have v: "length (w_pool v) = FD_POOL_SIZE" "w_pool v ! j = (w_pool w ! s)\<lparr>o_wq := []\<rparr>"
    using j assms(3) l by (auto simp: v_def on_obj_nth)
  have r: "fd_obj_ref ops v (int j) = (rc, w2)" using assms(6) j(2) by (simp add: v_def)
  show ?thesis
  proof (cases "o_file (w_pool w ! s) = 0")
    case True
    then have "fd_core w2 = fd_core v" using fd_obj_ref_core [of v "int j" ops] v r by simp
    from fd_core_obj(2) [OF this, of j] show ?thesis using v j by simp
  next
    case False
    then show ?thesis using r v j(1,2) assms(3) by (auto simp: fd_obj_ref_def vfs_ref_def Let_def)
  qed
qed

text \<open>Of the commands of \<^verbatim>\<open>fcntl\<close> only the duplicating ones, when they fail, can break the invariant:
  they free the new slot and keep the reference it held.\<close>

lemma fcntl_dupfd_ok:
  assumes "fd_inv w" "fcntl_dupfd ops w t fd obj arg c = (r, w')"
    and src: "\<And>s. obj = Some s \<Longrightarrow> s < FD_POOL_SIZE \<and> o_type (w_pool w ! s) \<noteq> FDT_FREE"
  shows "fd_inv w' \<or> (\<exists>s x. obj = Some s \<and> r = - 24 \<and> x = o_file (w_pool w ! s) \<and> x \<noteq> 0 \<and> fd_ok {} (no_refs(x := 1)) {} w')"
proof -
  note ok = assms(1) [unfolded fd_inv_ok]
  define fds where "fds = [nat (if (if arg < 0 then 0 else arg) < 3 then 3 else (if arg < 0 then 0 else arg))..<TASK_MAX_FD]"
  note E = assms(2) [unfolded fcntl_dupfd_def Let_def, folded fds_def]
  have fds: "n < TASK_MAX_FD \<and> tbl v t n = - 1" if "List.find (\<lambda>i. tbl v t i = - 1) fds = Some n" for v n
    using that by (auto simp: fds_def find_Some_iff nth_upt simp del: upt_rec_numeral)
  obtain p w1 where 1: "fd_pool_alloc w = (p, w1)" by (cases "fd_pool_alloc w")
  have f: "p < 0 \<Longrightarrow> w1 = w" using fd_pool_alloc_ok [OF ok 1] by auto
  show ?thesis
  proof (cases obj)
    case None
    then show ?thesis using E fds [of w] f assms(1) uart_slot_ok [OF ok _ _ 1, of _ t]
      by (auto simp: fd_inv_ok 1 split: if_splits option.splits)
  next
    case (Some s)
    obtain rc w2 where 2: "fd_obj_ref ops (on_obj (nat p) (\<lambda>_. (w_pool w1 ! s)\<lparr>o_wq := []\<rparr>) w1) p = (rc, w2)" by (meson surj_pair)
    show ?thesis
    proof (cases "p < 0")
      case True
      then show ?thesis using E f assms(1) Some by (simp add: 1)
    next
      case False
      note c = alloc_copy_ok [OF ok _ _ 1 False 2]
      show ?thesis
      proof (cases "List.find (\<lambda>i. tbl w2 t i = - 1) fds")
        case None
        then have w': "w' = fd_pool_free w2 p" "r = - 24" using E Some False by (simp_all add: 1 2)
        have x: "o_file (w_pool w2 ! nat p) = o_file (w_pool w ! s)" using copied_file [OF ok _ _ 1 False 2] src [OF Some] by simp
        let ?X = "\<lambda>a. of_bool (o_file (w_pool w ! s) = a) :: int"
        have "fd_ok ({nat p} - {nat p}) ?X {} (fd_pool_free w2 (int (nat p)))"
          using c src [OF Some] x by (intro fd_pool_free_ok [where X = no_refs]) simp_all
        then have "fd_ok {} ?X {} w'" using w' False by simp
        then have "fd_ok {} (no_refs(o_file (w_pool w ! s) := of_bool (o_file (w_pool w ! s) \<noteq> 0))) {} w'" by (rule fd_ok_ext) auto
        then show ?thesis using Some w'(2) by (cases "o_file (w_pool w ! s) = 0") (auto simp: fd_inv_ok fun_upd_idem)
      next
        case n: (Some n)
        then have "w' = set_cloexec_bit t n c (set_fd t n p w2)" using E Some False by (simp add: 1 2)
        then show ?thesis using set_fd_ok [of "{nat p}" no_refs "{}" w2 "nat p" n t] fds [OF n] c src [OF Some] False by (auto simp: fd_inv_ok)
      qed
    qed
  qed
qed

lemma fcntl_handler_ok:
  assumes "fd_inv w" "fcntl_handler ops w t fd cmd arg = (r, w')"
  shows "fd_inv w' \<or> (cmd = 0 \<or> cmd = 1030) \<and> r = - 24 \<and>
    (\<exists>x. x = o_file (w_pool w ! nat (tbl w t (nat fd))) \<and> x \<noteq> 0 \<and> fd_ok {} (no_refs(x := 1)) {} w')"
proof (cases "fd < 0 \<or> fd \<ge> int TASK_MAX_FD")
  case False
  then obtain n where n: "fd = int n" "n < TASK_MAX_FD" by (cases fd) auto
  define obj where "obj = task_get_fd w t fd"
  have src: "obj = Some s \<Longrightarrow> s < FD_POOL_SIZE \<and> o_type (w_pool w ! s) \<noteq> FDT_FREE \<and> s = nat (tbl w t (nat fd))" for s
    using task_get_fd_ok [OF assms(1) [unfolded fd_inv_ok] n(2), of t] named_slot_used [OF assms(1) [unfolded fd_inv_ok] n(2), of t]
      fd_ok_tbl [OF assms(1) [unfolded fd_inv_ok] n(2), of t] n(1) by (auto simp: obj_def split: if_splits)
  note E = assms(2) [unfolded fcntl_handler_def Let_def, folded obj_def]
  show ?thesis
  proof (cases "cmd = 0 \<or> cmd = 1030")
    case True
    then consider "w' = w" | c where "fcntl_dupfd ops w t fd obj arg c = (r, w')" using E False by (auto split: if_splits)
    then show ?thesis
    proof cases
      case (2 c)
      from fcntl_dupfd_ok [OF assms(1) 2] src True show ?thesis by auto
    qed (use assms(1) in simp)
  next
    case c: False
    have "fd_inv (set_cloexec_bit t m b w)" for m b using assms(1) by (simp add: fd_inv_ok)
    then show ?thesis using E False c set_flags_ok [OF assms(1)] set_flags_ok(2) [OF set_flags_ok(1) [OF assms(1)]] assms(1)
      by (auto split: if_splits option.splits)
  qed
qed (use assms in \<open>auto simp: fcntl_handler_def\<close>)

text \<open>A minimum above the table: every such call leaves one more reference to the file behind.\<close>

lemma fcntl_dupfd_leaks:
  assumes "fd_inv w" "fd < TASK_MAX_FD" "tbl w t fd = int s" "o_file (w_pool w ! s) = a" "a \<noteq> 0" "fst (fd_pool_alloc w) \<ge> 0" "arg \<ge> 256"
  obtains w' where "fcntl_handler ops w t (int fd) 0 arg = (- 24, w')" "fd_ok {} (no_refs(a := 1)) {} w'"
proof -
  note ok = assms(1) [unfolded fd_inv_ok]
  obtain r w' where h: "fcntl_handler ops w t (int fd) 0 arg = (r, w')" by (meson surj_pair)
  have g: "task_get_fd w t (int fd) = Some s" using task_get_fd_ok [OF ok assms(2), of t] assms(3) by simp
  have fds: "[nat (if (if arg < 0 then 0 else arg) < 3 then 3 else (if arg < 0 then 0 else arg))..<TASK_MAX_FD] = []" using assms(7) by simp
  obtain p w1 where 1: "fd_pool_alloc w = (p, w1)" by (cases "fd_pool_alloc w")
  obtain rc w2 where 2: "fd_obj_ref ops (on_obj (nat p) (\<lambda>_. (w_pool w1 ! s)\<lparr>o_wq := []\<rparr>) w1) p = (rc, w2)" by (meson surj_pair)
  have p: "\<not> p < 0" using assms(6) 1 by simp
  have s: "s < FD_POOL_SIZE" "o_type (w_pool w ! s) \<noteq> FDT_FREE" using named_slot_used [OF ok assms(2,3)] by auto
  have w': "r = - 24" "w' = fd_pool_free w2 p"
    using h assms(2) g p fds by (auto simp: fcntl_handler_def fcntl_dupfd_def Let_def 1 2 simp del: upt_rec_numeral)
  note c = alloc_copy_ok [OF ok s 1 p 2]
  have "fd_ok ({nat p} - {nat p}) (no_refs(a := 1)) {} (fd_pool_free w2 (int (nat p)))"
    using c copied_file [OF ok s 1 p 2] assms(4) by (intro fd_pool_free_ok [where X = no_refs]) auto
  then show thesis using that h w' p by simp
qed

text \<open>The table of a cloned thread names the slots of its creator: a close by one leaves the other's
  descriptor on a free slot, which the next allocation gives to somebody else.\<close>

lemma clone_thread_dangling:
  fixes env :: poll_env and ops :: "u64 \<Rightarrow> fd_ops_t"
  assumes "fd_inv w" "fd < TASK_MAX_FD" "tbl w parent fd = int s" "child \<noteq> parent"
  defines "w' \<equiv> snd (close_handler env ops (clone_thread_fds child parent w) parent (int fd))"
  shows "tbl w' child fd = int s \<and> o_type (w_pool w' ! s) = FDT_FREE"
proof -
  let ?v = "set_fd parent fd (- 1) (clone_thread_fds child parent w)"
  have s: "s < FD_POOL_SIZE" "length (w_pool w) = FD_POOL_SIZE"
    using named_slot_used [OF assms(1) [unfolded fd_inv_ok] assms(2,3)] assms(1) slots_len(1) by (auto simp: fd_inv_def)
  have p: "tbl (clone_thread_fds child parent w) parent fd = int s" using assms(3,4) by (simp add: clone_thread_fds_def on_task_def)
  have w': "w' = close_slot env ops ?v (int s)"
    using assms(2) s(1) p by (simp add: w'_def close_handler_def task_take_fd_def)
  have "tbl ?v child fd = int s" using assms(3,4) by (simp add: set_fd_other) (simp add: clone_thread_fds_def on_task_def)
  then have "tbl w' child fd = int s" by (simp add: w')
  moreover have "length (w_pool ?v) = FD_POOL_SIZE" using s(2) by (simp add: set_fd_def on_task_def clone_thread_fds_def)
  then have "length (w_pool (fd_obj_close env ops (fd_close_notify ?v (int s)) (int s))) = FD_POOL_SIZE"
    using fd_core_pool(1) [OF fd_core_close_notify, of ?v "int s"] fd_core_pool(1) [OF fd_core_destroy]
    by (simp add: fd_obj_close_def Let_def)
  then have "o_type (w_pool w' ! s) = FDT_FREE" using s(1) by (simp add: w' close_slot_def free_nth)
  ultimately show ?thesis ..
qed

section \<open>Runs\<close>

text \<open>
  The operations on descriptors, in any order and by any task. \<open>env\<close> and \<open>ops\<close> are the environment
  of epoll and the callbacks of buffer descriptors, \<open>km\<close> is the allocator of file structures. A file
  that \<^verbatim>\<open>vfs_open\<close> returns is new, with one reference. Of the calls of \<^verbatim>\<open>fcntl\<close> those that fail with
  \<^verbatim>\<open>EMFILE\<close> are left out (\<open>fcntl_dupfd_leaks\<close>), and so is the clone of a thread, which copies the table.
\<close>

inductive fd_step ::
  "poll_env \<Rightarrow> (u64 \<Rightarrow> fd_ops_t) \<Rightarrow> ((u64 \<Rightarrow> vfs_file_t option) \<Rightarrow> u64) \<Rightarrow> fs_world \<Rightarrow> fs_world \<Rightarrow> bool" for env ops km where
  close: "fd_step env ops km w (snd (close_handler env ops w t fd))"
| exit: "fd_step env ops km w (exit_close_fds env ops t w)"
| exec: "fd_step env ops km w (exec_wrapper_close_fds env ops t w)"
| pipe2: "pipe2_handler km w t user = (r, fds, w') \<Longrightarrow> fd_step env ops km w w'"
| openat: "vf \<noteq> 0 \<Longrightarrow> w_files w vf = None \<Longrightarrow> f_refcnt f = 1 \<Longrightarrow> f_kind f \<noteq> VFS_FILE_PIPE \<Longrightarrow>
    openat_install (w\<lparr>w_files := (w_files w)(vf \<mapsto> f)\<rparr>) t vf = (r, w') \<Longrightarrow> fd_step env ops km w w'"
| dup: "fd_step env ops km w (snd (dup_handler env ops w t oldfd))"
| dup3: "fd_step env ops km w (snd (dup3_handler env ops w t oldfd newfd flags))"
| fcntl: "fcntl_handler ops w t fd cmd arg = (r, w') \<Longrightarrow> r \<noteq> - 24 \<Longrightarrow> fd_step env ops km w w'"
| spawn: "fresh_table child w \<Longrightarrow> fd_step env ops km w (fd_table_inherit ops child parent w)"
| fork: "fresh_table child w \<Longrightarrow> fd_step env ops km w (fork_fds ops child parent w)"
| buffer: "ty \<noteq> FDT_FREE \<Longrightarrow> fd_step env ops km w (snd (task_alloc_buffer_fd ty path w t h o_tbl priv))"
| epoll: "epoll_step env w w' \<Longrightarrow> fd_step env ops km w w'"
| read_pipe: "pipe_file_read tk (w_pipes w) f n = (r, cs, g, es) \<Longrightarrow> fd_step env ops km w (fold (deliver env) es (w\<lparr>w_pipes := g\<rparr>))"
| write_pipe: "pipe_file_write tk (w_pipes w) f cs = (r, st, g, es) \<Longrightarrow> fd_step env ops km w (fold (deliver env) es (w\<lparr>w_pipes := g\<rparr>))"
| read_resume: "pipe_read_resume tk n nb (w_pipes w ! pi) = (r, cs, p, es) \<Longrightarrow>
    fd_step env ops km w (fold (deliver env) es (on_pipe pi (\<lambda>_. p) w))"
| write_resume: "pipe_write_resume tk src tot nb (w_pipes w ! pi) = (r, st, p, es) \<Longrightarrow>
    fd_step env ops km w (fold (deliver env) es (on_pipe pi (\<lambda>_. p) w))"

subsection \<open>Reading and writing keep the counts\<close>

lemma take_counts: "pipe_take n p = (cs, p') \<Longrightarrow> p_rd_refcount p' = p_rd_refcount p \<and> p_wr_refcount p' = p_wr_refcount p"
  by (induction n arbitrary: p cs) (auto simp: pipe_pop_def Let_def split: if_splits prod.splits)

lemma put_counts: "pipe_put p cs = (k, p') \<Longrightarrow> p_rd_refcount p' = p_rd_refcount p \<and> p_wr_refcount p' = p_wr_refcount p"
  by (induction p cs arbitrary: k rule: pipe_put.induct) (auto simp: pipe_push_def Let_def split: if_splits prod.splits)

lemma read_pass_counts: "pipe_read_pass tk n nb p = (r, cs, p', es) \<Longrightarrow> end_count p' b = end_count p b"
  by (auto simp: pipe_read_pass_def Let_def end_count_def dest!: take_counts split: if_splits prod.splits)

lemma write_pass_counts: "pipe_write_pass tk src tot nb p = (r, st, p', es) \<Longrightarrow> end_count p' b = end_count p b"
  by (auto simp: pipe_write_pass_def Let_def end_count_def dest!: put_counts split: if_splits prod.splits)

lemma fd_core_deliver [simp]: "fd_core (deliver env e w) = fd_core w"
  by (cases e) (simp_all add: deliver_def)

lemma fd_inv_pipe:
  assumes "fd_inv w" "\<And>b. end_count p b = end_count (w_pipes w ! pi) b"
  shows "fd_inv (fold (deliver env) es (w\<lparr>w_pipes := (w_pipes w)[pi := p]\<rparr>))"
proof -
  let ?w = "w\<lparr>w_pipes := (w_pipes w)[pi := p]\<rparr>"
  have "end_count ((w_pipes w)[pi := p] ! q) b = end_count (w_pipes w ! q) b" for q b
    using assms(2) by (cases "q = pi"; cases "pi < length (w_pipes w)") (simp_all add: list_update_beyond)
  then have "ends_ok {} ?w" using assms(1) by (simp add: fd_inv_def ends_ok_def end_files_def is_end_def)
  moreover have "slots_ok {} ?w" "refs_ok no_refs ?w" using assms(1) by (auto simp: fd_inv_def intro: slots_table_cong refs_cong)
  ultimately have "fd_inv ?w" by (simp add: fd_inv_def)
  then show ?thesis using fd_inv_core [OF fd_core_fold [of "deliver env" es ?w]] by simp
qed

lemma pipe_get_nth: "pipe_get_by_idx g pi = Some p \<Longrightarrow> p = g ! nat pi"
  by (simp add: pipe_get_by_idx_def Let_def split: if_splits)

lemma pipe_read_inv:
  assumes "fd_inv w" "pipe_file_read tk (w_pipes w) f n = (r, cs, g, es)"
  shows "fd_inv (fold (deliver env) es (w\<lparr>w_pipes := g\<rparr>))"
proof (cases "f_is_write_end f \<or> pipe_get_by_idx (w_pipes w) (f_pipe_idx f) = None")
  case True
  then show ?thesis using assms by (auto simp: pipe_file_read_def pipe_read_endpoint_def split: if_splits)
next
  case False
  then obtain q where q: "\<not> f_is_write_end f" "pipe_get_by_idx (w_pipes w) (f_pipe_idx f) = Some q" by auto
  obtain r' cs' p es' where pass: "pipe_read_pass tk n (nonblocking f) q = (r', cs', p, es')" by (metis prod_cases4)
  have c: "end_count p b = end_count (w_pipes w ! nat (f_pipe_idx f)) b" for b
    using read_pass_counts [OF pass] pipe_get_nth [OF q(2)] by simp
  show ?thesis
  proof (cases "p_rd_refcount q \<le> 0")
    case True
    then show ?thesis using assms q by (auto simp: pipe_file_read_def pipe_read_endpoint_def)
  next
    case False
    then have "g = (w_pipes w)[nat (f_pipe_idx f) := p]" using assms(2) q pass by (simp add: pipe_file_read_def pipe_read_endpoint_def)
    then show ?thesis using fd_inv_pipe [OF assms(1) c] by simp
  qed
qed

lemma pipe_write_inv:
  assumes "fd_inv w" "pipe_file_write tk (w_pipes w) f src = (r, st, g, es)"
  shows "fd_inv (fold (deliver env) es (w\<lparr>w_pipes := g\<rparr>))"
proof -
  have same: "fd_inv (fold (deliver env) es w)" using fd_inv_core [OF fd_core_fold [of "deliver env" es w]] assms(1) by simp
  show ?thesis
  proof (cases "\<not> f_is_write_end f \<or> pipe_get_by_idx (w_pipes w) (f_pipe_idx f) = None")
    case True
    then show ?thesis using assms by (auto simp: pipe_file_write_def pipe_write_endpoint_def split: if_splits)
  next
    case False
    then obtain q where q: "f_is_write_end f" "pipe_get_by_idx (w_pipes w) (f_pipe_idx f) = Some q" by auto
    obtain r' st' p es' where pass: "pipe_write_pass tk src 0 (nonblocking f) q = (r', st', p, es')" by (metis prod_cases4)
    have c: "end_count p b = end_count (w_pipes w ! nat (f_pipe_idx f)) b" for b
      using write_pass_counts [OF pass] pipe_get_nth [OF q(2)] by simp
    show ?thesis
    proof (cases "p_wr_refcount q \<le> 0 \<or> p_rd_refcount q \<le> 0")
      case True
      then have "g = w_pipes w" using assms(2) q by (auto simp: pipe_file_write_def pipe_write_endpoint_def split: if_splits)
      then show ?thesis using same by simp
    next
      case False
      then have "g = (w_pipes w)[nat (f_pipe_idx f) := p]" using assms(2) q pass by (simp add: pipe_file_write_def pipe_write_endpoint_def)
      then show ?thesis using fd_inv_pipe [OF assms(1) c] by simp
    qed
  qed
qed

lemma epoll_step_fd_inv:
  assumes "epoll_step env w w'" "fd_inv w" shows "fd_inv w'"
proof -
  have keep: "fd_inv (snd (epoll_ctl_handler env v t epfd op fd ev)) = fd_inv v" for v t epfd op fd ev
    by (rule fd_inv_core) (simp add: epoll_ctl_handler_def epoll_ctl_add_def epoll_ctl_del_def epoll_ctl_mod_def Let_def split: option.split prod.split)
  have pass: "fd_inv v' = fd_inv v" if "epoll_wait_pass env t addr e n sig timeout expired v = (r, es, v')" for t addr e n sig timeout expired v r es v'
    using that by (intro fd_inv_core) (auto simp: epoll_wait_pass_def Let_def split: if_splits prod.splits)
  have core: "fd_inv (fd_notify_waiters env w i ev) = fd_inv w" "fd_inv (fd_close_notify w i) = fd_inv w"
    "fd_inv (epoll_destroy env w i) = fd_inv w" "fd_inv (on_epoll e h w) = fd_inv w" for i ev e h
    by (rule fd_inv_core, simp)+
  from assms(1) show ?thesis
  proof cases
    case (create t flags)
    then show ?thesis using epoll_create1_fd_ok [OF assms(2)] by simp
  next
    case (ctl t epfd op fd ev)
    show ?thesis unfolding ctl using keep assms(2) by simp
  next
    case (wait t addr e n sig timeout expired r es)
    from pass [OF wait] show ?thesis using assms(2) by simp
  next
    case (resume t addr e n sig timeout expired r es)
    from pass [OF resume [unfolded epoll_wait_resume_def]] show ?thesis using core(4) assms(2) by simp
  qed (use core assms(2) in simp_all)
qed

lemma new_open_ok:
  assumes "fd_inv w" "vf \<noteq> 0" "w_files w vf = None" "f_refcnt f = 1" "f_kind f \<noteq> VFS_FILE_PIPE"
  shows "fd_ok {} (no_refs(vf := 1)) {} (w\<lparr>w_files := (w_files w)(vf \<mapsto> f)\<rparr>)" (is "fd_ok _ _ _ ?w")
proof -
  have s: "slots_ok {} w" "refs_ok no_refs w" "ends_ok {} w" using assms(1) by (simp_all add: fd_inv_def)
  have "slot_refs w vf = 0" using s(2) assms(2,3) by (auto simp: refs_ok_def ref_ok_def)
  then have "refs_ok (no_refs(vf := 1)) ?w"
    using assms(2,4) by (intro refs_file [OF s(2), where fo = "Some f"]) (simp_all add: ref_ok_def)
  moreover have "end_files ?w q c = end_files w q c" for q c
    using assms(3,5) by (auto simp: end_files_def is_end_def split: option.split)
  then have "ends_ok {} ?w" using s(3) assms(5) by (auto simp: ends_ok_def pipe_file_range_def)
  moreover have "slots_ok {} ?w" using s(1) by (rule slots_table_cong) simp_all
  ultimately show ?thesis by (simp add: fd_ok_def)
qed

lemma fd_step_inv: "fd_step env ops km w w' \<Longrightarrow> km_ok km \<Longrightarrow> fd_inv w \<Longrightarrow> fd_inv w'"
proof (induction rule: fd_step.induct)
  case (exec w t)
  then show ?case by (simp add: exec_close_eq exit_close_fds_ok)
next
  case (pipe2 w t user r fds w')
  obtain p v where v: "pipe_alloc km w t = (p, v)" by (cases "pipe_alloc km w t")
  then show ?case using pipe_alloc_ok [OF pipe2.prems(2,1) v] pipe2
    by (auto simp: pipe2_handler_def pipe_outcome_def split: if_splits option.splits)
next
  case (openat vf w f t r w')
  then show ?case using openat_install_ok [OF new_open_ok openat.hyps(1) _ openat.hyps(5)] by simp
next
  case (fcntl w t fd cmd arg r w')
  then show ?case using fcntl_handler_ok [OF fcntl.prems(2) fcntl.hyps(1)] by simp
next
  case (read_resume tk n nb w pi r cs p es)
  then show ?case using fd_inv_pipe [OF read_resume.prems(2), of p pi] read_pass_counts [of tk n nb "(w_pipes w ! pi)\<lparr>p_blocked_reader := 0\<rparr>" r cs p es]
    by (simp add: pipe_read_resume_def on_pipe_def end_count_def)
next
  case (write_resume tk src tot nb w pi r st p es)
  then show ?case using fd_inv_pipe [OF write_resume.prems(2), of p pi] write_pass_counts [of tk src tot nb "(w_pipes w ! pi)\<lparr>p_blocked_writer := 0\<rparr>" r st p es]
    by (simp add: pipe_write_resume_def on_pipe_def end_count_def)
qed (auto intro: close_handler_ok exit_close_fds_ok dup_handler_ok dup3_handler_ok fd_table_inherit_ok fork_fds_ok task_alloc_buffer_fd_ok
    epoll_step_fd_inv pipe_read_inv pipe_write_inv)

text \<open>The state after \<^verbatim>\<open>fd_pool_init\<close>, with no file open and every table empty.\<close>

definition fd_boot :: "fs_world \<Rightarrow> bool" where
  "fd_boot w \<longleftrightarrow>
     length (w_pool w) = FD_POOL_SIZE \<and> (\<forall>x \<in> set (w_pool w). o_type x = FDT_FREE \<and> o_file x = 0) \<and>
     (\<forall>t. k_fd_table (w_tasks w t) = replicate TASK_MAX_FD (- 1)) \<and> w_files w = (\<lambda>_. None) \<and> w_pipes w = replicate PIPE_MAX pipe_zero"

lemma fd_boot_inv:
  assumes "fd_boot w" shows "fd_inv w"
proof -
  have B: "length (w_pool w) = FD_POOL_SIZE" "\<And>x. x \<in> set (w_pool w) \<Longrightarrow> o_type x = FDT_FREE \<and> o_file x = 0"
    "\<And>t. k_fd_table (w_tasks w t) = replicate TASK_MAX_FD (- 1)" "w_files w = (\<lambda>_. None)" "w_pipes w = replicate PIPE_MAX pipe_zero"
    using assms by (simp_all add: fd_boot_def)
  have "owners w i = {}" for i using B(3) by (simp add: owners_def)
  then have "slots_ok {} w" using B(1,2,3) by (simp add: slots_ok_def slot_ok_def)
  moreover have "slot_refs w a = 0" if "a \<noteq> 0" for a using B(2) that by (auto simp: slot_refs_def filter_empty_conv)
  then have "refs_ok no_refs w" using B(4) by (simp add: refs_ok_def ref_ok_def)
  moreover have "end_files w pi b = {}" for pi b using B(4) by (simp add: end_files_def is_end_def)
  then have "ends_ok {} w" using B(4,5) by (simp add: ends_ok_def end_ok_def end_count_def pipe_zero_def pipe_file_range_def)
  ultimately show ?thesis by (simp add: fd_inv_def)
qed

lemma fd_run_inv: "(fd_step env ops km)\<^sup>*\<^sup>* w w' \<Longrightarrow> km_ok km \<Longrightarrow> fd_inv w \<Longrightarrow> fd_inv w'"
  by (induction rule: rtranclp_induct) (auto intro: fd_step_inv)

text \<open>The descriptors of all tasks that refer to a file.\<close>

definition descriptors :: "fs_world \<Rightarrow> u64 \<Rightarrow> (nat \<times> nat) set" where
  "descriptors w a = {(t, fd). fd < TASK_MAX_FD \<and> 0 \<le> tbl w t fd \<and> o_file (w_pool w ! nat (tbl w t fd)) = a}"

lemma descriptors_card:
  assumes "fd_inv w" "a \<noteq> 0" shows "card (descriptors w a) = slot_refs w a"
proof -
  have s: "slots_ok {} w" using assms(1) by (simp add: fd_inv_def)
  have own: "\<exists>d. owners w i \<subseteq> {d}" "o_type (w_pool w ! i) \<noteq> FDT_FREE \<longleftrightarrow> owners w i \<noteq> {}" "o_type (w_pool w ! i) = FDT_FREE \<longrightarrow> o_file (w_pool w ! i) = 0"
    if "i < FD_POOL_SIZE" for i using slots_slot [OF s that] by (simp_all add: slot_ok_def)
  have rng: "fd < TASK_MAX_FD \<Longrightarrow> 0 \<le> tbl w t fd \<Longrightarrow> nat (tbl w t fd) < FD_POOL_SIZE" for t fd
    using s nat_less_iff [of "tbl w t fd" FD_POOL_SIZE] by (simp add: slots_ok_def)
  have mem: "fd < TASK_MAX_FD \<Longrightarrow> 0 \<le> tbl w t fd \<Longrightarrow> (t, fd) \<in> owners w (nat (tbl w t fd))" for t fd by (simp add: owners_def)
  let ?h = "\<lambda>(t, fd). nat (tbl w t fd)" and ?S = "{i. i < length (w_pool w) \<and> o_file (w_pool w ! i) = a}"
  have "inj_on ?h (descriptors w a)"
  proof (rule inj_onI, clarify)
    fix t fd t' fd' assume d: "(t, fd) \<in> descriptors w a" "(t', fd') \<in> descriptors w a" "nat (tbl w t fd) = nat (tbl w t' fd')"
    then have "(t, fd) \<in> owners w (nat (tbl w t fd))" "(t', fd') \<in> owners w (nat (tbl w t fd))" by (auto simp: descriptors_def owners_def)
    then show "t = t' \<and> fd = fd'" using own(1) [of "nat (tbl w t fd)"] rng d by (auto simp: descriptors_def)
  qed
  moreover have "?h ` descriptors w a = ?S"
  proof (intro equalityI subsetI)
    fix i assume i: "i \<in> ?S"
    then obtain t fd where "(t, fd) \<in> owners w i" using own(2,3) [of i] assms(2) slots_len(1) [OF s] by fastforce
    then show "i \<in> ?h ` descriptors w a" using i by (intro image_eqI [where x = "(t, fd)"]) (auto simp: owners_def descriptors_def)
  qed (use rng slots_len(1) [OF s] in \<open>auto simp: descriptors_def\<close>)
  ultimately have "bij_betw ?h (descriptors w a) ?S" by (simp add: bij_betw_def)
  then have "card (descriptors w a) = card ?S" by (rule bij_betw_same_card)
  then show ?thesis by (simp add: slot_refs_def length_filter_conv_card)
qed

lemma file_descriptors:
  assumes "fd_inv w"
  shows "w_files w a = Some f \<Longrightarrow> unat (f_refcnt f) = card (descriptors w a) \<and> descriptors w a \<noteq> {}"
    and "a \<noteq> 0 \<Longrightarrow> w_files w a = None \<Longrightarrow> descriptors w a = {}"
proof -
  have r: "refs_ok no_refs w" using assms by (simp add: fd_inv_def)
  show "unat (f_refcnt f) = card (descriptors w a) \<and> descriptors w a \<noteq> {}" if f: "w_files w a = Some f"
  proof -
    have a: "a \<noteq> 0" using r f by (auto simp: refs_ok_def)
    then have "ref_ok (Some f) (slot_refs w a) 0" using r f by (metis refs_ok_def)
    then have i: "int (unat (f_refcnt f)) = int (slot_refs w a) + 0" "0 < f_refcnt f" unfolding ref_ok_def by simp_all
    have "unat (f_refcnt f) = slot_refs w a" using i(1) by linarith
    moreover have "0 < unat (f_refcnt f)" using i(2) by (simp add: word_less_nat_alt)
    ultimately show ?thesis using descriptors_card [OF assms a] by auto
  qed
  show "descriptors w a = {}" if "a \<noteq> 0" "w_files w a = None"
  proof -
    have "length (w_pool w) = FD_POOL_SIZE" using assms slots_len(1) by (auto simp: fd_inv_def)
    moreover have "slot_refs w a = 0" using r that by (auto simp: refs_ok_def ref_ok_def)
    moreover have "nat (tbl w t fd) < FD_POOL_SIZE" if "fd < TASK_MAX_FD" "0 \<le> tbl w t fd" for t fd
      using assms that nat_less_iff [of "tbl w t fd" FD_POOL_SIZE] by (simp add: fd_inv_def slots_ok_def)
    ultimately show ?thesis using slot_refs_pos by (force simp: descriptors_def)
  qed
qed

section \<open>The properties\<close>


text \<open>One run: from boot, task 0 creates a pipe.\<close>

definition free_obj :: fd_obj_t where
  "free_obj = \<lparr>o_type = FDT_FREE, o_flags = 0, o_path = [], o_file = 0, o_ops = 0, o_priv = 0, o_handle = 0, o_ep_idx = 0, o_wq = []\<rparr>"

definition fd_start :: fs_world where
  "fd_start = \<lparr>w_pool = replicate 128 free_obj, w_pipes = replicate 16 pipe_zero, w_epolls = no_epolls, w_files = (\<lambda>_. None),
     w_tasks = (\<lambda>_. \<lparr>k_fd_table = replicate 256 (- 1), k_fd_cloexec = replicate 32 0, k_is_user_process = True\<rparr>), w_events = []\<rparr>"

definition km_two :: "(u64 \<Rightarrow> vfs_file_t option) \<Rightarrow> u64" where
  "km_two h = (if h 16 = None then 16 else if h 32 = None then 32 else 0)"

definition fd_piped :: fs_world where
  "fd_piped = snd (snd (pipe2_handler km_two fd_start 0 1))"

definition no_ops :: "u64 \<Rightarrow> fd_ops_t" where
  "no_ops _ = \<lparr>op_dup = None, op_close = False\<rparr>"

lemma fd_start_boot: "fd_boot fd_start"
  by (simp add: fd_boot_def fd_start_def free_obj_def)

lemma km_two_ok: "km_ok km_two"
  by (simp add: km_ok_def km_two_def)

lemma fd_piped_run: "(fd_step quiet_env no_ops km_two)\<^sup>*\<^sup>* fd_start fd_piped"
  using fd_step.pipe2 [of km_two fd_start 0 1 "fst (pipe2_handler km_two fd_start 0 1)" "fst (snd (pipe2_handler km_two fd_start 0 1))" fd_piped]
  by (simp add: fd_piped_def r_into_rtranclp)

lemma pool_alloc_at:
  "i < FD_POOL_SIZE \<Longrightarrow> o_type (w_pool w ! i) = FDT_FREE \<Longrightarrow> \<forall>j \<in> {0..<i}. o_type (w_pool w ! j) \<noteq> FDT_FREE \<Longrightarrow>
   fd_pool_alloc w = (int i, on_obj i (\<lambda>x. x\<lparr>o_type := FDT_ALLOCATED, o_file := 0\<rparr>) w)"
  by (simp add: fd_pool_alloc_def find_upt del: upt_rec_numeral)

lemma task_alloc_at:
  "3 \<le> i \<Longrightarrow> i < TASK_MAX_FD \<Longrightarrow> tbl w t i = - 1 \<Longrightarrow> \<forall>j \<in> {3..<i}. tbl w t j \<noteq> - 1 \<Longrightarrow> task_alloc_fd w t p = (int i, set_fd t i p w)"
  by (simp add: task_alloc_fd_def find_upt del: upt_rec_numeral)

lemma fd_start_slots:
  defines "f \<equiv> \<lambda>x. x\<lparr>o_type := FDT_ALLOCATED, o_file := 0\<rparr>"
  shows "pipe_slot_alloc (w_pipes fd_start) = 0" "fd_pool_alloc fd_start = (0, on_obj 0 f fd_start)"
    "fd_pool_alloc (on_obj 0 f fd_start) = (1, on_obj 1 f (on_obj 0 f fd_start))"
proof -
  show "pipe_slot_alloc (w_pipes fd_start) = 0"
    unfolding pipe_slot_alloc_def using find_upt [of 0 0 16 "\<lambda>i. p_rd_refcount (w_pipes fd_start ! i) = 0 \<and> p_wr_refcount (w_pipes fd_start ! i) = 0"]
    by (simp add: fd_start_def pipe_zero_def del: upt_rec_numeral)
  show "fd_pool_alloc fd_start = (0, on_obj 0 f fd_start)"
    using pool_alloc_at [of 0 fd_start] by (simp add: f_def fd_start_def free_obj_def)
  show "fd_pool_alloc (on_obj 0 f fd_start) = (1, on_obj 1 f (on_obj 0 f fd_start))"
    using pool_alloc_at [of 1 "on_obj 0 f fd_start"] by (simp add: f_def fd_start_def free_obj_def on_obj_nth)
qed

lemma fd_piped_files: "w_files fd_piped = [16 \<mapsto> pipe_file 0 False, 32 \<mapsto> pipe_file 0 True]"
  and fd_piped_pipe: "p_count (w_pipes fd_piped ! 0) = 0"
proof -
  let ?f = "\<lambda>x. x\<lparr>o_type := FDT_ALLOCATED, o_file := 0\<rparr>"
  let ?g = "\<lambda>a x. x\<lparr>o_file := a, o_ops := 0, o_priv := 0, o_flags := 0, o_type := FDT_VFS, o_path := []\<rparr>"
  let ?p = "pipe_zero\<lparr>p_rd_refcount := 1, p_wr_refcount := 1, p_rd_pool_idx := 0, p_wr_pool_idx := 1\<rparr>"
  let ?w2 = "on_pipe 0 (\<lambda>_. ?p) (on_obj 1 ?f (on_obj 0 ?f fd_start))"
  let ?w3 = "on_obj 0 (?g 16) (?w2\<lparr>w_files := [16 \<mapsto> pipe_file 0 False]\<rparr>)"
  let ?w4 = "on_obj 1 (?g 32) (?w3\<lparr>w_files := [16 \<mapsto> pipe_file 0 False, 32 \<mapsto> pipe_file 0 True]\<rparr>)"
  note s = fd_start_slots(1) and 0 = fd_start_slots(2) and 1 = fd_start_slots(3)
  have 2: "w_files ?w2 = (\<lambda>_. None)" by (simp add: on_pipe_def fd_start_def)
  have 3: "task_alloc_fd ?w4 0 0 = (3, set_fd 0 3 0 ?w4)"
    using task_alloc_at [of 3 ?w4 0 0] by (simp add: on_pipe_def fd_start_def)
  have 4: "task_alloc_fd (set_fd 0 3 0 ?w4) 0 1 = (4, set_fd 0 4 1 (set_fd 0 3 0 ?w4))"
  proof -
    have "{3..<4::nat} = {3}" by auto
    then show ?thesis using task_alloc_at [of 4 "set_fd 0 3 0 ?w4" 0 1] by (simp add: set_fd_def on_task_def on_pipe_def fd_start_def)
  qed
  have c: "vfs_create_pipe_file km_two ?w2 0 False 0 = (0, 16, ?w2\<lparr>w_files := [16 \<mapsto> pipe_file 0 False]\<rparr>)"
    unfolding vfs_create_pipe_file_def vfs_alloc_file_def km_two_def 2 by (simp add: pipe_file_def)
  have c': "vfs_create_pipe_file km_two ?w3 0 True 0 = (0, 32, ?w3\<lparr>w_files := [16 \<mapsto> pipe_file 0 False, 32 \<mapsto> pipe_file 0 True]\<rparr>)"
    by (simp add: vfs_create_pipe_file_def vfs_alloc_file_def km_two_def pipe_file_def)
  have at: "fd_obj_attach_vfs (v\<lparr>w_files := h\<rparr>) i a = on_obj (nat i) (?g a) (v\<lparr>w_files := h\<rparr>)"
    if "i \<in> {0, 1}" "a \<noteq> 0" "\<exists>b. h a = Some (pipe_file 0 b)" for v h i a using that by (auto simp: fd_obj_attach_vfs_def pipe_file_def)
  have at0: "fd_obj_attach_vfs (?w2\<lparr>w_files := [16 \<mapsto> pipe_file 0 False]\<rparr>) 0 16 = ?w3" by (subst at) auto
  have at1: "fd_obj_attach_vfs (?w3\<lparr>w_files := [16 \<mapsto> pipe_file 0 False, 32 \<mapsto> pipe_file 0 True]\<rparr>) 1 32 = ?w4" by (subst at) auto
  have "pipe_alloc_ends km_two ?w2 0 0 0 1 = (Some (3, 4), set_fd 0 4 1 (set_fd 0 3 0 ?w4))"
    by (simp only: pipe_alloc_ends_def Let_def c c' at0 at1 3 4 split_conv) simp
  then have "pipe_alloc km_two fd_start 0 = (Some (3, 4), set_fd 0 4 1 (set_fd 0 3 0 ?w4))"
    by (simp only: pipe_alloc_def Let_def s 0 1 split_conv) simp
  then have w: "fd_piped = set_fd 0 4 1 (set_fd 0 3 0 ?w4)" by (simp add: fd_piped_def pipe2_handler_def)
  show "w_files fd_piped = [16 \<mapsto> pipe_file 0 False, 32 \<mapsto> pipe_file 0 True]" by (simp add: w)
  show "p_count (w_pipes fd_piped ! 0) = 0" by (simp add: w on_pipe_def fd_start_def pipe_zero_def)
qed


lemma pipe_end_open:
  assumes "fd_inv w" "w_files w a = Some f" "f_kind f = VFS_FILE_PIPE" "f_pipe_idx f = int pi"
  shows "pi < PIPE_MAX" "end_count (w_pipes w ! pi) (f_is_write_end f) = 1"
proof -
  have e: "ends_ok {} w" using assms(1) by (simp add: fd_inv_def)
  then have "pipe_file_range (w_files w a)" by (simp add: ends_ok_def)
  then show pi: "pi < PIPE_MAX" using assms(2-4) by (simp add: pipe_file_range_def)
  have "a \<in> end_files w pi (f_is_write_end f)" using assms(2-4) by (simp add: end_files_def is_end_def)
  moreover have "end_ok (end_count (w_pipes w ! pi) (f_is_write_end f)) (end_files w pi (f_is_write_end f))"
    using e pi by (auto simp: ends_ok_def)
  ultimately show "end_count (w_pipes w ! pi) (f_is_write_end f) = 1" by (auto simp: end_ok_def)
qed

text \<open>The descriptors of all tasks that refer to an end of a pipe.\<close>

definition end_descriptors :: "fs_world \<Rightarrow> nat \<Rightarrow> bool \<Rightarrow> (nat \<times> nat) set" where
  "end_descriptors w pi b = {(t, fd). fd < TASK_MAX_FD \<and> 0 \<le> tbl w t fd \<and> is_end w pi b (o_file (w_pool w ! nat (tbl w t fd)))}"

lemma end_closed_iff:
  assumes "fd_inv w" "pi < PIPE_MAX"
  shows "end_count (w_pipes w ! pi) b \<le> 0 \<longleftrightarrow> end_descriptors w pi b = {}"
proof -
  have "end_ok (end_count (w_pipes w ! pi) b) (end_files w pi b)" using assms by (simp add: fd_inv_def ends_ok_def)
  then have "end_count (w_pipes w ! pi) b \<le> 0 \<longleftrightarrow> end_files w pi b = {}" by (auto simp: end_ok_def)
  also have "\<dots> \<longleftrightarrow> end_descriptors w pi b = {}"
  proof
    assume "end_files w pi b = {}"
    then show "end_descriptors w pi b = {}" by (auto simp: end_files_def end_descriptors_def)
  next
    assume d: "end_descriptors w pi b = {}"
    show "end_files w pi b = {}"
    proof (rule equals0I)
      fix a assume "a \<in> end_files w pi b"
      then have a: "is_end w pi b a" by (simp add: end_files_def)
      then obtain f where "w_files w a = Some f" by (auto simp: is_end_def split: option.splits)
      then obtain t fd where "(t, fd) \<in> descriptors w a" using file_descriptors(1) [OF assms(1)] by fastforce
      then show False using d a by (auto simp: descriptors_def end_descriptors_def)
    qed
  qed
  finally show ?thesis .
qed

lemma pipe_get_open: "pi < PIPE_MAX \<Longrightarrow> 0 < end_count (g ! pi) b \<Longrightarrow> pipe_get_by_idx g (int pi) = Some (g ! pi)"
  by (auto simp: pipe_get_by_idx_def end_count_def Let_def split: if_splits)

lemma pipe_take_empty: "p_count p = 0 \<Longrightarrow> pipe_take n p = ([], p)"
  by (cases n) simp_all

lemma read_empty_eof:
  assumes "p_count p = 0" shows "fst (pipe_read_pass tk n nb p) = Returned 0 \<longleftrightarrow> p_wr_refcount p \<le> 0"
  using assms by (simp add: pipe_read_pass_def pipe_take_empty)

lemma write_no_sigpipe:
  assumes "0 < p_rd_refcount p" shows "Signal s n \<notin> set (snd (snd (snd (pipe_write_pass tk src tot nb p))))"
proof -
  obtain k p' where k: "pipe_put p src = (k, p')" by fastforce
  then have "0 < p_rd_refcount p'" using put_counts [OF k] assms by simp
  then show ?thesis by (auto simp: pipe_write_pass_def Let_def k wake_def)
qed



text \<open>
  C36: creating a pipe is all or nothing. When it fails, for want of a pipe, a slot, memory or a
  descriptor, the open files, the tables, the slots in use and the pipes in use are as before; when
  it succeeds the two descriptors were free and refer to the two ends of one pipe that was free.
\<close>

theorem pipe_alloc_atomic:
  assumes "fd_boot w" and "km_ok km" and "(fd_step env ops km)\<^sup>*\<^sup>* w w'" and "pipe_alloc km w' t = (r, w'')"
  shows "case r of
      None \<Rightarrow> w_files w'' = w_files w' \<and> w_tasks w'' = w_tasks w' \<and>
        (\<forall>k < FD_POOL_SIZE. if o_type (w_pool w' ! k) = FDT_FREE then o_type (w_pool w'' ! k) = FDT_FREE else w_pool w'' ! k = w_pool w' ! k) \<and>
        (\<forall>q < PIPE_MAX. w_pipes w'' ! q = w_pipes w' ! q \<or> (\<forall>b. end_count (w_pipes w' ! q) b = 0 \<and> end_count (w_pipes w'' ! q) b = 0))
    | Some (a, b) \<Rightarrow> 0 \<le> a \<and> 0 \<le> b \<and> new_pipe w' t (nat a) (nat b) w''"
proof -
  have "fd_inv w'" by (rule fd_run_inv [OF assms(3,2) fd_boot_inv [OF assms(1)]])
  from pipe_alloc_ok [OF this assms(2,4)] show ?thesis by (auto simp: pipe_outcome_def unchanged_def split: option.splits)
qed

theorem pipe_alloc_atomic_witness:
  "fst (pipe_alloc (\<lambda>_. 0) fd_start 0) = None \<and> w_files (snd (pipe_alloc (\<lambda>_. 0) fd_start 0)) = w_files fd_start \<and>
   w_tasks (snd (pipe_alloc (\<lambda>_. 0) fd_start 0)) = w_tasks fd_start"
proof -
  have f: "vfs_create_pipe_file (\<lambda>_. 0) v pi b fl = (- 24, 0, v)" for v pi b fl by (simp add: vfs_create_pipe_file_def vfs_alloc_file_def)
  have "fst (pipe_alloc_ends (\<lambda>_. 0) v 0 0 0 1) = None" for v by (simp add: pipe_alloc_ends_def f)
  then have n: "fst (pipe_alloc (\<lambda>_. 0) fd_start 0) = None"
    by (simp only: pipe_alloc_def Let_def fd_start_slots split_conv) simp
  show ?thesis
    using n pipe_alloc_atomic [OF fd_start_boot, of "\<lambda>_. 0" quiet_env no_ops fd_start 0 None "snd (pipe_alloc (\<lambda>_. 0) fd_start 0)"]
    by (simp add: km_ok_def prod_eq_iff)
qed

end
