(* ===== verification/Sv39.thy ===== *)
theory Sv39
  imports Memory Shared_Page "HOL-Library.Multiset"
begin

text \<open>
  The three-level page tables of RISC-V, \<^verbatim>\<open>kernel/mm/riscv64/vmm.c\<close>, \<^verbatim>\<open>include/riscv64/pte.h\<close>,
  \<^verbatim>\<open>mmu.h\<close>, \<^verbatim>\<open>mm_vm.h\<close> and \<^verbatim>\<open>satp_utils.h\<close>. Tables are pages of byte-addressed physical memory,
  which the kernel reaches through its linear map, so a pointer to an entry is the entry's physical
  address. The walk takes the pages of new tables from the physical page allocator. A failed
  assertion of the allocator is \<open>None\<close>; a NULL pointer of the walk is an inner \<open>None\<close>. The
  translation cache is not part of the state.
\<close>

unbundle bit_operations_syntax

section \<open>State and operations\<close>

datatype vm_perm_t = VM_PERM_USER | VM_PERM_KERNEL | VM_PERM_KERNEL_MMIO

record vm_state =
  v_mem :: mem
  v_pm :: pmm_t
  v_sp :: shared_pages

definition ld64 :: "mem \<Rightarrow> u64 \<Rightarrow> u64" where
  "ld64 m a = load_le 8 m a"

definition st64 :: "mem \<Rightarrow> u64 \<Rightarrow> u64 \<Rightarrow> mem" where
  "st64 m a v = store_le 8 m a v"

definition RV_VPN :: "u64 \<Rightarrow> nat \<Rightarrow> u64" where
  "RV_VPN v level = drop_bit (12 + 9 * level) v AND 511"

definition RV_PTE_FROM_PA :: "u64 \<Rightarrow> u64 \<Rightarrow> u64" where
  "RV_PTE_FROM_PA pa flags = push_bit 10 (drop_bit 12 pa) OR flags"

definition rv_pte_to_pa :: "u64 \<Rightarrow> u64" where
  "rv_pte_to_pa e = push_bit 12 (drop_bit 10 e AND 0xFFFFFFFFFFF)"

definition rv_make_table_pte :: "u64 \<Rightarrow> u64" where
  "rv_make_table_pte pa = RV_PTE_FROM_PA pa 1"

definition rv_pte_is_leaf :: "u64 \<Rightarrow> bool" where
  "rv_pte_is_leaf e \<longleftrightarrow> e AND (0x2 OR 0x4 OR 0x8) \<noteq> 0"

text \<open>Entry \<open>i\<close> of the table at \<open>t\<close>.\<close>

definition ent :: "u64 \<Rightarrow> u64 \<Rightarrow> u64" where
  "ent t i = t + 8 * i"

text \<open>One level of the walk, from the entry at \<open>e\<close> to the next table.\<close>

definition rv_walk_level :: "vm_state \<Rightarrow> u64 \<Rightarrow> bool \<Rightarrow> (u64 option \<times> vm_state) option" where
  "rv_walk_level s e alloc =
     do {
       (ok, s) \<leftarrow>
         (if ld64 (v_mem s) e AND 1 = 0
          then if \<not> alloc then Some (False, s)
               else do {
                 (pa, pm) \<leftarrow> pmm_alloc_pages (v_pm s) 1;
                 let s = s\<lparr>v_pm := pm\<rparr>;
                 if pa = 0 then Some (False, s)
                 else Some (True, s\<lparr>v_mem := st64 (memset (v_mem s) pa 0 4096) e (rv_make_table_pte pa)\<rparr>)
               }
          else Some (True, s));
       if \<not> ok \<or> rv_pte_is_leaf (ld64 (v_mem s) e) then Some (None, s)
       else Some (Some (rv_pte_to_pa (ld64 (v_mem s) e)), s)
     }"

definition rv_walk_l0_pte :: "vm_state \<Rightarrow> u64 \<Rightarrow> u64 \<Rightarrow> bool \<Rightarrow> (u64 option \<times> vm_state) option" where
  "rv_walk_l0_pte s page_dir vaddr alloc =
     do {
       (l1, s) \<leftarrow> rv_walk_level s (ent page_dir (RV_VPN vaddr 2)) alloc;
       case l1 of
         None \<Rightarrow> Some (None, s)
       | Some l1 \<Rightarrow> do {
           (l0, s) \<leftarrow> rv_walk_level s (ent l1 (RV_VPN vaddr 1)) alloc;
           case l0 of None \<Rightarrow> Some (None, s) | Some l0 \<Rightarrow> Some (Some (ent l0 (RV_VPN vaddr 0)), s)
         }
     }"

text \<open>The memory attributes depend on the platform: \<open>sg\<close> is the SG2002.\<close>

definition rv_perm_to_flags :: "bool \<Rightarrow> vm_perm_t \<Rightarrow> u64" where
  "rv_perm_to_flags sg perm =
     (case perm of
        VM_PERM_KERNEL \<Rightarrow> 0x2 OR 0x4 OR 0x8 OR 0x40 OR 0x80 OR (if sg then 0x7000000000000000 else 0)
      | VM_PERM_KERNEL_MMIO \<Rightarrow> 0x2 OR 0x4 OR 0x40 OR 0x80 OR (if sg then 0x9000000000000000 else 0)
      | VM_PERM_USER \<Rightarrow> 0x2 OR 0x4 OR 0x8 OR 0x10 OR 0x40 OR 0x80 OR (if sg then 0x7000000000000000 else 0))"

definition mm_vm_get_pte :: "vm_state \<Rightarrow> u64 \<Rightarrow> u64 \<Rightarrow> u64 option" where
  "mm_vm_get_pte s page_dir vaddr =
     do {
       (pte, s) \<leftarrow> rv_walk_l0_pte s page_dir vaddr False;
       Some (case pte of None \<Rightarrow> 0 | Some a \<Rightarrow> ld64 (v_mem s) a)
     }"

primrec map_loop :: "nat \<Rightarrow> vm_state \<Rightarrow> u64 \<Rightarrow> u64 \<Rightarrow> u64 \<Rightarrow> u64 \<Rightarrow> (int \<times> vm_state) option" where
  "map_loop 0 s page_dir vaddr pa flags = Some (0, s)"
| "map_loop (Suc n) s page_dir vaddr pa flags =
     do {
       (pte, s) \<leftarrow> rv_walk_l0_pte s page_dir vaddr True;
       case pte of
         None \<Rightarrow> Some (- 1, s)
       | Some a \<Rightarrow>
           if ld64 (v_mem s) a AND 1 \<noteq> 0 then Some (- 1, s)
           else map_loop n (s\<lparr>v_mem := st64 (v_mem s) a (RV_PTE_FROM_PA pa (flags OR 1))\<rparr>)
                  page_dir (vaddr + 4096) (pa + 4096) flags
     }"

definition mm_vm_map_pages :: "bool \<Rightarrow> vm_state \<Rightarrow> u64 \<Rightarrow> u64 \<Rightarrow> u64 \<Rightarrow> int \<Rightarrow> vm_perm_t \<Rightarrow> (int \<times> vm_state) option" where
  "mm_vm_map_pages sg s page_dir vaddr paddr page_count perm =
     map_loop (nat page_count) s page_dir vaddr paddr (rv_perm_to_flags sg perm)"

definition mm_vm_get_paddr :: "vm_state \<Rightarrow> u64 \<Rightarrow> u64 \<Rightarrow> u64 option" where
  "mm_vm_get_paddr s page_dir vaddr =
     do {
       (pte, s) \<leftarrow> rv_walk_l0_pte s page_dir vaddr False;
       Some (case pte of
               None \<Rightarrow> 0
             | Some a \<Rightarrow>
                 let e = ld64 (v_mem s) a
                 in if e AND 1 = 0 \<or> \<not> rv_pte_is_leaf e then 0 else rv_pte_to_pa e + (vaddr AND (PAGE_SIZE - 1)))
     }"

text \<open>Copying into user memory goes page by page and stops at the first page that is not mapped.\<close>

definition copy_chunk :: "u64 \<Rightarrow> u64 \<Rightarrow> u64" where
  "copy_chunk user_vaddr left =
     (let chunk = PAGE_SIZE - (user_vaddr AND (PAGE_SIZE - 1)) in if chunk > left then left else chunk)"

lemma copy_chunk_bounds: "0 < left \<Longrightarrow> 0 < copy_chunk va left \<and> copy_chunk va left \<le> left"
proof -
  have "va AND (PAGE_SIZE - 1) \<le> PAGE_SIZE - 1" by (rule word_and_le1)
  then have "PAGE_SIZE - (va AND (PAGE_SIZE - 1)) \<noteq> 0" by auto
  then show "0 < left \<Longrightarrow> ?thesis" by (auto simp: copy_chunk_def Let_def word_gt_0)
qed

lemma copy_chunk_less: "left \<noteq> 0 \<Longrightarrow> unat (left - copy_chunk va left) < unat left"
  using copy_chunk_bounds [of left va] unat_sub [of "copy_chunk va left" left] unat_gt_0 [of left]
  by (auto simp: word_less_nat_alt word_le_nat_alt)

function mm_vm_copy_to_uva :: "vm_state \<Rightarrow> u64 \<Rightarrow> u64 \<Rightarrow> u64 \<Rightarrow> u64 \<Rightarrow> vm_state option" where
  "mm_vm_copy_to_uva s pgd user_vaddr src left =
     (if left = 0 then Some s
      else do {
        dst_pa \<leftarrow> mm_vm_get_paddr s pgd user_vaddr;
        if dst_pa = 0 then Some s
        else let chunk = copy_chunk user_vaddr left
             in mm_vm_copy_to_uva (s\<lparr>v_mem := memcpy (v_mem s) dst_pa src chunk\<rparr>) pgd (user_vaddr + chunk) (src + chunk) (left - chunk)
      })"
  by pat_completeness auto
termination
  by (relation "measure (\<lambda>(s, pgd, va, src, left). unat left)") (auto simp: copy_chunk_less)

declare mm_vm_copy_to_uva.simps [simp del]

definition mm_vm_set_pte_keep :: "vm_state \<Rightarrow> u64 \<Rightarrow> u64 \<Rightarrow> vm_state option" where
  "mm_vm_set_pte_keep s pgd vaddr =
     do {
       (pte, s) \<leftarrow> rv_walk_l0_pte s pgd vaddr False;
       Some (case pte of None \<Rightarrow> s | Some a \<Rightarrow> s\<lparr>v_mem := st64 (v_mem s) a (ld64 (v_mem s) a OR 0x200)\<rparr>)
     }"

text \<open>What happens to the page of a leaf that goes away: a device buffer stays with its owner, a shared
  page loses a reference, any other page is released.\<close>

definition rv_drop_leaf :: "vm_state \<Rightarrow> u64 \<Rightarrow> vm_state option" where
  "rv_drop_leaf s pte =
     (if pte AND 0x200 \<noteq> 0 then Some s
      else if pte AND 0x100 = 0
      then do { (b, pm) \<leftarrow> pmm_free_pages (v_pm s) (rv_pte_to_pa pte) 1; Some (s\<lparr>v_pm := pm\<rparr>) }
      else do { (sp, pm) \<leftarrow> shared_page_unref (v_sp s) (v_pm s) (rv_pte_to_pa pte); Some (s\<lparr>v_sp := sp, v_pm := pm\<rparr>) })"

definition mm_vm_unmap_page :: "vm_state \<Rightarrow> u64 \<Rightarrow> u64 \<Rightarrow> (int \<times> vm_state) option" where
  "mm_vm_unmap_page s pgd vaddr =
     do {
       (pte, s) \<leftarrow> rv_walk_l0_pte s pgd vaddr False;
       case pte of
         None \<Rightarrow> Some (0, s)
       | Some a \<Rightarrow>
           let e = ld64 (v_mem s) a
           in if e AND 1 = 0 \<or> \<not> rv_pte_is_leaf e then Some (0, s)
              else do { s \<leftarrow> rv_drop_leaf s e; Some (1, s\<lparr>v_mem := st64 (v_mem s) a 0\<rparr>) }
     }"

text \<open>
  Destroying a table frees what its entries \<open>is\<close> refer to, children first. The recursion follows the
  entries and nothing in the code bounds its depth; \<open>n\<close> bounds it here, and \<open>None\<close> stands for a
  recursion that goes deeper.
\<close>

fun rv_destroy_table :: "nat \<Rightarrow> vm_state \<Rightarrow> u64 \<Rightarrow> nat list \<Rightarrow> vm_state option" where
  "rv_destroy_table n s table [] = Some s"
| "rv_destroy_table n s table (i # is) =
     (let pte = ld64 (v_mem s) (ent table (of_nat i))
      in if pte AND 1 = 0 then rv_destroy_table n s table is
         else if rv_pte_is_leaf pte
         then do {
           s \<leftarrow> rv_drop_leaf s pte;
           rv_destroy_table n (s\<lparr>v_mem := st64 (v_mem s) (ent table (of_nat i)) 0\<rparr>) table is
         }
         else case n of
           0 \<Rightarrow> None
         | Suc k \<Rightarrow> do {
             let child_pa = rv_pte_to_pa pte;
             s \<leftarrow> rv_destroy_table k s child_pa [0..<512];
             (b, pm) \<leftarrow> pmm_free_pages (v_pm s) child_pa 1;
             rv_destroy_table n (s\<lparr>v_pm := pm, v_mem := st64 (v_mem s) (ent table (of_nat i)) 0\<rparr>) table is
           })"

text \<open>The loop over the user half of the root table; a leaf here is released whatever its flags.\<close>

primrec destroy_root :: "nat \<Rightarrow> vm_state \<Rightarrow> u64 \<Rightarrow> nat list \<Rightarrow> vm_state option" where
  "destroy_root n s root [] = Some s"
| "destroy_root n s root (i # is) =
     (let pte = ld64 (v_mem s) (ent root (of_nat i))
      in if pte AND 1 = 0 then destroy_root n s root is
         else do {
           let child_pa = rv_pte_to_pa pte;
           s \<leftarrow> (if rv_pte_is_leaf pte then Some s else rv_destroy_table n s child_pa [0..<512]);
           (b, pm) \<leftarrow> pmm_free_pages (v_pm s) child_pa 1;
           destroy_root n (s\<lparr>v_pm := pm, v_mem := st64 (v_mem s) (ent root (of_nat i)) 0\<rparr>) root is
         })"

definition mm_vm_destroy_user_space :: "nat \<Rightarrow> vm_state \<Rightarrow> u64 \<Rightarrow> vm_state option" where
  "mm_vm_destroy_user_space n s pgd_phys =
     (if pgd_phys = 0 then Some s
      else do {
        s \<leftarrow> destroy_root n s pgd_phys [0..<256];
        (b, pm) \<leftarrow> pmm_free_pages (v_pm s) pgd_phys 1;
        Some (s\<lparr>v_pm := pm\<rparr>)
      })"

text \<open>
  The kernel's part of an address space: the entries of its 1 GiB windows, the addresses \<open>maps\<close> of
  \<^verbatim>\<open>RV_KERNEL_MAP_LIST\<close> on a platform with the given RAM. The boot-time check is an assertion.
\<close>

definition RV_KERNEL_MAP_LIST :: "u64 \<Rightarrow> u64 \<Rightarrow> u64 list" where
  "RV_KERNEL_MAP_LIST ram_base ram_size =
     [0x00000000, 0x40000000, ram_base] @ (if ram_size > 0x40000000 then [ram_base + 0x40000000] else [])"

definition RV_KERNEL_HIGH_INDEX :: "u64 \<Rightarrow> u64" where
  "RV_KERNEL_HIGH_INDEX pa = (drop_bit 30 0xffffffc000000000 AND (512 - 1)) + drop_bit 30 pa"

definition mm_vm_verify_kernel_mappings :: "u64 list \<Rightarrow> vm_state \<Rightarrow> u64 \<Rightarrow> bool" where
  "mm_vm_verify_kernel_mappings maps s kernel_l1 \<longleftrightarrow>
     (\<forall>pa \<in> set maps. ld64 (v_mem s) (ent kernel_l1 (RV_KERNEL_HIGH_INDEX pa)) AND 1 \<noteq> 0 \<and>
        rv_pte_is_leaf (ld64 (v_mem s) (ent kernel_l1 (RV_KERNEL_HIGH_INDEX pa))))"

definition riscv64_copy_kernel_mappings :: "u64 list \<Rightarrow> u64 \<Rightarrow> u64 \<Rightarrow> mem \<Rightarrow> mem" where
  "riscv64_copy_kernel_mappings maps user_l1 kernel_l1 =
     fold (\<lambda>pa m. st64 m (ent user_l1 (RV_KERNEL_HIGH_INDEX pa)) (ld64 m (ent kernel_l1 (RV_KERNEL_HIGH_INDEX pa)))) maps"

definition mm_vm_init_user_pgd :: "u64 list \<Rightarrow> u64 \<Rightarrow> u64 \<Rightarrow> vm_state \<Rightarrow> vm_state" where
  "mm_vm_init_user_pgd maps kernel_pgd pgd s = s\<lparr>v_mem := riscv64_copy_kernel_mappings maps pgd kernel_pgd (v_mem s)\<rparr>"

section \<open>Entries in memory\<close>

lemma block_unique:
  fixes a b n :: nat
  assumes "a mod n = 0" "b mod n = 0" "a \<noteq> b" shows "a + n \<le> b \<or> b + n \<le> a"
proof -
  obtain c d where cd: "a = n * c" "b = n * d" using assms(1,2) by (metis dvdE mod_0_imp_dvd)
  then have "Suc c \<le> d \<or> Suc d \<le> c" using assms(3) by auto
  then have "n * Suc c \<le> n * d \<or> n * Suc d \<le> n * c" by (meson mult_le_mono2)
  then show ?thesis using cd by (simp add: add.commute)
qed

lemma aligned8_disjoint:
  assumes "unat a mod 8 = 0" "unat b mod 8 = 0" "a \<noteq> b" "unat a < 2 ^ 63" "unat b < 2 ^ 63"
  shows "span a 8 \<inter> span b 8 = {}"
proof -
  have d: "span (x :: u64) 8 \<inter> span y 8 = {}" if "unat x + 8 \<le> unat y" "unat y < 2 ^ 63" for x y
    using span_offset [of "unat x" 8 "unat y" 8 0] that by simp
  have "unat a \<noteq> unat b" using assms(3) by (simp add: word_unat_eq_iff)
  then have "unat a + 8 \<le> unat b \<or> unat b + 8 \<le> unat a" using assms(1,2) by (intro block_unique)
  then show ?thesis using d [of a b] d [of b a] assms(4,5) by (auto simp: Int_commute)
qed

lemma ld_st:
  assumes "unat a mod 8 = 0" "unat b mod 8 = 0" "unat a < 2 ^ 63" "unat b < 2 ^ 63"
  shows "ld64 (st64 m a v) b = (if b = a then v else ld64 m b)"
proof (cases "b = a")
  case True
  then show ?thesis using load_store_le [of 8 m a v] by (simp add: ld64_def st64_def)
next
  case False
  then show ?thesis using aligned8_disjoint [of b a] assms load_store_le_disjoint [of b 8 a 8 m v] by (simp add: ld64_def st64_def)
qed

lemma load_le_zero: "(\<And>x. x \<in> span a n \<Longrightarrow> m x = 0) \<Longrightarrow> n < 2 ^ 64 \<Longrightarrow> load_le n m a = 0"
  by (induction n m a rule: load_le.induct) (simp_all add: span_Suc)

text \<open>A page-aligned address below \<open>2 ^ 56\<close>: what an entry can name.\<close>

definition frame :: "u64 \<Rightarrow> bool" where
  "frame t \<longleftrightarrow> unat t mod 4096 = 0 \<and> unat t < 2 ^ 56"

lemma frame_unique:
  assumes "frame t" "frame t'" "r < 4096" "unat t' \<le> unat t + r" "unat t + r < unat t' + 4096" shows "unat t = unat t'"
proof (rule ccontr)
  assume "unat t \<noteq> unat t'"
  then have "unat t + 4096 \<le> unat t' \<or> unat t' + 4096 \<le> unat t" using assms(1,2) by (intro block_unique) (simp_all add: frame_def)
  then show False using assms(3-5) by linarith
qed

lemma unat_ent: "frame t \<Longrightarrow> i < 512 \<Longrightarrow> unat (ent t (of_nat i)) = unat t + 8 * i"
  by (simp add: ent_def frame_def unat_word_ariths unat_of_nat)

lemma ent_eq: "frame t \<Longrightarrow> frame t' \<Longrightarrow> i < 512 \<Longrightarrow> j < 512 \<Longrightarrow> ent t (of_nat i) = ent t' (of_nat j) \<longleftrightarrow> t = t' \<and> i = j"
proof -
  assume a: "frame t" "frame t'" "i < 512" "j < 512"
  have "ent t (of_nat i) = ent t' (of_nat j) \<longleftrightarrow> unat t + 8 * i = unat t' + 8 * j"
    using a by (simp add: word_unat_eq_iff unat_ent)
  also have "\<dots> \<longleftrightarrow> unat t = unat t' \<and> i = j"
    using a frame_unique [of t t' "8 * i"] by auto
  finally show ?thesis by (simp add: word_unat_eq_iff)
qed

lemma ent_aligned: "frame t \<Longrightarrow> i < 512 \<Longrightarrow> unat (ent t (of_nat i)) mod 8 = 0 \<and> unat (ent t (of_nat i)) < 2 ^ 63"
proof -
  assume a: "frame t" "i < 512"
  then have "unat t = 8 * (512 * (unat t div 4096))" by (simp add: frame_def) (metis div_mult_mod_eq add.right_neutral mult.commute)
  then have "(unat t + 8 * i) mod 8 = 0" by (metis mod_mult_self1_is_0 mod_add_eq mult_0_right add_0 mod_mult_self2 mult.commute)
  then show ?thesis using a by (simp add: unat_ent frame_def)
qed

lemma ld_st_ent:
  "frame t \<Longrightarrow> frame t' \<Longrightarrow> i < 512 \<Longrightarrow> j < 512 \<Longrightarrow>
   ld64 (st64 m (ent t (of_nat i)) v) (ent t' (of_nat j)) = (if t' = t \<and> j = i then v else ld64 m (ent t' (of_nat j)))"
  using ld_st [of "ent t (of_nat i)" "ent t' (of_nat j)" m v] ent_aligned [of t i] ent_aligned [of t' j] ent_eq [of t' t j i] by auto

lemma span_frame:
  assumes "frame t" "frame pa" "i < 512" "x \<in> span (ent t (of_nat i)) 8"
  shows "x \<in> span pa 4096 \<longleftrightarrow> t = pa"
proof -
  define k where "k = unat (x - ent t (of_nat i))"
  have k: "k < 8" using assms(4) by (simp add: span_def k_def)
  have "x = ent t (of_nat i) + of_nat k" by (simp add: k_def)
  then have x: "unat x = unat t + 8 * i + k" using assms(1,3) k unat_ent [OF assms(1,3)]
    by (simp add: unat_word_ariths unat_of_nat frame_def)
  have "x \<in> span pa 4096 \<longleftrightarrow> unat pa \<le> unat x \<and> unat x < unat pa + 4096"
  proof (cases "pa \<le> x")
    case True
    then have "unat (x - pa) = unat x - unat pa" by (simp add: unat_sub)
    then show ?thesis using True by (auto simp: span_def word_le_nat_alt)
  next
    case False
    then have "unat x < unat pa" by (simp add: word_le_nat_alt)
    then have "unat (x - pa) = 2 ^ 64 + unat x - unat pa" using unat_lt64 [of pa] by (simp add: unat_sub_if')
    then have "\<not> unat (x - pa) < 4096" using assms(2) by (simp add: frame_def) linarith
    then show ?thesis using \<open>unat x < unat pa\<close> by (simp add: span_def)
  qed
  also have "\<dots> \<longleftrightarrow> unat t = unat pa" using x k assms(1-3) frame_unique [of t pa "8 * i + k"] by auto
  finally show ?thesis by (simp add: word_unat_eq_iff)
qed

lemma ld_memset_ent:
  assumes "frame t" "frame pa" "i < 512"
  shows "ld64 (memset m pa 0 4096) (ent t (of_nat i)) = (if t = pa then 0 else ld64 m (ent t (of_nat i)))"
proof (cases "t = pa")
  case True
  then show ?thesis using span_frame [OF assms] memset_span [of _ pa 4096 m 0] by (simp add: ld64_def load_le_zero)
next
  case False
  then have "mem_eq_on (span (ent t (of_nat i)) 8) (memset m pa 0 4096) m"
    using span_frame [OF assms] memset_other [of _ pa 4096 m 0] by (simp add: mem_eq_on_def)
  then show ?thesis using False by (simp add: ld64_def load_le_cong)
qed

section \<open>The entry format\<close>

definition flags_ok :: "u64 \<Rightarrow> bool" where
  "flags_ok fl \<longleftrightarrow> fl AND 0x3FFFFFFFFFFC00 = 0"

lemma flags_ok_bit: "flags_ok fl \<Longrightarrow> 10 \<le> k \<Longrightarrow> k < 54 \<Longrightarrow> \<not> bit fl k"
proof -
  assume a: "flags_ok fl" "10 \<le> k" "k < 54"
  have "(0x3FFFFFFFFFFC00 :: u64) = push_bit 10 (mask 44)" by (simp add: mask_eq_exp_minus_1 push_bit_eq_mult)
  then have "\<not> bit (fl AND push_bit 10 (mask 44)) k" using a(1) by (simp add: flags_ok_def)
  then show ?thesis using a(2,3) by (auto simp: bit_simps)
qed

lemma bit_pte_to_pa: "bit (rv_pte_to_pa e) n \<longleftrightarrow> 12 \<le> n \<and> n < 56 \<and> bit e (n - 2)"
proof -
  have m: "(0xFFFFFFFFFFF :: u64) = mask 44" by (simp add: mask_eq_exp_minus_1)
  show ?thesis unfolding rv_pte_to_pa_def m by (auto simp: bit_push_bit_iff bit_and_iff bit_mask_iff bit_drop_bit_eq dest: bit_imp_le_length)
qed

lemma frame_bits: "frame t \<longleftrightarrow> (\<forall>n. bit t n \<longrightarrow> 12 \<le> n \<and> n < 56)"
proof
  assume f: "frame t"
  show "\<forall>n. bit t n \<longrightarrow> 12 \<le> n \<and> n < 56"
  proof (intro allI impI)
    fix n assume b: "bit t n"
    have "take_bit 12 t = 0" using f by (simp add: frame_def take_bit_eq_mod word_unat_eq_iff unat_mod)
    then have "\<not> bit (take_bit 12 t) n" by simp
    then have "12 \<le> n" using b by (auto simp: bit_take_bit_iff)
    moreover have "t = take_bit 56 t" using f by (simp add: frame_def take_bit_eq_mod word_unat_eq_iff unat_mod)
    then have "n < 56" using b by (metis bit_take_bit_iff)
    ultimately show "12 \<le> n \<and> n < 56" ..
  qed
next
  assume b: "\<forall>n. bit t n \<longrightarrow> 12 \<le> n \<and> n < 56"
  have "take_bit 12 t = 0" "take_bit 56 t = t" using b by (auto intro!: bit_word_eqI simp: bit_simps)
  then show "frame t" by (simp add: frame_def take_bit_eq_mod word_unat_eq_iff unat_mod)
qed

lemma pte_to_pa_frame: "frame (rv_pte_to_pa e)"
  by (auto simp: frame_bits bit_pte_to_pa)

lemma pte_from_to: "frame pa \<Longrightarrow> flags_ok fl \<Longrightarrow> rv_pte_to_pa (RV_PTE_FROM_PA pa fl) = pa"
proof -
  assume a: "frame pa" "flags_ok fl"
  have "bit (rv_pte_to_pa (RV_PTE_FROM_PA pa fl)) n \<longleftrightarrow> bit pa n" for n
  proof (cases "12 \<le> n \<and> n < 56")
    case True
    then have "\<not> bit fl (n - 2)" using a(2) by (intro flags_ok_bit) auto
    then show ?thesis using True by (auto simp: bit_pte_to_pa RV_PTE_FROM_PA_def bit_simps)
  next
    case False
    then show ?thesis using a(1) by (auto simp: bit_pte_to_pa frame_bits)
  qed
  then show ?thesis by (intro bit_word_eqI) simp
qed

lemma pte_low_bits:
  assumes "take_bit 10 x = x" shows "RV_PTE_FROM_PA pa fl AND x = fl AND x"
proof (rule bit_word_eqI)
  fix n
  assume n: "n < LENGTH(64)"
  have "n < 10" if "bit x n" using that bit_take_bit_iff [of 10 x n] unfolding assms by simp
  then show "bit (RV_PTE_FROM_PA pa fl AND x) n = bit (fl AND x) n"
    unfolding RV_PTE_FROM_PA_def bit_and_iff bit_or_iff bit_push_bit_iff by auto
qed

section \<open>The tree of tables\<close>

definition table_pte :: "u64 \<Rightarrow> bool" where
  "table_pte e \<longleftrightarrow> e AND 1 \<noteq> 0 \<and> \<not> rv_pte_is_leaf e"

text \<open>The table reached from table \<open>t\<close> through the entries \<open>is\<close>.\<close>

fun tab :: "mem \<Rightarrow> u64 \<Rightarrow> nat list \<Rightarrow> u64 option" where
  "tab m t [] = Some t"
| "tab m t (i # is) =
     (let e = ld64 m (ent t (of_nat i)) in if table_pte e then tab m (rv_pte_to_pa e) is else None)"

definition path :: "nat list \<Rightarrow> bool" where
  "path p \<longleftrightarrow> length p \<le> 2 \<and> (\<forall>i \<in> set p. i < 512)"

text \<open>The tables are frames that the allocator has handed out, all different.\<close>

definition tree_ok :: "mem \<Rightarrow> u64 \<Rightarrow> nat set \<Rightarrow> bool" where
  "tree_ok m root held \<longleftrightarrow>
     (\<forall>p t. path p \<and> tab m root p = Some t \<longrightarrow> frame t \<and> unat t \<in> held) \<and>
     (\<forall>p q t. path p \<and> path q \<and> tab m root p = Some t \<and> tab m root q = Some t \<longrightarrow> p = q)"

definition pm_ok :: "pmm_t \<Rightarrow> bool" where
  "pm_ok pm \<longleftrightarrow> pmm_ready pm \<and> unat (start_addr pm) + unat (total_size pm) \<le> 2 ^ 56"

definition pt_ok :: "vm_state \<Rightarrow> u64 \<Rightarrow> bool" where
  "pt_ok s root \<longleftrightarrow> pm_ok (v_pm s) \<and> tree_ok (v_mem s) root (pmm_held (v_pm s))"

lemma path_Nil [simp]: "path []"
  by (simp add: path_def)

lemma path_snoc: "path (p @ [k]) \<longleftrightarrow> length p \<le> 1 \<and> path p \<and> k < 512"
  by (auto simp: path_def)

lemma path_append: "path (p @ q) \<Longrightarrow> path p"
  by (auto simp: path_def)

lemma tree_frame: "tree_ok m root held \<Longrightarrow> path p \<Longrightarrow> tab m root p = Some t \<Longrightarrow> frame t \<and> unat t \<in> held"
  by (simp add: tree_ok_def)

lemma tree_inj: "tree_ok m root held \<Longrightarrow> path p \<Longrightarrow> path q \<Longrightarrow> tab m root p = Some t \<Longrightarrow> tab m root q = Some t \<Longrightarrow> p = q"
  unfolding tree_ok_def by blast

lemma tab_append: "tab m t (p @ q) = (case tab m t p of None \<Rightarrow> None | Some u \<Rightarrow> tab m u q)"
  by (induction p arbitrary: t) (simp_all add: Let_def)

lemma tab_frame:
  assumes "\<And>p i r t. q = p @ i # r \<Longrightarrow> tab m root p = Some t \<Longrightarrow> ld64 m' (ent t (of_nat i)) = ld64 m (ent t (of_nat i))"
  shows "tab m' root q = tab m root q"
  using assms
proof (induction q arbitrary: root)
  case (Cons i q)
  have e: "ld64 m' (ent root (of_nat i)) = ld64 m (ent root (of_nat i))" using Cons.prems [of "[]" i q root] by simp
  show ?case
  proof (cases "table_pte (ld64 m (ent root (of_nat i)))")
    case True
    then have "tab m' (rv_pte_to_pa (ld64 m (ent root (of_nat i)))) q = tab m (rv_pte_to_pa (ld64 m (ent root (of_nat i)))) q"
      by (intro Cons.IH) (simp add: Cons.prems [of "i # _"])
    then show ?thesis using True e by simp
  qed (simp add: e)
qed simp

text \<open>A write to an entry of a table moves only what lies below that entry.\<close>

lemma tab_write:
  assumes t: "tree_ok m root held" and p: "path p" "tab m root p = Some t" "k < 512"
    and q: "path q" "\<And>r. q \<noteq> p @ k # r"
    and m': "\<And>u i. frame u \<Longrightarrow> unat u \<in> held \<Longrightarrow> i < 512 \<Longrightarrow> (u, i) \<noteq> (t, k) \<Longrightarrow> ld64 m' (ent u (of_nat i)) = ld64 m (ent u (of_nat i))"
  shows "tab m' root q = tab m root q"
proof (rule tab_frame)
  fix q1 i r u assume s: "q = q1 @ i # r" "tab m root q1 = Some u"
  have q1: "path q1" "i < 512" using q(1) path_append [of q1] s(1) by (auto simp: path_def)
  have "(u, i) \<noteq> (t, k)" using tree_inj [OF t p(1) q1(1) p(2)] s q(2) by auto
  then show "ld64 m' (ent u (of_nat i)) = ld64 m (ent u (of_nat i))" using m' tree_frame [OF t q1(1) s(2)] q1(2) by simp
qed

text \<open>A leaf entry is at the end of a path of length three.\<close>

lemma leaf_write_ok:
  fixes v :: u64
  assumes t: "tree_ok m root held" and p: "path p" "length p = 2" "tab m root p = Some t" "k < 512"
  defines "m' \<equiv> st64 m (ent t (of_nat k)) v"
  shows "path q \<Longrightarrow> tab m' root q = tab m root q" "tree_ok m' root held"
    "path q \<Longrightarrow> length q = 2 \<Longrightarrow> tab m root q = Some u \<Longrightarrow> i < 512 \<Longrightarrow>
     ld64 m' (ent u (of_nat i)) = (if q = p \<and> i = k then v else ld64 m (ent u (of_nat i)))"
proof -
  have ft: "frame t" using tree_frame [OF t p(1,3)] by simp
  have l: "ld64 m' (ent u (of_nat i)) = (if u = t \<and> i = k then v else ld64 m (ent u (of_nat i)))" if "frame u" "i < 512" for u i
    unfolding m'_def using ld_st_ent [OF ft that(1) p(4) that(2)] by simp
  show tq: "tab m' root q = tab m root q" if "path q" for q
    using that p(2) by (intro tab_write [OF t p(1,3,4) that]) (auto simp: path_def l)
  show "tree_ok m' root held" using t tq unfolding tree_ok_def by metis
  show "ld64 m' (ent u (of_nat i)) = (if q = p \<and> i = k then v else ld64 m (ent u (of_nat i)))"
    if q: "path q" "length q = 2" "tab m root q = Some u" "i < 512"
    using l [of u i] tree_frame [OF t q(1,3)] tree_inj [OF t p(1) q(1) p(3)] q p(3) by auto
qed

text \<open>A new, empty table below an entry that was invalid.\<close>

lemma new_table_pte: "frame pa \<Longrightarrow> table_pte (rv_make_table_pte pa) \<and> rv_pte_to_pa (rv_make_table_pte pa) = pa"
  by (simp add: table_pte_def rv_make_table_pte_def rv_pte_is_leaf_def pte_low_bits pte_from_to flags_ok_def)

lemma new_table_ok:
  assumes t: "tree_ok m root held" and p: "path p" "length p \<le> 1" "tab m root p = Some t" "k < 512"
    and inv: "\<not> table_pte (ld64 m (ent t (of_nat k)))" and pa: "frame pa" "unat pa \<notin> held"
  defines "m' \<equiv> st64 (memset m pa 0 4096) (ent t (of_nat k)) (rv_make_table_pte pa)"
  shows "path q \<Longrightarrow> tab m' root q = (if q = p @ [k] then Some pa else tab m root q)"
    "tree_ok m' root (insert (unat pa) held)"
    "frame u \<Longrightarrow> i < 512 \<Longrightarrow> ld64 m' (ent u (of_nat i)) =
       (if u = t \<and> i = k then rv_make_table_pte pa else if u = pa then 0 else ld64 m (ent u (of_nat i)))"
proof -
  have ft: "frame t" "unat t \<in> held" using tree_frame [OF t p(1,3)] by simp_all
  show l: "ld64 m' (ent u (of_nat i)) =
       (if u = t \<and> i = k then rv_make_table_pte pa else if u = pa then 0 else ld64 m (ent u (of_nat i)))" if "frame u" "i < 512" for u i
    unfolding m'_def using ld_st_ent [OF ft(1) that(1) p(4) that(2)] ld_memset_ent [OF that(1) pa(1) that(2)] by auto
  have other: "tab m' root q = tab m root q" if "path q" "\<And>r. q \<noteq> p @ k # r" for q
    using that pa(2) by (intro tab_write [OF t p(1,3,4) that]) (auto simp: l)
  have tk: "tab m' t (k # r) = tab m' pa r" for r
    using l [OF ft(1) p(4)] new_table_pte [OF pa(1)] by simp
  have below: "tab m' pa r = None" if "r \<noteq> []" "\<forall>i \<in> set r. i < 512" for r
    using that l [OF pa(1)] ft(2) pa(2) by (cases r) (auto simp: table_pte_def)
  have before: "tab m root (p @ k # r) = None" for r using p(3) inv by (simp add: tab_append)
  show q: "tab m' root q = (if q = p @ [k] then Some pa else tab m root q)" if "path q" for q
  proof (cases "\<exists>r. q = p @ k # r")
    case True
    then obtain r where r: "q = p @ k # r" ..
    have "tab m' root p = Some t" using other [OF p(1)] p(3) by simp
    then have "tab m' root q = tab m' pa r" unfolding r tab_append by (simp only: tk option.case)
    then show ?thesis using r below before that by (cases "r = []") (auto simp: path_def)
  qed (use other [OF that] in auto)
  show "tree_ok m' root (insert (unat pa) held)"
    unfolding tree_ok_def using q t pa tree_frame [OF t] tree_inj [OF t] by (auto split: if_splits)
qed

declare tab.simps(2) [simp del]

lemma tab_one: "tab m t [k] = (let e = ld64 m (ent t (of_nat k)) in if table_pte e then Some (rv_pte_to_pa e) else None)"
  by (simp add: tab.simps Let_def)

section \<open>The walk\<close>

lemma held_bound:
  assumes "pm_ok pm" "a \<in> pmm_held pm" shows "a < 2 ^ 56"
proof -
  obtain n where n: "n \<in> pm_used pm" "a = page_addr pm n" using assms(2) by (auto simp: pmm_held_def)
  have inv: "pmm_inv pm" using assms(1) by (simp add: pm_ok_def pmm_ready_def)
  then have "n < npages pm" using n(1) pm_used_bound by blast
  moreover have "unat (total_size pm) = npages pm * 4096" using inv by (simp add: pmm_inv_def pmm_geometry_def)
  ultimately have "a < unat (start_addr pm) + unat (total_size pm)" using n(2) by (simp add: page_addr_def)
  then show ?thesis using assms(1) by (simp add: pm_ok_def)
qed

lemma alloc_page:
  assumes "pm_ok pm" "pmm_alloc_pages pm 1 = Some (pa, pm')" "pa \<noteq> 0"
  shows "pm_ok pm' \<and> frame pa \<and> unat pa \<notin> pmm_held pm \<and> pmm_held pm' = insert (unat pa) (pmm_held pm)"
proof -
  have r: "pmm_ready pm" using assms(1) by (simp add: pm_ok_def)
  note f = pmm.alloc_fresh [OF r _ assms(2,3)]
  have "start_addr pm' = start_addr pm \<and> total_size pm' = total_size pm"
    using assms(2) by (auto simp: pmm_alloc_pages_def split: bind_splits if_splits)
  then have ok: "pm_ok pm'" using assms(1) f by (simp add: pm_ok_def)
  have h: "pmm_held pm' = insert (unat pa) (pmm_held pm)" using f by auto
  show ?thesis using ok h f held_bound [OF ok, of "unat pa"] by (auto simp: frame_def)
qed

definition vpn :: "u64 \<Rightarrow> nat \<Rightarrow> nat" where
  "vpn va l = unat (RV_VPN va l)"

lemma vpn_less: "vpn va l < 512"
proof -
  have "RV_VPN va l \<le> 511" unfolding RV_VPN_def by (rule word_and_le1)
  then show ?thesis by (simp add: vpn_def word_le_nat_alt)
qed

lemma ent_vpn: "ent t (RV_VPN va l) = ent t (of_nat (vpn va l))"
  by (simp add: vpn_def)

abbreviation vpath :: "u64 \<Rightarrow> nat list" where
  "vpath va \<equiv> [vpn va 2, vpn va (Suc 0)]"

lemma vpath_path [simp]: "path (vpath va)"
  by (simp add: path_def vpn_less)

text \<open>The last-level entry of an address, 0 where there is no table: the abstraction of the tables.\<close>

definition pte_of :: "mem \<Rightarrow> u64 \<Rightarrow> nat list \<Rightarrow> nat \<Rightarrow> u64" where
  "pte_of m root p i = (case tab m root p of None \<Rightarrow> 0 | Some t \<Rightarrow> ld64 m (ent t (of_nat i)))"

definition vm_pte :: "vm_state \<Rightarrow> u64 \<Rightarrow> u64 \<Rightarrow> u64" where
  "vm_pte s root va = pte_of (v_mem s) root (vpath va) (vpn va 0)"

lemma walk_level_lookup:
  "rv_walk_level s e False =
     Some (if table_pte (ld64 (v_mem s) e) then Some (rv_pte_to_pa (ld64 (v_mem s) e)) else None, s)"
  by (simp add: rv_walk_level_def table_pte_def)

lemma walk_lookup:
  "rv_walk_l0_pte s root va False = Some (map_option (\<lambda>t. ent t (of_nat (vpn va 0))) (tab (v_mem s) root (vpath va)), s)"
  by (simp add: rv_walk_l0_pte_def walk_level_lookup ent_vpn tab.simps Let_def)

lemma get_pte_eq: "mm_vm_get_pte s root va = Some (vm_pte s root va)"
  by (simp add: mm_vm_get_pte_def walk_lookup vm_pte_def pte_of_def split: option.split)

lemma get_paddr_eq:
  "mm_vm_get_paddr s root va =
     Some (let e = vm_pte s root va in if e AND 1 = 0 \<or> \<not> rv_pte_is_leaf e then 0 else rv_pte_to_pa e + (va AND (PAGE_SIZE - 1)))"
  by (simp add: mm_vm_get_paddr_def walk_lookup vm_pte_def pte_of_def Let_def split: option.split)

text \<open>What a walk that may allocate keeps: the invariant, the tables there were and all last-level entries.\<close>

definition extends :: "u64 \<Rightarrow> vm_state \<Rightarrow> vm_state \<Rightarrow> bool" where
  "extends root s s' \<longleftrightarrow> pt_ok s' root \<and> v_sp s' = v_sp s \<and> pmm_held (v_pm s) \<subseteq> pmm_held (v_pm s') \<and>
     (\<forall>q t. path q \<longrightarrow> tab (v_mem s) root q = Some t \<longrightarrow> tab (v_mem s') root q = Some t) \<and>
     (\<forall>q i. path q \<and> length q = 2 \<and> i < 512 \<longrightarrow> pte_of (v_mem s') root q i = pte_of (v_mem s) root q i)"

lemma extends_refl: "pt_ok s root \<Longrightarrow> extends root s s"
  by (simp add: extends_def)

lemma extends_trans: "extends root s s' \<Longrightarrow> extends root s' s'' \<Longrightarrow> extends root s s''"
  unfolding extends_def by (metis subset_trans)

lemma extends_pte: "extends root s s' \<Longrightarrow> vm_pte s' root va = vm_pte s root va"
  by (simp add: extends_def vm_pte_def vpn_less)

lemma grow_ok:
  assumes "pt_ok s root" "path p" "length p \<le> 1" "tab (v_mem s) root p = Some t" "k < 512"
    and e: "ld64 (v_mem s) (ent t (of_nat k)) AND 1 = 0"
    and pa: "pmm_alloc_pages (v_pm s) 1 = Some (pa, pm)" "pa \<noteq> 0"
  defines "s' \<equiv> s\<lparr>v_pm := pm, v_mem := st64 (memset (v_mem s) pa 0 4096) (ent t (of_nat k)) (rv_make_table_pte pa)\<rparr>"
  shows "extends root s s'" "ld64 (v_mem s') (ent t (of_nat k)) = rv_make_table_pte pa" "tab (v_mem s') root (p @ [k]) = Some pa" "frame pa"
proof -
  have ok: "pm_ok (v_pm s)" "tree_ok (v_mem s) root (pmm_held (v_pm s))" using assms(1) by (simp_all add: pt_ok_def)
  note a = alloc_page [OF ok(1) pa]
  have inv: "\<not> table_pte (ld64 (v_mem s) (ent t (of_nat k)))" using e by (simp add: table_pte_def)
  have fp: "frame pa" "unat pa \<notin> pmm_held (v_pm s)" using a by simp_all
  note n = new_table_ok [OF ok(2) assms(2-5) inv fp]
  note ft = tree_frame [OF ok(2) assms(2,4)]
  show "tab (v_mem s') root (p @ [k]) = Some pa" using n(1) [of "p @ [k]"] assms(2,3,5) by (simp add: s'_def path_snoc)
  show "ld64 (v_mem s') (ent t (of_nat k)) = rv_make_table_pte pa" using n(3) [of t k] ft assms(5) by (simp add: s'_def)
  have old: "tab (v_mem s) root (p @ [k]) = None" using assms(4) inv by (simp add: tab_append tab_one)
  have "pte_of (v_mem s') root q i = pte_of (v_mem s) root q i" if q: "path q" "length q = 2" "i < 512" for q i
  proof (cases "q = p @ [k]")
    case True
    then show ?thesis using n(1) [OF q(1)] n(3) [OF fp(1) q(3)] old ft fp(2) by (auto simp: s'_def pte_of_def)
  next
    case False
    have "(u, i) \<noteq> (t, k) \<and> u \<noteq> pa \<and> frame u" if "tab (v_mem s) root q = Some u" for u
      using tree_frame [OF ok(2) q(1) that] tree_inj [OF ok(2) assms(2) q(1) assms(4)] that fp(2) q(2) assms(3) by auto
    then show ?thesis using n(1) [OF q(1)] n(3) [OF _ q(3)] False by (auto simp: s'_def pte_of_def split: option.split)
  qed
  then show "extends root s s'" using n(1,2) a old by (auto simp: extends_def pt_ok_def s'_def)
  show "frame pa" by (rule fp(1))
qed

lemma walk_level_ok:
  assumes "pt_ok s root" "path p" "length p \<le> 1" "tab (v_mem s) root p = Some t" "k < 512"
  obtains r s' where "rv_walk_level s (ent t (of_nat k)) True = Some (r, s')" "extends root s s'"
    "\<And>t'. r = Some t' \<Longrightarrow> tab (v_mem s') root (p @ [k]) = Some t'"
    "r = None \<Longrightarrow> rv_pte_is_leaf (ld64 (v_mem s) (ent t (of_nat k))) \<or> pmm_alloc_pages (v_pm s) 1 = Some (0, v_pm s)"
proof (cases "ld64 (v_mem s) (ent t (of_nat k)) AND 1 = 0")
  case True
  have rd: "pmm_ready (v_pm s)" using assms(1) by (simp add: pt_ok_def pm_ok_def)
  then obtain pa pm where a: "pmm_alloc_pages (v_pm s) 1 = Some (pa, pm)" using pmm.alloc_returns [of "v_pm s" 1] by auto
  show thesis
  proof (cases "pa = 0")
    case pa: True
    then have "pm = v_pm s" using pmm.alloc_none [OF rd, of 1 pm] a by simp
    then show thesis using that [of None s] True a pa extends_refl [OF assms(1)] by (simp add: rv_walk_level_def)
  next
    case pa: False
    note g = grow_ok [OF assms True a pa]
    have "\<not> rv_pte_is_leaf (rv_make_table_pte pa)" "rv_pte_to_pa (rv_make_table_pte pa) = pa"
      using new_table_pte [OF g(4)] by (simp_all add: table_pte_def)
    then show thesis using that [OF _ g(1), of "Some pa"] True a pa g(2,3) by (simp add: rv_walk_level_def)
  qed
next
  case False
  note e = extends_refl [OF assms(1)]
  show thesis
  proof (cases "rv_pte_is_leaf (ld64 (v_mem s) (ent t (of_nat k)))")
    case True
    then show thesis using that [OF _ e, of None] \<open>_ AND 1 \<noteq> 0\<close> by (simp add: rv_walk_level_def)
  next
    case leaf: False
    then show thesis using that [OF _ e, of "Some (rv_pte_to_pa (ld64 (v_mem s) (ent t (of_nat k))))"] False assms(4)
      by (simp add: rv_walk_level_def tab_append tab_one table_pte_def)
  qed
qed

lemma walk_ok:
  assumes "pt_ok s root"
  obtains r s' where "rv_walk_l0_pte s root va True = Some (r, s')" "extends root s s'"
    "\<And>a. r = Some a \<Longrightarrow> \<exists>t. tab (v_mem s') root (vpath va) = Some t \<and> a = ent t (of_nat (vpn va 0))"
proof -
  obtain r1 s1 where 1: "rv_walk_level s (ent root (RV_VPN va 2)) True = Some (r1, s1)" "extends root s s1"
    "\<And>t. r1 = Some t \<Longrightarrow> tab (v_mem s1) root [vpn va 2] = Some t"
    by (rule walk_level_ok [OF assms, of "[]" root "vpn va 2"]) (auto simp: vpn_less ent_vpn)
  show thesis
  proof (cases r1)
    case None
    then show thesis using that [of None s1] 1 by (simp add: rv_walk_l0_pte_def)
  next
    case (Some t1)
    have ok1: "pt_ok s1 root" using 1(2) by (simp add: extends_def)
    obtain r2 s2 where 2: "rv_walk_level s1 (ent t1 (RV_VPN va (Suc 0))) True = Some (r2, s2)" "extends root s1 s2"
      "\<And>t. r2 = Some t \<Longrightarrow> tab (v_mem s2) root (vpath va) = Some t"
      by (rule walk_level_ok [OF ok1, of "[vpn va 2]" t1 "vpn va (Suc 0)"]) (auto simp: vpn_less ent_vpn path_def 1(3) [OF Some])
    then show thesis using that [of "map_option (\<lambda>t. ent t (RV_VPN va 0)) r2" s2] 1(1) Some extends_trans [OF 1(2) 2(2)]
      by (cases r2) (auto simp: rv_walk_l0_pte_def ent_vpn)
  qed
qed

section \<open>Mapping\<close>

definition same_page :: "u64 \<Rightarrow> u64 \<Rightarrow> bool" where
  "same_page va va' \<longleftrightarrow> vpn va 2 = vpn va' 2 \<and> vpn va (Suc 0) = vpn va' (Suc 0) \<and> vpn va 0 = vpn va' 0"

lemma vm_pte_same: "same_page va va' \<Longrightarrow> vm_pte s root va = vm_pte s root va'"
  by (simp add: vm_pte_def same_page_def)

lemma write_pte_ok:
  fixes v :: u64
  assumes "pt_ok s root" "tab (v_mem s) root (vpath va) = Some t"
  defines "s' \<equiv> s\<lparr>v_mem := st64 (v_mem s) (ent t (of_nat (vpn va 0))) v\<rparr>"
  shows "pt_ok s' root" "vm_pte s' root va' = (if same_page va va' then v else vm_pte s root va')"
proof -
  have t: "tree_ok (v_mem s) root (pmm_held (v_pm s))" using assms(1) by (simp add: pt_ok_def)
  note w = leaf_write_ok [OF t vpath_path _ assms(2) vpn_less, where v = v]
  show "pt_ok s' root" using assms(1) w(2) by (simp add: pt_ok_def s'_def)
  show "vm_pte s' root va' = (if same_page va va' then v else vm_pte s root va')"
  proof (cases "tab (v_mem s) root (vpath va')")
    case None
    then have "\<not> same_page va va'" using assms(2) by (auto simp: same_page_def)
    then show ?thesis using None w(1) [of "vpath va'"] by (simp add: vm_pte_def pte_of_def s'_def)
  next
    case (Some u)
    then show ?thesis using w(1) [of "vpath va'"] w(3) [of "vpath va'" u "vpn va' 0"]
      by (auto simp: vm_pte_def pte_of_def s'_def same_page_def vpn_less)
  qed
qed

lemma map_loop_ok:
  assumes "pt_ok s root" "fl AND 1 = 0"
  shows "\<exists>r s' k. map_loop n s root va pa fl = Some (r, s') \<and> pt_ok s' root \<and> v_sp s' = v_sp s \<and> k \<le> n \<and>
    r = (if k = n then 0 else - 1) \<and> (\<forall>j < k. vm_pte s root (va + 4096 * of_nat j) AND 1 = 0) \<and>
    (\<forall>j < k. vm_pte s' root (va + 4096 * of_nat j) = RV_PTE_FROM_PA (pa + 4096 * of_nat j) (fl OR 1)) \<and>
    (\<forall>va'. (\<forall>j < k. \<not> same_page (va + 4096 * of_nat j) va') \<longrightarrow> vm_pte s' root va' = vm_pte s root va')"
  using assms(1)
proof (induction n arbitrary: s va pa)
  case 0
  then show ?case by simp
next
  case (Suc n)
  obtain r s1 where 1: "rv_walk_l0_pte s root va True = Some (r, s1)" "extends root s s1"
    "\<And>a. r = Some a \<Longrightarrow> \<exists>t. tab (v_mem s1) root (vpath va) = Some t \<and> a = ent t (of_nat (vpn va 0))"
    using walk_ok [OF Suc.prems, of va] by metis
  have ok1: "pt_ok s1 root" "v_sp s1 = v_sp s" using 1(2) by (simp_all add: extends_def)
  show ?case
  proof (cases "r = None \<or> vm_pte s root va AND 1 \<noteq> 0")
    case True
    have "map_loop (Suc n) s root va pa fl = Some (- 1, s1)"
      using True 1(1,3) extends_pte [OF 1(2), of va] by (cases r) (auto simp: vm_pte_def pte_of_def)
    then show ?thesis using ok1 extends_pte [OF 1(2)] by (intro exI [of _ "- 1"] exI [of _ s1] exI [of _ 0]) simp
  next
    case False
    then obtain a t where a: "r = Some a" "tab (v_mem s1) root (vpath va) = Some t" "a = ent t (of_nat (vpn va 0))" using 1(3) by auto
    let ?v = "RV_PTE_FROM_PA pa (fl OR 1)"
    define s2 where "s2 = s1\<lparr>v_mem := st64 (v_mem s1) (ent t (of_nat (vpn va 0))) ?v\<rparr>"
    note w = write_pte_ok [OF ok1(1) a(2), of ?v, folded s2_def]
    have p2: "vm_pte s2 root va' = (if same_page va va' then ?v else vm_pte s root va')" for va'
      using w(2) [of va'] extends_pte [OF 1(2)] by simp
    have V: "?v AND 1 \<noteq> 0" using assms(2) by (simp add: pte_low_bits bit.conj_disj_distrib2)
    have fr: "ld64 (v_mem s1) a AND 1 = 0" using False a extends_pte [OF 1(2), of va] by (simp add: vm_pte_def pte_of_def)
    from Suc.IH [OF w(1), of "va + 4096" "pa + 4096"] obtain r' s' k where
      k: "map_loop n s2 root (va + 4096) (pa + 4096) fl = Some (r', s')" "pt_ok s' root" "v_sp s' = v_sp s2" "k \<le> n"
      "r' = (if k = n then 0 else - 1)" and free: "\<forall>j < k. vm_pte s2 root (va + 4096 + 4096 * of_nat j) AND 1 = 0"
      and new: "\<forall>j < k. vm_pte s' root (va + 4096 + 4096 * of_nat j) = RV_PTE_FROM_PA (pa + 4096 + 4096 * of_nat j) (fl OR 1)"
      and old: "\<forall>va'. (\<forall>j < k. \<not> same_page (va + 4096 + 4096 * of_nat j) va') \<longrightarrow> vm_pte s' root va' = vm_pte s2 root va'"
      by blast
    have run: "map_loop (Suc n) s root va pa fl = Some (r', s')"
      using 1(1) a fr k(1) by (simp add: s2_def)
    have ne: "\<not> same_page (va + 4096 + 4096 * of_nat j) va" if "j < k" for j
      using free [rule_format, OF that] p2 [of "va + 4096 + 4096 * of_nat j"] V by (auto simp: same_page_def split: if_splits)
    then have "vm_pte s' root va = ?v" using old p2 [of va] by (simp add: same_page_def)
    then have all: "\<forall>j < Suc k. vm_pte s' root (va + 4096 * of_nat j) = RV_PTE_FROM_PA (pa + 4096 * of_nat j) (fl OR 1)"
      using new by (auto simp: less_Suc_eq_0_disj algebra_simps)
    have "vm_pte s root (va + 4096 + 4096 * of_nat j) AND 1 = 0" if "j < k" for j
      using free [rule_format, OF that] ne [OF that] p2 [of "va + 4096 + 4096 * of_nat j"] by (auto simp: same_page_def split: if_splits)
    then have "\<forall>j < Suc k. vm_pte s root (va + 4096 * of_nat j) AND 1 = 0"
      using False by (auto simp: less_Suc_eq_0_disj algebra_simps)
    moreover have "\<forall>va'. (\<forall>j < Suc k. \<not> same_page (va + 4096 * of_nat j) va') \<longrightarrow> vm_pte s' root va' = vm_pte s root va'"
    proof (intro allI impI)
      fix va' assume n: "\<forall>j < Suc k. \<not> same_page (va + 4096 * of_nat j) va'"
      have "\<not> same_page (va + 4096 + 4096 * of_nat j) va'" if "j < k" for j using n [rule_format, of "Suc j"] that by (simp add: algebra_simps)
      then show "vm_pte s' root va' = vm_pte s root va'" using old p2 [of va'] n [rule_format, of 0] by simp
    qed
    ultimately show ?thesis using run k(2-5) ok1(2) all
      by (intro exI [of _ r'] exI [of _ s'] exI [of _ "Suc k"]) (simp add: s2_def)
  qed
qed

lemma perm_flags:
  "rv_perm_to_flags sg perm AND 1 = 0" "flags_ok (rv_perm_to_flags sg perm OR 1)" "rv_pte_is_leaf (RV_PTE_FROM_PA pa (rv_perm_to_flags sg perm OR 1))"
  by (cases perm; cases sg; simp add: rv_perm_to_flags_def flags_ok_def rv_pte_is_leaf_def pte_low_bits)+

lemma frame_offset: "frame pa \<Longrightarrow> unat pa + 4096 * n \<le> 2 ^ 56 \<Longrightarrow> j < n \<Longrightarrow> frame (pa + 4096 * of_nat j)"
  by (simp add: frame_def unat_word_ariths unat_of_nat)


text \<open>A zeroed page from the allocator is an empty address space.\<close>

lemma new_root_ok:
  assumes "pm_ok pm" "pmm_alloc_pages pm 1 = Some (root, pm')" "root \<noteq> 0"
  shows "pt_ok \<lparr>v_mem = memset m root 0 4096, v_pm = pm', v_sp = sp\<rparr> root"
proof -
  note a = alloc_page [OF assms]
  let ?m = "memset m root 0 4096"
  have "tab ?m root (i # p) = None" if "i < 512" for i p
    using ld_memset_ent [of root root i m] a that by (simp add: tab.simps table_pte_def)
  then have "tab ?m root p = (if p = [] then Some root else None)" if "path p" for p using that by (cases p) (auto simp: path_def)
  then have "tree_ok ?m root (pmm_held pm')" using a by (auto simp: tree_ok_def split: if_splits)
  then show ?thesis using a by (simp add: pt_ok_def)
qed

definition sv39_start :: vm_state where
  "sv39_start = \<lparr>v_mem = memset (\<lambda>_. 0) 0x80000000 0 4096, v_pm = snd (the (pmm_alloc_pages pmm8 1)),
     v_sp = \<lparr>g_entries = [], g_buckets = [], g_free_head = 0, g_initialized = False\<rparr>\<rparr>"

lemma pmm8_ok: "pm_ok pmm8"
  using pmm8_inv by (simp add: pm_ok_def pmm_ready_def) (simp add: pmm8_def pmm_init_def)

lemma pmm8_alloc: "pmm_alloc_pages pmm8 1 = Some (0x80000000, snd (the (pmm_alloc_pages pmm8 1)))"
proof -
  have "fst (the (pmm_alloc_pages pmm8 1)) = 0x80000000" by code_simp
  moreover obtain r pm where "pmm_alloc_pages pmm8 1 = Some (r, pm)" using pmm.alloc_returns [of pmm8 1] pmm8_ok by (auto simp: pm_ok_def)
  ultimately show ?thesis by simp
qed

lemma sv39_start_ok: "pt_ok sv39_start 0x80000000"
  unfolding sv39_start_def by (rule new_root_ok [OF pmm8_ok pmm8_alloc]) simp


end
