(* ===== verification/Sv39_Space.thy ===== *)
theory Sv39_Space
  imports Sv39
begin

text \<open>
  The life of a user address space on RISC-V: which frames its tables own, that mapping, unmapping and
  failed mappings keep account of them, and that destroying the space gives every one of them back.
\<close>

section \<open>Unmapping and destroying\<close>

declare upt_rec_numeral [simp del]

text \<open>
  The frames that the entries \<open>is\<close> of a table own, \<open>n\<close> levels above the last: below, the pages that
  are neither device buffers nor shared; above, the tables and what they own. The shape of user
  space: leaves at the last level only, none of them shared.
\<close>

fun owned :: "nat \<Rightarrow> mem \<Rightarrow> u64 \<Rightarrow> nat list \<Rightarrow> nat list" where
  "owned n m t [] = []"
| "owned n m t (i # is) =
     (let e = ld64 m (ent t (of_nat i)); c = rv_pte_to_pa e
      in (if e AND 1 = 0 then []
          else case n of
            0 \<Rightarrow> if e AND 0x200 \<noteq> 0 then [] else [unat c]
          | Suc k \<Rightarrow> unat c # owned k m c [0..<512]) @ owned n m t is)"

fun shaped :: "nat \<Rightarrow> mem \<Rightarrow> u64 \<Rightarrow> nat list \<Rightarrow> bool" where
  "shaped n m t [] = True"
| "shaped n m t (i # is) =
     (let e = ld64 m (ent t (of_nat i)); c = rv_pte_to_pa e
      in (e AND 1 \<noteq> 0 \<longrightarrow>
            (case n of 0 \<Rightarrow> rv_pte_is_leaf e \<and> e AND 0x100 = 0 | Suc k \<Rightarrow> \<not> rv_pte_is_leaf e \<and> shaped k m c [0..<512])) \<and>
         shaped n m t is)"

declare owned.simps(2) [simp del] shaped.simps(2) [simp del]

lemma owned_cong:
  assumes "\<And>i. i \<in> set is \<Longrightarrow> ld64 m' (ent t (of_nat i)) = ld64 m (ent t (of_nat i))"
    and "\<And>u i. frame u \<Longrightarrow> unat u \<in> set (owned n m t is) \<Longrightarrow> i < 512 \<Longrightarrow> ld64 m' (ent u (of_nat i)) = ld64 m (ent u (of_nat i))"
  shows "owned n m' t is = owned n m t is \<and> shaped n m' t is = shaped n m t is"
  using assms
proof (induction n m t "is" rule: owned.induct)
  case (2 n m t i "is")
  let ?e = "ld64 m (ent t (of_nat i))"
  let ?c = "rv_pte_to_pa ?e"
  have e: "ld64 m' (ent t (of_nat i)) = ?e" using "2.prems"(1) by simp
  have rest: "owned n m' t is = owned n m t is \<and> shaped n m' t is = shaped n m t is"
    using "2.prems" by (intro "2.IH"(2)) (auto simp: owned.simps Let_def)
  have child: "owned k m' ?c [0..<512] = owned k m ?c [0..<512] \<and> shaped k m' ?c [0..<512] = shaped k m ?c [0..<512]"
    if "?e AND 1 \<noteq> 0" "n = Suc k" for k
  proof (rule "2.IH"(1) [OF refl refl that])
    show "ld64 m' (ent u (of_nat j)) = ld64 m (ent u (of_nat j))" if "frame u" "unat u \<in> set (owned k m ?c [0..<512])" "j < 512" for u j
      using "2.prems"(2) that \<open>?e AND 1 \<noteq> 0\<close> \<open>n = Suc k\<close> by (simp add: owned.simps Let_def)
    show "ld64 m' (ent ?c (of_nat j)) = ld64 m (ent ?c (of_nat j))" if "j \<in> set [0..<512]" for j
      using "2.prems"(2) [of ?c j] that pte_to_pa_frame \<open>?e AND 1 \<noteq> 0\<close> \<open>n = Suc k\<close> by (simp add: owned.simps Let_def)
  qed
  show ?case using rest child e by (auto simp: owned.simps shaped.simps Let_def split: nat.split)
qed simp

text \<open>What destroying does, as a relation between the state before and after.\<close>

definition released :: "u64 \<Rightarrow> nat list \<Rightarrow> vm_state \<Rightarrow> vm_state \<Rightarrow> bool" where
  "released t fs s s' \<longleftrightarrow> pm_ok (v_pm s') \<and> v_sp s' = v_sp s \<and> pmm_held (v_pm s') = pmm_held (v_pm s) - set fs \<and>
     pmm_pinned (v_pm s') = pmm_pinned (v_pm s) \<and>
     (\<forall>u i. frame u \<and> i < 512 \<and> u \<noteq> t \<and> unat u \<notin> set fs \<longrightarrow> ld64 (v_mem s') (ent u (of_nat i)) = ld64 (v_mem s) (ent u (of_nat i)))"

lemma free_page:
  assumes "pm_ok pm" "unat pa \<in> pmm_held pm - pmm_pinned pm"
  obtains b pm' where "pmm_free_pages pm pa 1 = Some (b, pm')" "pm_ok pm'" "pmm_held pm' = pmm_held pm - {unat pa}" "pmm_pinned pm' = pmm_pinned pm"
proof -
  have r: "pmm_ready pm" using assms(1) by (simp add: pm_ok_def)
  obtain b pm' where f: "pmm_free_pages pm pa 1 = Some (b, pm')" using pmm.release_returns [OF r, of 1 pa] by auto
  have b using pmm.release_accepts [OF r _ f] assms(2) by simp
  then have e: "pmm_held pm' = pmm_held pm - {unat pa}" "pmm_pinned pm' = pmm_pinned pm" "pmm_ready pm'"
    using pmm.release_effect [OF r, of 1 pa pm'] f by simp_all
  have "start_addr pm' = start_addr pm \<and> total_size pm' = total_size pm"
    using f by (auto simp: pmm_free_pages_def Let_def split: if_splits option.splits)
  then have "pm_ok pm'" using assms(1) e(3) by (simp add: pm_ok_def)
  then show thesis using that [OF f] e by simp
qed

lemma released_trans:
  assumes "released t F s s1" "released t G s1 s2" shows "released t (F @ G) s s2"
  using assms unfolding released_def by auto

lemma clear_entry:
  assumes "released t F s s1" "frame t" "i < 512"
  shows "released t F s (s1\<lparr>v_mem := st64 (v_mem s1) (ent t (of_nat i)) 0\<rparr>)"
  using assms ld_st_ent [OF assms(2)] unfolding released_def by simp

text \<open>Processing one entry, then the rest.\<close>

lemma destroy_rest:
  assumes t: "frame t" "i < 512" "i \<notin> set is" "\<forall>j \<in> set is. j < 512"
    and s2: "released t F s s2" "\<And>j. j < 512 \<Longrightarrow> j \<noteq> i \<Longrightarrow> ld64 (v_mem s2) (ent t (of_nat j)) = ld64 (v_mem s) (ent t (of_nat j))"
    and d: "unat t \<notin> set (owned n (v_mem s) t is)" "set F \<inter> set (owned n (v_mem s) t is) = {}"
  shows "owned n (v_mem s2) t is = owned n (v_mem s) t is" "shaped n (v_mem s2) t is = shaped n (v_mem s) t is"
proof -
  have "owned n (v_mem s2) t is = owned n (v_mem s) t is \<and> shaped n (v_mem s2) t is = shaped n (v_mem s) t is"
  proof (rule owned_cong)
    show "ld64 (v_mem s2) (ent t (of_nat j)) = ld64 (v_mem s) (ent t (of_nat j))" if "j \<in> set is" for j
      using s2(2) [of j] that t(3,4) by auto
    show "ld64 (v_mem s2) (ent u (of_nat j)) = ld64 (v_mem s) (ent u (of_nat j))"
      if "frame u" "unat u \<in> set (owned n (v_mem s) t is)" "j < 512" for u j
      using s2(1) that d unfolding released_def by blast
  qed
  then show "owned n (v_mem s2) t is = owned n (v_mem s) t is" "shaped n (v_mem s2) t is = shaped n (v_mem s) t is" by simp_all
qed

lemma drop_leaf_ok:
  assumes "pm_ok (v_pm s)" "e AND 0x100 = 0" "e AND 0x200 = 0 \<longrightarrow> unat (rv_pte_to_pa e) \<in> pmm_held (v_pm s) - pmm_pinned (v_pm s)"
  obtains s' where "rv_drop_leaf s e = Some s'" "released t (if e AND 0x200 \<noteq> 0 then [] else [unat (rv_pte_to_pa e)]) s s'" "v_mem s' = v_mem s"
proof (cases "e AND 0x200 = 0")
  case True
  then obtain b pm' where "pmm_free_pages (v_pm s) (rv_pte_to_pa e) 1 = Some (b, pm')" "pm_ok pm'"
    "pmm_held pm' = pmm_held (v_pm s) - {unat (rv_pte_to_pa e)}" "pmm_pinned pm' = pmm_pinned (v_pm s)"
    using free_page [OF assms(1), of "rv_pte_to_pa e"] assms(3) by metis
  then show thesis using that [of "s\<lparr>v_pm := pm'\<rparr>"] True assms(2) by (simp add: rv_drop_leaf_def released_def)
next
  case False
  then show thesis using that [of s] assms(1) by (simp add: rv_drop_leaf_def released_def)
qed

definition entry_owned :: "nat \<Rightarrow> mem \<Rightarrow> u64 \<Rightarrow> nat list" where
  "entry_owned n m e =
     (if e AND 1 = 0 then []
      else case n of
        0 \<Rightarrow> if e AND 0x200 \<noteq> 0 then [] else [unat (rv_pte_to_pa e)]
      | Suc k \<Rightarrow> unat (rv_pte_to_pa e) # owned k m (rv_pte_to_pa e) [0..<512])"

lemma owned_Cons: "owned n m t (i # is) = entry_owned n m (ld64 m (ent t (of_nat i))) @ owned n m t is"
  by (simp add: owned.simps entry_owned_def Let_def split: nat.split)

definition destroys :: "nat \<Rightarrow> vm_state \<Rightarrow> u64 \<Rightarrow> nat list \<Rightarrow> bool" where
  "destroys n s t is \<longleftrightarrow>
     (\<exists>s'. rv_destroy_table n s t is = Some s' \<and> (\<forall>k. n = Suc k \<longrightarrow> destroy_root k s t is = Some s') \<and>
       released t (owned n (v_mem s) t is) s s')"

definition destroyable :: "nat \<Rightarrow> vm_state \<Rightarrow> u64 \<Rightarrow> nat list \<Rightarrow> bool" where
  "destroyable n s t is \<longleftrightarrow>
     pm_ok (v_pm s) \<and> frame t \<and> distinct is \<and> (\<forall>i \<in> set is. i < 512) \<and> shaped n (v_mem s) t is \<and>
     distinct (unat t # owned n (v_mem s) t is) \<and> set (owned n (v_mem s) t is) \<subseteq> pmm_held (v_pm s) - pmm_pinned (v_pm s)"

lemma destroy_step:
  assumes D: "destroyable n s t (i # is)"
    and r2: "released t (entry_owned n (v_mem s) (ld64 (v_mem s) (ent t (of_nat i)))) s v" (is "released t ?F s v")
    and l2: "\<And>j. j < 512 \<Longrightarrow> j \<noteq> i \<Longrightarrow> ld64 (v_mem v) (ent t (of_nat j)) = ld64 (v_mem s) (ent t (of_nat j))"
    and run: "rv_destroy_table n s t (i # is) = rv_destroy_table n v t is" "\<And>k. n = Suc k \<Longrightarrow> destroy_root k s t (i # is) = destroy_root k v t is"
    and IH: "destroyable n v t is \<Longrightarrow> destroys n v t is"
  shows "destroys n s t (i # is)"
proof -
  have P: "frame t" "i < 512" "i \<notin> set is" "\<forall>j \<in> set is. j < 512" "distinct is" using D by (auto simp: destroyable_def)
  have d: "unat t \<notin> set (owned n (v_mem s) t is)" "set ?F \<inter> set (owned n (v_mem s) t is) = {}" "distinct (owned n (v_mem s) t is)"
    "shaped n (v_mem s) t is" using D by (auto simp: destroyable_def owned_Cons shaped.simps Let_def)
  have o: "owned n (v_mem v) t is = owned n (v_mem s) t is" "shaped n (v_mem v) t is = shaped n (v_mem s) t is"
    using destroy_rest [OF P(1-4) r2 _ d(1,2)] l2 by blast+
  have "set (owned n (v_mem s) t is) \<subseteq> pmm_held (v_pm v) - pmm_pinned (v_pm v)"
    using D r2 d(2) by (auto simp: destroyable_def owned_Cons released_def)
  then have "destroyable n v t is" using P d r2 o by (simp add: destroyable_def released_def)
  from IH [OF this] obtain s' where s': "rv_destroy_table n v t is = Some s'" "\<And>k. n = Suc k \<Longrightarrow> destroy_root k v t is = Some s'"
    "released t (owned n (v_mem s) t is) v s'" unfolding destroys_def o by blast
  show ?thesis unfolding destroys_def owned_Cons using run s' released_trans [OF r2 s'(3)] by auto
qed

lemma destroy_skip:
  assumes "destroyable n s t (i # is)" "ld64 (v_mem s) (ent t (of_nat i)) AND 1 = 0" "destroyable n s t is \<Longrightarrow> destroys n s t is"
  shows "destroys n s t (i # is)"
  using assms(1) by (rule destroy_step [where v = s]) (use assms in \<open>auto simp: destroyable_def released_def entry_owned_def\<close>)

lemma destroy_leaf:
  assumes D: "destroyable 0 s t (i # is)" and v: "ld64 (v_mem s) (ent t (of_nat i)) AND 1 \<noteq> 0" (is "?e AND 1 \<noteq> 0")
    and IH: "\<And>s. destroyable 0 s t is \<Longrightarrow> destroys 0 s t is"
  shows "destroys 0 s t (i # is)"
proof -
  have F: "entry_owned 0 (v_mem s) ?e = (if ?e AND 0x200 \<noteq> 0 then [] else [unat (rv_pte_to_pa ?e)])" (is "_ = ?F") using v by (simp add: entry_owned_def)
  have P: "frame t" "i < 512" "pm_ok (v_pm s)" "rv_pte_is_leaf ?e" "?e AND 0x100 = 0"
    "?e AND 0x200 = 0 \<longrightarrow> unat (rv_pte_to_pa ?e) \<in> pmm_held (v_pm s) - pmm_pinned (v_pm s)"
    using D v F by (auto simp: destroyable_def owned_Cons shaped.simps Let_def)
  obtain s1 where s1: "rv_drop_leaf s ?e = Some s1" "released t ?F s s1" "v_mem s1 = v_mem s" by (rule drop_leaf_ok [OF P(3,5,6)])
  let ?s2 = "s1\<lparr>v_mem := st64 (v_mem s1) (ent t (of_nat i)) 0\<rparr>"
  show ?thesis
  proof (rule destroy_step [OF D, where v = ?s2])
    show "released t (entry_owned 0 (v_mem s) ?e) s ?s2" unfolding F by (rule clear_entry [OF s1(2) P(1,2)])
    show "rv_destroy_table 0 s t (i # is) = rv_destroy_table 0 ?s2 t is" using v P(4) s1(1) by simp
  qed (use IH ld_st_ent [OF P(1,1,2)] s1(3) in simp_all)
qed

lemma destroy_child:
  assumes D: "destroyable (Suc n) s t (i # is)" and v: "ld64 (v_mem s) (ent t (of_nat i)) AND 1 \<noteq> 0" (is "?e AND 1 \<noteq> 0")
    and IHn: "\<And>s t is. destroyable n s t is \<Longrightarrow> destroys n s t is" and IH: "\<And>s. destroyable (Suc n) s t is \<Longrightarrow> destroys (Suc n) s t is"
  shows "destroys (Suc n) s t (i # is)"
proof -
  let ?c = "rv_pte_to_pa ?e"
  let ?G = "owned n (v_mem s) ?c [0..<512]"
  have F: "entry_owned (Suc n) (v_mem s) ?e = unat ?c # ?G" using v by (simp add: entry_owned_def)
  have P: "frame t" "i < 512" "pm_ok (v_pm s)" "\<not> rv_pte_is_leaf ?e" "shaped n (v_mem s) ?c [0..<512]" "distinct (unat ?c # ?G)"
    "unat t \<notin> set (unat ?c # ?G)" "set (unat ?c # ?G) \<subseteq> pmm_held (v_pm s) - pmm_pinned (v_pm s)"
    using D v by (auto simp: destroyable_def owned_Cons F shaped.simps Let_def)
  have "destroyable n s ?c [0..<512]" using P(3,5,6,8) pte_to_pa_frame by (auto simp: destroyable_def)
  from IHn [OF this] obtain s1 where s1: "rv_destroy_table n s ?c [0..<512] = Some s1" "released ?c ?G s s1" by (auto simp: destroys_def)
  then have k1: "pm_ok (v_pm s1)" "unat ?c \<in> pmm_held (v_pm s1) - pmm_pinned (v_pm s1)" using P(6,8) by (auto simp: released_def)
  obtain b pm' where f: "pmm_free_pages (v_pm s1) ?c 1 = Some (b, pm')" "pm_ok pm'" "pmm_held pm' = pmm_held (v_pm s1) - {unat ?c}"
    "pmm_pinned pm' = pmm_pinned (v_pm s1)" by (rule free_page [OF k1])
  let ?s2 = "s1\<lparr>v_pm := pm', v_mem := st64 (v_mem s1) (ent t (of_nat i)) 0\<rparr>"
  have same: "ld64 (v_mem s1) (ent u (of_nat j)) = ld64 (v_mem s) (ent u (of_nat j))" if "frame u" "unat u \<notin> set (unat ?c # ?G)" "j < 512" for u j
    using s1(2) that by (auto simp: released_def)
  have r1: "released t (unat ?c # ?G) s (s1\<lparr>v_pm := pm'\<rparr>)" using s1(2) f same by (auto simp: released_def)
  show ?thesis
  proof (rule destroy_step [OF D, where v = ?s2])
    show "released t (entry_owned (Suc n) (v_mem s) ?e) s ?s2" unfolding F using clear_entry [OF r1 P(1,2)] by simp
    show "rv_destroy_table (Suc n) s t (i # is) = rv_destroy_table (Suc n) ?s2 t is" using v P(4) s1(1) f(1) by simp
    show "destroy_root k s t (i # is) = destroy_root k ?s2 t is" if "Suc n = Suc k" for k using that v P(4) s1(1) f(1) by simp
    show "ld64 (v_mem ?s2) (ent t (of_nat j)) = ld64 (v_mem s) (ent t (of_nat j))" if "j < 512" "j \<noteq> i" for j
      using ld_st_ent [OF P(1,1,2) that(1)] that(2) same [OF P(1,7) that(1)] by simp
  qed (rule IH)
qed

lemma destroy_ok: "destroyable n s t is \<Longrightarrow> destroys n s t is"
proof (induction n arbitrary: s t "is")
  case 0
  then show ?case
  proof (induction "is" arbitrary: s)
    case (Cons i "is")
    then show ?case by (cases "ld64 (v_mem s) (ent t (of_nat i)) AND 1 = 0") (auto intro: destroy_skip destroy_leaf)
  qed (simp add: destroys_def destroyable_def released_def)
next
  case (Suc n)
  from Suc.prems show ?case
  proof (induction "is" arbitrary: s)
    case (Cons i "is")
    then show ?case using Suc.IH by (cases "ld64 (v_mem s) (ent t (of_nat i)) AND 1 = 0") (auto intro: destroy_skip destroy_child)
  qed (simp add: destroys_def destroyable_def released_def)
qed

section \<open>The life of an address space\<close>

lemma owned_append: "owned n m t (xs @ ys) = owned n m t xs @ owned n m t ys"
  by (induction xs) (simp_all add: owned_Cons)

lemma shaped_append: "shaped n m t (xs @ ys) \<longleftrightarrow> shaped n m t xs \<and> shaped n m t ys"
  by (induction xs) (auto simp: shaped.simps Let_def)

definition entry_shaped :: "nat \<Rightarrow> mem \<Rightarrow> u64 \<Rightarrow> bool" where
  "entry_shaped n m e \<longleftrightarrow>
     (e AND 1 \<noteq> 0 \<longrightarrow>
       (case n of 0 \<Rightarrow> rv_pte_is_leaf e \<and> e AND 0x100 = 0
        | Suc k \<Rightarrow> \<not> rv_pte_is_leaf e \<and> shaped k m (rv_pte_to_pa e) [0..<512]))"

lemma shaped_Cons: "shaped n m t (i # is) \<longleftrightarrow> entry_shaped n m (ld64 m (ent t (of_nat i))) \<and> shaped n m t is"
  by (simp add: shaped.simps entry_shaped_def Let_def)

lemma tab_owned:
  "tab m t0 p = Some t \<Longrightarrow> p \<noteq> [] \<Longrightarrow> hd p \<in> set is \<Longrightarrow> length p \<le> n \<Longrightarrow> \<forall>i \<in> set p. i < 512 \<Longrightarrow> unat t \<in> set (owned n m t0 is)"
proof (induction p arbitrary: t0 n "is")
  case (Cons i p)
  obtain k where n: "n = Suc k" using Cons.prems(4) by (cases n) auto
  obtain xs ys where is_eq: "is = xs @ i # ys" using Cons.prems(3) by (auto dest: split_list)
  let ?e = "ld64 m (ent t0 (of_nat i))"
  have e: "table_pte ?e" "tab m (rv_pte_to_pa ?e) p = Some t" using Cons.prems(1) by (auto simp: tab.simps Let_def split: if_splits)
  have "unat t \<in> set (entry_owned n m ?e)"
  proof (cases p)
    case Nil
    then show ?thesis using e n by (simp add: entry_owned_def table_pte_def)
  next
    case (Cons j q)
    then show ?thesis using e n Cons.prems Cons.IH [OF e(2), of "[0..<512]" k] by (simp add: entry_owned_def table_pte_def)
  qed
  then show ?case unfolding is_eq owned_append owned_Cons by simp
qed simp

text \<open>Writing one entry of one table exchanges what that entry owns.\<close>

lemma owned_write:
  assumes "tab m t0 p = Some t" "length p + d = n" "\<forall>i \<in> set p. i < 512" "k < 512" "frame t0"
    and "distinct is" "\<forall>i \<in> set is. i < 512" "hd (p @ [k]) \<in> set is" "distinct (unat t0 # owned n m t0 is)"
    and agree: "\<And>u j. frame u \<Longrightarrow> unat u \<in> set (unat t0 # owned n m t0 is) \<Longrightarrow> j < 512 \<Longrightarrow> (u, j) \<noteq> (t, k) \<Longrightarrow>
      ld64 m' (ent u (of_nat j)) = ld64 m (ent u (of_nat j))"
  shows "mset (owned n m' t0 is) + mset (entry_owned d m (ld64 m (ent t (of_nat k)))) =
      mset (owned n m t0 is) + mset (entry_owned d m' (ld64 m' (ent t (of_nat k)))) \<and>
    (shaped n m t0 is \<longrightarrow> entry_shaped d m' (ld64 m' (ent t (of_nat k))) \<longrightarrow> shaped n m' t0 is)"
  using assms
proof (induction p arbitrary: t0 n "is")
  case Nil
  then have t: "t0 = t" "d = n" by simp_all
  obtain xs ys where is_eq: "is = xs @ k # ys" using Nil.prems(8) by (auto dest: split_list)
  have part: "owned n m' t zs = owned n m t zs \<and> shaped n m' t zs = shaped n m t zs" if "zs = xs \<or> zs = ys" for zs
  proof (rule owned_cong)
    have k: "k \<notin> set zs" "set zs \<subseteq> set is" "set (owned n m t zs) \<subseteq> set (owned n m t is)"
      using that Nil.prems(6) by (auto simp: is_eq owned_append owned_Cons)
    show "ld64 m' (ent t (of_nat j)) = ld64 m (ent t (of_nat j))" if "j \<in> set zs" for j
      using Nil.prems(10) [of t j] k that Nil.prems(5,7) t by auto
    show "ld64 m' (ent u (of_nat j)) = ld64 m (ent u (of_nat j))" if "frame u" "unat u \<in> set (owned n m t zs)" "j < 512" for u j
      using Nil.prems(10) [of u j] k(3) that Nil.prems(9) t by auto
  qed
  then show ?case unfolding is_eq t owned_append owned_Cons shaped_append shaped_Cons using t by auto
next
  case (Cons i p)
  obtain l where n: "n = Suc l" using Cons.prems(2) by (cases n) auto
  obtain xs ys where is_eq: "is = xs @ i # ys" using Cons.prems(8) by (auto dest: split_list)
  let ?e = "ld64 m (ent t0 (of_nat i))"
  let ?c = "rv_pte_to_pa ?e"
  have e: "table_pte ?e" "tab m ?c p = Some t" using Cons.prems(1) by (auto simp: tab.simps Let_def split: if_splits)
  have F: "entry_owned n m ?e = unat ?c # owned l m ?c [0..<512]" using e(1) n by (simp add: entry_owned_def table_pte_def)
  have tF: "unat t \<in> set (entry_owned n m ?e)"
  proof (cases p)
    case (Cons j q)
    then show ?thesis using e F n Cons.prems tab_owned [OF e(2), of "[0..<512]" l] by simp
  qed (use e F in simp)
  have dist: "distinct (unat t0 # entry_owned n m ?e @ owned n m t0 xs @ owned n m t0 ys)"
    using Cons.prems(9) by (auto simp: is_eq owned_append owned_Cons)
  then have t0: "t0 \<noteq> t" using tF by auto
  have part: "owned n m' t0 zs = owned n m t0 zs \<and> shaped n m' t0 zs = shaped n m t0 zs" if "zs = xs \<or> zs = ys" for zs
  proof (rule owned_cong)
    have k: "set zs \<subseteq> set is" "set (owned n m t0 zs) \<subseteq> set (owned n m t0 is)" using that by (auto simp: is_eq owned_append owned_Cons)
    show "ld64 m' (ent t0 (of_nat j)) = ld64 m (ent t0 (of_nat j))" if "j \<in> set zs" for j
      using Cons.prems(10) [of t0 j] k that Cons.prems(5,7) t0 by auto
    show "ld64 m' (ent u (of_nat j)) = ld64 m (ent u (of_nat j))" if "frame u" "unat u \<in> set (owned n m t0 zs)" "j < 512" for u j
      using Cons.prems(10) [of u j] k(2) that \<open>zs = xs \<or> zs = ys\<close> dist tF by auto
  qed
  have e': "ld64 m' (ent t0 (of_nat i)) = ?e" using Cons.prems(10) [of t0 i] Cons.prems(3,5) t0 by simp
  have sub: "set (unat ?c # owned l m ?c [0..<512]) \<subseteq> set (unat t0 # owned n m t0 is)" using F by (auto simp: is_eq owned_append owned_Cons)
  have IH: "mset (owned l m' ?c [0..<512]) + mset (entry_owned d m (ld64 m (ent t (of_nat k)))) =
      mset (owned l m ?c [0..<512]) + mset (entry_owned d m' (ld64 m' (ent t (of_nat k)))) \<and>
    (shaped l m ?c [0..<512] \<longrightarrow> entry_shaped d m' (ld64 m' (ent t (of_nat k))) \<longrightarrow> shaped l m' ?c [0..<512])"
    using e(2) Cons.prems(2-4) n pte_to_pa_frame dist F sub Cons.prems(10)
    by (intro Cons.IH) (auto simp: subset_iff, cases p, auto)
  show ?case unfolding is_eq owned_append owned_Cons shaped_append shaped_Cons e'
    using part IH e(1) n by (auto simp: entry_owned_def entry_shaped_def table_pte_def)
qed

text \<open>An address space with everything it owns; \<open>H\<close> are the other frames in use, \<open>N\<close> the reserved ones.\<close>

definition high_ok :: "mem \<Rightarrow> u64 \<Rightarrow> bool" where
  "high_ok m root \<longleftrightarrow> (\<forall>i \<in> {256..<512}. \<not> table_pte (ld64 m (ent root (of_nat i))))"

definition space_ok :: "nat set \<Rightarrow> nat set \<Rightarrow> u64 \<Rightarrow> vm_state \<Rightarrow> bool" where
  "space_ok N H root s \<longleftrightarrow>
     (let own = unat root # owned 2 (v_mem s) root [0..<256]
      in pt_ok s root \<and> high_ok (v_mem s) root \<and> shaped 2 (v_mem s) root [0..<256] \<and> distinct own \<and> H \<inter> set own = {} \<and>
         pmm_held (v_pm s) = H \<union> set own \<and> pmm_pinned (v_pm s) = N \<and> N \<subseteq> H)"

lemma space_root: "space_ok N H root s \<Longrightarrow> frame root"
  using tree_frame [of "v_mem s" root _ "[]" root] by (auto simp: space_ok_def Let_def pt_ok_def)

lemma space_pt: "space_ok N H root s \<Longrightarrow> pt_ok s root"
  by (simp add: space_ok_def Let_def)

lemma owned_empty: "(\<And>i. i \<in> set is \<Longrightarrow> ld64 m (ent t (of_nat i)) AND 1 = 0) \<Longrightarrow> owned n m t is = [] \<and> shaped n m t is"
  by (induction "is") (simp_all add: owned_Cons entry_owned_def shaped_Cons entry_shaped_def)

abbreviation own :: "u64 \<Rightarrow> vm_state \<Rightarrow> nat list" where
  "own root s \<equiv> owned 2 (v_mem s) root [0..<256]"

lemma space_add:
  assumes "space_ok N H root s" "pt_ok s' root" "high_ok (v_mem s') root" "shaped 2 (v_mem s') root [0..<256]" "mset (own root s') = mset (a # own root s)"
    and "a \<notin> set (unat root # own root s)" "H' \<subseteq> H" "a \<notin> H'" "pmm_held (v_pm s') = H' \<union> insert a (set (unat root # own root s))"
    "pmm_pinned (v_pm s') = N" "N \<subseteq> H'"
  shows "space_ok N H' root s'"
proof -
  have "set (own root s') = insert a (set (own root s))" using mset_eq_setD [OF assms(5)] by simp
  moreover have "distinct (own root s')" using mset_eq_imp_distinct_iff [OF assms(5)] assms(1,6) by (simp add: space_ok_def Let_def)
  ultimately show ?thesis using assms by (auto simp: space_ok_def Let_def)
qed

lemma space_drop:
  assumes "space_ok N H root s" "pt_ok s' root" "high_ok (v_mem s') root" "shaped 2 (v_mem s') root [0..<256]" "mset (a # own root s') = mset (own root s)"
    and "pmm_held (v_pm s') = pmm_held (v_pm s) - {a}" "pmm_pinned (v_pm s') = N"
  shows "space_ok N H root s'"
proof -
  have "insert a (set (own root s')) = set (own root s)" using mset_eq_setD [OF assms(5)] by simp
  moreover have "distinct (a # own root s')" using mset_eq_imp_distinct_iff [OF assms(5)] assms(1) by (simp add: space_ok_def Let_def)
  ultimately show ?thesis using assms by (auto simp: space_ok_def Let_def)
qed

lemma space_write:
  assumes "space_ok N H root s" "tab (v_mem s) root p = Some t" "path p" "k < 512" "hd (p @ [k]) < 256" "length p + d = 2"
    and "\<forall>u j. frame u \<and> unat u \<in> pmm_held (v_pm s) \<and> j < 512 \<and> (u, j) \<noteq> (t, k) \<longrightarrow> ld64 m' (ent u (of_nat j)) = ld64 (v_mem s) (ent u (of_nat j))"
  shows "mset (owned 2 m' root [0..<256]) + mset (entry_owned d (v_mem s) (ld64 (v_mem s) (ent t (of_nat k)))) =
      mset (own root s) + mset (entry_owned d m' (ld64 m' (ent t (of_nat k))))"
    "entry_shaped d m' (ld64 m' (ent t (of_nat k))) \<Longrightarrow> shaped 2 m' root [0..<256]" "high_ok m' root"
proof -
  have s: "frame root" "distinct (unat root # own root s)" "pmm_held (v_pm s) = H \<union> set (unat root # own root s)" "shaped 2 (v_mem s) root [0..<256]"
    using assms(1) space_root by (auto simp: space_ok_def Let_def)
  have "mset (owned 2 m' root [0..<256]) + mset (entry_owned d (v_mem s) (ld64 (v_mem s) (ent t (of_nat k)))) =
      mset (own root s) + mset (entry_owned d m' (ld64 m' (ent t (of_nat k)))) \<and>
    (shaped 2 (v_mem s) root [0..<256] \<longrightarrow> entry_shaped d m' (ld64 m' (ent t (of_nat k))) \<longrightarrow> shaped 2 m' root [0..<256])"
    using assms s by (intro owned_write) (auto simp: path_def)
  then show "mset (owned 2 m' root [0..<256]) + mset (entry_owned d (v_mem s) (ld64 (v_mem s) (ent t (of_nat k)))) =
      mset (own root s) + mset (entry_owned d m' (ld64 m' (ent t (of_nat k))))"
    "entry_shaped d m' (ld64 m' (ent t (of_nat k))) \<Longrightarrow> shaped 2 m' root [0..<256]" using s(4) by simp_all
  have "high_ok (v_mem s) root" "tree_ok (v_mem s) root (pmm_held (v_pm s))" using assms(1) by (auto simp: space_ok_def Let_def pt_ok_def)
  moreover have "(root, i) \<noteq> (t, k)" if "256 \<le> i" for i
    using tree_inj [OF \<open>tree_ok _ _ _\<close> assms(3) path_Nil assms(2)] assms(5) that by auto
  ultimately show "high_ok m' root" using assms(7) s(1,3) by (simp add: high_ok_def)
qed

text \<open>A walk in the user half keeps the address space.\<close>

lemma space_grow:
  assumes "space_ok N H root s" "path p" "length p \<le> 1" "tab (v_mem s) root p = Some t" "k < 512" "hd (p @ [k]) < 256"
    and e: "ld64 (v_mem s) (ent t (of_nat k)) AND 1 = 0" and pa: "pmm_alloc_pages (v_pm s) 1 = Some (pa, pm)" "pa \<noteq> 0"
  defines "s' \<equiv> s\<lparr>v_pm := pm, v_mem := st64 (memset (v_mem s) pa 0 4096) (ent t (of_nat k)) (rv_make_table_pte pa)\<rparr>"
  shows "space_ok N H root s'"
proof -
  have P: "pt_ok s root" "pmm_held (v_pm s) = H \<union> set (unat root # own root s)" "pmm_pinned (v_pm s) = N" "N \<subseteq> H"
    using assms(1) by (simp_all add: space_ok_def Let_def)
  then have ok: "pm_ok (v_pm s)" "tree_ok (v_mem s) root (pmm_held (v_pm s))" by (simp_all add: pt_ok_def)
  note a = alloc_page [OF ok(1) pa]
  have inv: "\<not> table_pte (ld64 (v_mem s) (ent t (of_nat k)))" using e by (simp add: table_pte_def)
  have fp: "frame pa" "unat pa \<notin> pmm_held (v_pm s)" using a by simp_all
  note l = new_table_ok(3) [OF ok(2) assms(2-5) inv fp]
  note g = grow_ok [OF P(1) assms(2-5) e pa, folded s'_def]
  have m': "ld64 (v_mem s') (ent u (of_nat j)) = (if u = t \<and> j = k then rv_make_table_pte pa else if u = pa then 0 else ld64 (v_mem s) (ent u (of_nat j)))"
    if "frame u" "j < 512" for u j using l [OF that] by (simp add: s'_def)
  define c where "c = 1 - length p"
  have c: "length p + Suc c = 2" using assms(3) by (simp add: c_def)
  have tf: "frame t" "unat t \<in> pmm_held (v_pm s)" using tree_frame [OF ok(2) assms(2,4)] by simp_all
  have emp: "owned c (v_mem s') pa [0..<512] = [] \<and> shaped c (v_mem s') pa [0..<512]"
    using m' [OF fp(1)] tf fp(2) by (intro owned_empty) auto
  have w: "rv_make_table_pte pa AND 1 \<noteq> 0 \<and> \<not> rv_pte_is_leaf (rv_make_table_pte pa)" "rv_pte_to_pa (rv_make_table_pte pa) = pa"
    using new_table_pte [OF fp(1)] by (simp_all add: table_pte_def)
  have agree: "\<forall>u j. frame u \<and> unat u \<in> pmm_held (v_pm s) \<and> j < 512 \<and> (u, j) \<noteq> (t, k) \<longrightarrow>
      ld64 (v_mem s') (ent u (of_nat j)) = ld64 (v_mem s) (ent u (of_nat j))" using m' fp(2) by auto
  note W = space_write [OF assms(1,4,2,5,6) c agree]
  have E: "entry_owned (Suc c) (v_mem s') (ld64 (v_mem s') (ent t (of_nat k))) = [unat pa]" "entry_shaped (Suc c) (v_mem s') (ld64 (v_mem s') (ent t (of_nat k)))"
    using g(2) w emp by (simp_all add: entry_owned_def entry_shaped_def)
  have E0: "entry_owned (Suc c) (v_mem s) (ld64 (v_mem s) (ent t (of_nat k))) = []" using e by (simp add: entry_owned_def)
  have pin: "pmm_pinned pm = pmm_pinned (v_pm s)" using pmm.alloc_ready [of "v_pm s" 1 pa pm] pa ok(1) by (simp add: pm_ok_def)
  show ?thesis
  proof (rule space_add [OF assms(1), where a = "unat pa" and H' = H])
    show "pt_ok s' root" using g(1) by (simp add: extends_def)
    show "high_ok (v_mem s') root" by (rule W(3))
    show "shaped 2 (v_mem s') root [0..<256]" by (rule W(2) [OF E(2)])
    show "mset (own root s') = mset (unat pa # own root s)" using W(1) unfolding E(1) E0 by simp
    show "unat pa \<notin> set (unat root # own root s)" "unat pa \<notin> H" using fp(2) P(2) by auto
    show "pmm_held (v_pm s') = H \<union> insert (unat pa) (set (unat root # own root s))" using a P(2) by (simp add: s'_def)
    show "pmm_pinned (v_pm s') = N" using pin P(3) by (simp add: s'_def)
  qed (use P(4) in simp_all)
qed

lemma space_walk_level:
  assumes "space_ok N H root s" "path p" "length p \<le> 1" "tab (v_mem s) root p = Some t" "k < 512" "hd (p @ [k]) < 256"
    and "rv_walk_level s (ent t (of_nat k)) True = Some (r, s')"
  shows "space_ok N H root s'"
proof (cases "ld64 (v_mem s) (ent t (of_nat k)) AND 1 = 0")
  case True
  have rd: "pmm_ready (v_pm s)" using assms(1) by (simp add: space_ok_def Let_def pt_ok_def pm_ok_def)
  then obtain pa pm where a: "pmm_alloc_pages (v_pm s) 1 = Some (pa, pm)" using pmm.alloc_returns [of "v_pm s" 1] by auto
  show ?thesis
  proof (cases "pa = 0")
    case pa: True
    then have "pm = v_pm s" using pmm.alloc_none [OF rd, of 1 pm] a by simp
    then show ?thesis using assms(1,7) True a pa by (simp add: rv_walk_level_def)
  next
    case pa: False
    then show ?thesis using space_grow [OF assms(1-6) True a pa] assms(7) True a by (auto simp: rv_walk_level_def split: if_splits)
  qed
next
  case False
  then show ?thesis using assms(1,7) by (auto simp: rv_walk_level_def split: if_splits)
qed

lemma space_walk:
  assumes "space_ok N H root s" "vpn va 2 < 256" "rv_walk_l0_pte s root va True = Some (r, s')"
  shows "space_ok N H root s'" "r = Some a \<Longrightarrow> \<exists>t. tab (v_mem s') root (vpath va) = Some t \<and> a = ent t (of_nat (vpn va 0))"
    "vm_pte s' root va' = vm_pte s root va'"
proof -
  have ok: "pt_ok s root" using assms(1) by (simp add: space_ok_def Let_def)
  obtain r0 s0 where "rv_walk_l0_pte s root va True = Some (r0, s0)" "extends root s s0"
    "\<And>a. r0 = Some a \<Longrightarrow> \<exists>t. tab (v_mem s0) root (vpath va) = Some t \<and> a = ent t (of_nat (vpn va 0))"
    using walk_ok [OF ok, of va] by metis
  then show "r = Some a \<Longrightarrow> \<exists>t. tab (v_mem s') root (vpath va) = Some t \<and> a = ent t (of_nat (vpn va 0))" "vm_pte s' root va' = vm_pte s root va'"
    using assms(3) extends_pte [of root s s'] by auto
  obtain r1 s1 where 1: "rv_walk_level s (ent root (RV_VPN va 2)) True = Some (r1, s1)" "extends root s s1"
    "\<And>t. r1 = Some t \<Longrightarrow> tab (v_mem s1) root [vpn va 2] = Some t"
    by (rule walk_level_ok [OF ok, of "[]" root "vpn va 2"]) (auto simp: vpn_less ent_vpn)
  have s1: "space_ok N H root s1"
    using assms(1,2) 1(1) by (intro space_walk_level [of N H root s "[]" root "vpn va 2" r1 s1]) (simp_all add: vpn_less ent_vpn)
  show "space_ok N H root s'"
  proof (cases r1)
    case None
    then show ?thesis using assms(3) 1(1) s1 by (simp add: rv_walk_l0_pte_def)
  next
    case (Some t1)
    then obtain r2 s2 where 2: "rv_walk_level s1 (ent t1 (RV_VPN va (Suc 0))) True = Some (r2, s2)" "s' = s2"
      using assms(3) 1(1) by (auto simp: rv_walk_l0_pte_def split: bind_splits option.splits)
    then show ?thesis using s1 1(3) [OF Some] assms(2)
      by (intro space_walk_level [of N H root s1 "[vpn va 2]" t1 "vpn va (Suc 0)" r2 s']) (simp_all add: vpn_less ent_vpn path_def)
  qed
qed

lemma space_write_pte:
  fixes v :: u64
  assumes "space_ok N H root s" "tab (v_mem s) root (vpath va) = Some t" "vpn va 2 < 256"
  defines "s' \<equiv> s\<lparr>v_mem := st64 (v_mem s) (ent t (of_nat (vpn va 0))) v\<rparr>"
  shows "mset (own root s') + mset (entry_owned 0 (v_mem s) (vm_pte s root va)) = mset (own root s) + mset (entry_owned 0 (v_mem s') v)"
    "entry_shaped 0 (v_mem s') v \<Longrightarrow> shaped 2 (v_mem s') root [0..<256]" "pt_ok s' root" "high_ok (v_mem s') root"
proof -
  have ok: "pt_ok s root" "tree_ok (v_mem s) root (pmm_held (v_pm s))" using space_pt [OF assms(1)] by (simp_all add: pt_ok_def)
  have ft: "frame t" using tree_frame [OF ok(2) vpath_path assms(2)] by simp
  have l: "ld64 (v_mem s') (ent u (of_nat j)) = (if u = t \<and> j = vpn va 0 then v else ld64 (v_mem s) (ent u (of_nat j)))" if "frame u" "j < 512" for u j
    using ld_st_ent [OF ft that(1) vpn_less that(2)] by (simp add: s'_def)
  then have agree: "\<forall>u j. frame u \<and> unat u \<in> pmm_held (v_pm s) \<and> j < 512 \<and> (u, j) \<noteq> (t, vpn va 0) \<longrightarrow>
      ld64 (v_mem s') (ent u (of_nat j)) = ld64 (v_mem s) (ent u (of_nat j))" by auto
  have "length (vpath va) + 0 = 2" "hd (vpath va @ [vpn va 0]) < 256" using assms(3) by simp_all
  note W = space_write [OF assms(1,2) vpath_path vpn_less this(2,1) agree]
  have e: "ld64 (v_mem s') (ent t (of_nat (vpn va 0))) = v" "ld64 (v_mem s) (ent t (of_nat (vpn va 0))) = vm_pte s root va"
    using l [OF ft vpn_less] assms(2) by (simp_all add: vm_pte_def pte_of_def)
  show "mset (own root s') + mset (entry_owned 0 (v_mem s) (vm_pte s root va)) = mset (own root s) + mset (entry_owned 0 (v_mem s') v)"
    "entry_shaped 0 (v_mem s') v \<Longrightarrow> shaped 2 (v_mem s') root [0..<256]" "high_ok (v_mem s') root" using W unfolding e by simp_all
  show "pt_ok s' root" unfolding s'_def by (rule write_pte_ok(1) [OF ok(1) assms(2)])
qed

lemma perm_keep: "RV_PTE_FROM_PA pa (rv_perm_to_flags sg perm OR 1) AND 0x200 = 0" "RV_PTE_FROM_PA pa (rv_perm_to_flags sg perm OR 1) AND 0x100 = 0"
  "RV_PTE_FROM_PA pa (rv_perm_to_flags sg perm OR 1) AND 1 \<noteq> 0"
  by (cases perm; cases sg; simp add: rv_perm_to_flags_def pte_low_bits)+

text \<open>Mapping a page that nobody else knows hands it to the address space, unless it fails.\<close>

lemma space_map:
  assumes "space_ok N (insert (unat pa) H) root s" "unat pa \<notin> H" "N \<subseteq> H" "frame pa" "vpn va 2 < 256"
    and "mm_vm_map_pages sg s root va pa 1 perm = Some (r, s')"
  shows "r = 0 \<and> space_ok N H root s' \<or> r = - 1 \<and> space_ok N (insert (unat pa) H) root s'"
proof -
  let ?v = "RV_PTE_FROM_PA pa (rv_perm_to_flags sg perm OR 1)"
  obtain p s1 where 1: "rv_walk_l0_pte s root va True = Some (p, s1)" using walk_ok [OF space_pt [OF assms(1)], of va] by metis
  note w = space_walk [OF assms(1,5) 1]
  show ?thesis
  proof (cases "p = None \<or> vm_pte s1 root va AND 1 \<noteq> 0")
    case True
    then have "r = - 1 \<and> s' = s1"
      using assms(6) 1 w(2) by (cases p) (auto simp: mm_vm_map_pages_def vm_pte_def pte_of_def split: if_splits)
    then show ?thesis using w(1) by simp
  next
    case False
    then obtain a t where a: "p = Some a" "tab (v_mem s1) root (vpath va) = Some t" "a = ent t (of_nat (vpn va 0))" using w(2) by auto
    have old: "vm_pte s1 root va AND 1 = 0" "ld64 (v_mem s1) a = vm_pte s1 root va" using False a by (simp_all add: vm_pte_def pte_of_def)
    have r: "r = 0" "s' = s1\<lparr>v_mem := st64 (v_mem s1) (ent t (of_nat (vpn va 0))) ?v\<rparr>"
      using assms(6) 1 a old by (simp_all add: mm_vm_map_pages_def)
    note W = space_write_pte [OF w(1) a(2) assms(5), of ?v, folded r(2)]
    have E: "entry_owned 0 (v_mem s1) (vm_pte s1 root va) = []" "entry_owned 0 (v_mem s') ?v = [unat pa]" "entry_shaped 0 (v_mem s') ?v"
      using old(1) perm_keep [of pa sg perm] perm_flags(2,3) pte_from_to [OF assms(4) perm_flags(2)]
      by (simp_all add: entry_owned_def entry_shaped_def)
    have S: "insert (unat pa) H \<inter> set (unat root # own root s1) = {}" "pmm_held (v_pm s1) = insert (unat pa) H \<union> set (unat root # own root s1)"
      "pmm_pinned (v_pm s1) = N" using w(1) by (auto simp: space_ok_def Let_def)
    have "space_ok N H root s'"
    proof (rule space_add [OF w(1) W(3,4) W(2) [OF E(3)], where a = "unat pa"])
      show "mset (own root s') = mset (unat pa # own root s1)" using W(1) unfolding E by simp
    qed (use S assms(2,3) r(2) in auto)
    then show ?thesis using r(1) by simp
  qed
qed

lemma entry_at:
  assumes "tab m t0 p = Some t" "length p + d = n" "\<forall>i \<in> set p. i < 512" "k < 512" "hd (p @ [k]) \<in> set is"
  shows "set (entry_owned d m (ld64 m (ent t (of_nat k)))) \<subseteq> set (owned n m t0 is)"
    "shaped n m t0 is \<Longrightarrow> entry_shaped d m (ld64 m (ent t (of_nat k)))"
proof -
  have "set (entry_owned d m (ld64 m (ent t (of_nat k)))) \<subseteq> set (owned n m t0 is) \<and>
      (shaped n m t0 is \<longrightarrow> entry_shaped d m (ld64 m (ent t (of_nat k))))"
    using assms
  proof (induction p arbitrary: t0 n "is")
    case Nil
    then obtain xs ys where "is = xs @ k # ys" by (auto dest: split_list)
    then show ?case using Nil by (auto simp: owned_append owned_Cons shaped_append shaped_Cons)
  next
    case (Cons i p)
    obtain l where n: "n = Suc l" using Cons.prems(2) by (cases n) auto
    obtain xs ys where is_eq: "is = xs @ i # ys" using Cons.prems(5) by (auto dest: split_list)
    let ?e = "ld64 m (ent t0 (of_nat i))"
    have e: "table_pte ?e" "tab m (rv_pte_to_pa ?e) p = Some t" using Cons.prems(1) by (auto simp: tab.simps Let_def split: if_splits)
    have "hd (p @ [k]) \<in> set [0..<512]" using Cons.prems(3,4) by (cases p) auto
    then show ?case using Cons.IH [OF e(2), of l "[0..<512]"] Cons.prems e(1) n
      by (auto simp: is_eq owned_append owned_Cons shaped_append shaped_Cons entry_owned_def entry_shaped_def table_pte_def)
  qed
  then show "set (entry_owned d m (ld64 m (ent t (of_nat k)))) \<subseteq> set (owned n m t0 is)"
    "shaped n m t0 is \<Longrightarrow> entry_shaped d m (ld64 m (ent t (of_nat k)))" by simp_all
qed

lemma space_same:
  assumes "space_ok N H root s" "pt_ok s' root" "high_ok (v_mem s') root" "shaped 2 (v_mem s') root [0..<256]" "mset (own root s') = mset (own root s)" "v_pm s' = v_pm s"
  shows "space_ok N H root s'"
  using assms mset_eq_setD [OF assms(5)] mset_eq_imp_distinct_iff [OF assms(5)] by (simp add: space_ok_def Let_def)

lemma tab_own:
  assumes "high_ok m root" "path p" "tab m root p = Some u" shows "unat u \<in> set (unat root # owned 2 m root [0..<256])"
proof (cases p)
  case (Cons i q)
  have "i < 256" using assms Cons by (auto simp: high_ok_def path_def tab.simps Let_def split: if_splits)
  then show ?thesis using tab_owned [OF assms(3), of "[0..<256]" 2] assms(2) Cons by (simp add: path_def)
qed (use assms(3) in simp)

lemma space_unmap:
  assumes "space_ok N H root s" "vpn va 2 < 256" "mm_vm_unmap_page s root va = Some (r, s')"
  shows "space_ok N H root s'"
proof (cases "tab (v_mem s) root (vpath va) = None \<or> vm_pte s root va AND 1 = 0 \<or> \<not> rv_pte_is_leaf (vm_pte s root va)")
  case True
  then show ?thesis using assms(1,3) by (auto simp: mm_vm_unmap_page_def walk_lookup vm_pte_def pte_of_def Let_def split: option.splits if_splits)
next
  case False
  let ?e = "vm_pte s root va"
  obtain t where t: "tab (v_mem s) root (vpath va) = Some t" "ld64 (v_mem s) (ent t (of_nat (vpn va 0))) = ?e" "?e AND 1 \<noteq> 0" "rv_pte_is_leaf ?e"
    using False by (auto simp: vm_pte_def pte_of_def)
  have S: "shaped 2 (v_mem s) root [0..<256]" "H \<inter> set (unat root # own root s) = {}" "pmm_held (v_pm s) = H \<union> set (unat root # own root s)"
    "pmm_pinned (v_pm s) = N" "N \<subseteq> H" "pm_ok (v_pm s)" using assms(1) by (simp_all add: space_ok_def Let_def pt_ok_def)
  note at = entry_at [OF t(1), of 0 2 "vpn va 0" "[0..<256]", unfolded t(2)]
  let ?F = "if ?e AND 0x200 \<noteq> 0 then [] else [unat (rv_pte_to_pa ?e)]"
  have E: "entry_owned 0 m ?e = ?F" for m using t(3) by (simp add: entry_owned_def)
  have A: "?e AND 0x100 = 0" "set ?F \<subseteq> set (own root s)" using at S(1) t(3) assms(2) by (simp_all add: vpn_less E entry_shaped_def)
  have B: "?e AND 0x200 = 0 \<longrightarrow> unat (rv_pte_to_pa ?e) \<in> pmm_held (v_pm s) - pmm_pinned (v_pm s)" using A(2) S(2-5) by auto
  obtain s1 where s1: "rv_drop_leaf s ?e = Some s1" "released root ?F s s1" "v_mem s1 = v_mem s" by (rule drop_leaf_ok [OF S(6) A(1) B])
  define s2 where "s2 = s\<lparr>v_mem := st64 (v_mem s) (ent t (of_nat (vpn va 0))) 0\<rparr>"
  note W = space_write_pte [OF assms(1) t(1) assms(2), of 0, folded s2_def]
  have s': "s' = s1\<lparr>v_mem := v_mem s2\<rparr>" using assms(3) t s1 by (simp add: mm_vm_unmap_page_def walk_lookup Let_def s2_def)
  have E0: "entry_owned 0 (v_mem s2) 0 = []" "entry_shaped 0 (v_mem s2) 0" by (simp_all add: entry_owned_def entry_shaped_def)
  have ms: "mset (own root s2) + mset ?F = mset (own root s)" using W(1) unfolding E E0 by simp
  have sh: "shaped 2 (v_mem s2) root [0..<256]" by (rule W(2) [OF E0(2)])
  show ?thesis
  proof (cases "?e AND 0x200 = 0")
    case True
    let ?a = "unat (rv_pte_to_pa ?e)"
    have d: "distinct (unat root # own root s)" using assms(1) by (simp add: space_ok_def Let_def)
    have m: "mset (?a # own root s2) = mset (own root s)" using ms True by simp
    have set_eq: "set (own root s) = insert ?a (set (own root s2))" using mset_eq_setD [OF m] by simp
    have "distinct (?a # own root s2)" using mset_eq_imp_distinct_iff [OF m] d by simp
    then have n: "?a \<notin> set (unat root # own root s2)" using d set_eq by auto
    have "tree_ok (v_mem s2) root (pmm_held (v_pm s))" using W(3) by (simp add: pt_ok_def s2_def)
    then have "tree_ok (v_mem s2) root (pmm_held (v_pm s) - {?a})" using tab_own [OF W(4)] n unfolding tree_ok_def by (metis DiffI singletonD)
    moreover have p: "pm_ok (v_pm s1)" "pmm_held (v_pm s1) = pmm_held (v_pm s) - {?a}" "pmm_pinned (v_pm s1) = N" using s1(2) True S(4) by (simp_all add: released_def)
    ultimately have "pt_ok s' root" by (simp add: pt_ok_def s')
    then show ?thesis using W(4) sh m p by (intro space_drop [OF assms(1), where a = ?a]) (simp_all add: s')
  next
    case False
    then have "s1 = s" using s1(1) by (simp add: rv_drop_leaf_def)
    then show ?thesis using W(3,4) sh ms False by (intro space_same [OF assms(1)]) (simp_all add: s' pt_ok_def s2_def)
  qed
qed

lemma tree_mono: "tree_ok m root h \<Longrightarrow> (\<And>p t. path p \<Longrightarrow> tab m root p = Some t \<Longrightarrow> unat t \<in> h') \<Longrightarrow> tree_ok m root h'"
  unfolding tree_ok_def by blast

text \<open>A page is taken from the allocator for the address space, or given back.\<close>

lemma space_pm:
  assumes S: "space_ok N H root s" and p: "pm_ok pm" "pmm_held pm = H' \<union> set (unat root # own root s)" "pmm_pinned pm = N"
    and H: "N \<subseteq> H'" "H' \<inter> set (unat root # own root s) = {}"
  shows "space_ok N H' root (s\<lparr>v_pm := pm\<rparr>)"
proof -
  have T: "tree_ok (v_mem s) root (pmm_held (v_pm s))" "high_ok (v_mem s) root" "shaped 2 (v_mem s) root [0..<256]" "distinct (unat root # own root s)"
    using S unfolding space_ok_def Let_def pt_ok_def by blast+
  have "tree_ok (v_mem s) root (pmm_held pm)" using tab_own [OF T(2)] p(2) by (intro tree_mono [OF T(1)]) blast
  then show ?thesis using T(2-4) p H unfolding space_ok_def Let_def pt_ok_def by simp
qed

lemma space_parts:
  assumes "space_ok N H root s"
  shows "pm_ok (v_pm s)" "pmm_held (v_pm s) = H \<union> set (unat root # own root s)" "pmm_pinned (v_pm s) = N" "N \<subseteq> H"
    "H \<inter> set (unat root # own root s) = {}" "distinct (unat root # own root s)" "shaped 2 (v_mem s) root [0..<256]"
  using assms unfolding space_ok_def Let_def pt_ok_def by blast+

lemma space_alloc:
  assumes "space_ok N H root s" "pmm_alloc_pages (v_pm s) 1 = Some (pa, pm)" "pa \<noteq> 0"
  shows "space_ok N (insert (unat pa) H) root (s\<lparr>v_pm := pm\<rparr>)" "frame pa" "unat pa \<notin> H" "N \<subseteq> H"
proof -
  note S = space_parts [OF assms(1)] and a = alloc_page [OF space_parts(1) [OF assms(1)] assms(2,3)]
  have p: "pmm_pinned pm = N" using pmm.alloc_ready [of "v_pm s" 1 pa pm] assms(2) S(1,3) by (simp add: pm_ok_def)
  have n: "unat pa \<notin> H \<union> set (unat root # own root s)" using a S(2) by simp
  have h: "pmm_held pm = insert (unat pa) H \<union> set (unat root # own root s)" using a S(2) by (simp add: insert_commute)
  have d: "insert (unat pa) H \<inter> set (unat root # own root s) = {}" using n S(5) by blast
  show "space_ok N (insert (unat pa) H) root (s\<lparr>v_pm := pm\<rparr>)"
    using space_pm [OF assms(1) _ h p _ d] a S(4) by blast
  show "frame pa" "unat pa \<notin> H" "N \<subseteq> H" using a n S(4) by simp_all
qed

lemma space_free:
  assumes "space_ok N (insert (unat pa) H) root s" "unat pa \<notin> H" "N \<subseteq> H" "pmm_free_pages (v_pm s) pa 1 = Some (b, pm)"
  shows "space_ok N H root (s\<lparr>v_pm := pm\<rparr>)"
proof -
  note S = space_parts [OF assms(1)]
  have "unat pa \<in> pmm_held (v_pm s) - pmm_pinned (v_pm s)" using S(2,3) assms(2,3) by blast
  then obtain b2 pm2 where f2: "pmm_free_pages (v_pm s) pa 1 = Some (b2, pm2)" "pm_ok pm2" "pmm_held pm2 = pmm_held (v_pm s) - {unat pa}"
    "pmm_pinned pm2 = pmm_pinned (v_pm s)" by (rule free_page [OF S(1)])
  then have f: "pm_ok pm" "pmm_held pm = pmm_held (v_pm s) - {unat pa}" "pmm_pinned pm = N" using assms(4) S(3) by simp_all
  have d: "H \<inter> set (unat root # own root s) = {}" "unat pa \<notin> set (unat root # own root s)" using S(5) by blast+
  have h: "pmm_held pm = H \<union> set (unat root # own root s)" unfolding f(2) S(2) using d(2) assms(2) by blast
  show ?thesis by (rule space_pm [OF assms(1) f(1) h f(3) assms(3) d(1)])
qed

text \<open>
  What happens to a user address space between its creation and its end: pages are taken from the
  allocator and mapped one by one in the lower half, a page that cannot be mapped is given back, and
  mapped pages are unmapped, in any order.
\<close>

inductive space_step :: "bool \<Rightarrow> u64 \<Rightarrow> vm_state \<Rightarrow> vm_state \<Rightarrow> bool" for sg root where
  map_page: "pmm_alloc_pages (v_pm s) 1 = Some (pa, pm) \<Longrightarrow> pa \<noteq> 0 \<Longrightarrow> vpn va 2 < 256 \<Longrightarrow>
    mm_vm_map_pages sg (s\<lparr>v_pm := pm\<rparr>) root va pa 1 perm = Some (0, s') \<Longrightarrow> space_step sg root s s'"
| map_fails: "pmm_alloc_pages (v_pm s) 1 = Some (pa, pm) \<Longrightarrow> pa \<noteq> 0 \<Longrightarrow> vpn va 2 < 256 \<Longrightarrow>
    mm_vm_map_pages sg (s\<lparr>v_pm := pm\<rparr>) root va pa 1 perm = Some (- 1, s') \<Longrightarrow> pmm_free_pages (v_pm s') pa 1 = Some (b, pm') \<Longrightarrow>
    space_step sg root s (s'\<lparr>v_pm := pm'\<rparr>)"
| unmap_page: "vpn va 2 < 256 \<Longrightarrow> mm_vm_unmap_page s root va = Some (r, s') \<Longrightarrow> space_step sg root s s'"

lemma space_step_ok: "space_step sg root s s' \<Longrightarrow> space_ok N H root s \<Longrightarrow> space_ok N H root s'"
proof (induction rule: space_step.induct)
  case (map_page s pa pm va perm s')
  note a = space_alloc [OF map_page.prems map_page.hyps(1,2)]
  show ?case using space_map [OF a(1,3,4,2) map_page.hyps(3,4)] by simp
next
  case (map_fails s pa pm va perm s' b pm')
  note a = space_alloc [OF map_fails.prems map_fails.hyps(1,2)]
  from space_map [OF a(1,3,4,2) map_fails.hyps(3,4)] have "space_ok N (insert (unat pa) H) root s'" by simp
  then show ?case by (rule space_free [OF _ a(3,4) map_fails.hyps(5)])
next
  case (unmap_page va s r s')
  show ?case by (rule space_unmap [OF unmap_page.prems unmap_page.hyps])
qed

lemma space_destroy:
  assumes "space_ok N H root s" "root \<noteq> 0"
  obtains s' where "mm_vm_destroy_user_space 1 s root = Some s'" "pmm_held (v_pm s') = H"
proof -
  note S = space_parts [OF assms(1)]
  have "destroyable 2 s root [0..<256]" using S space_root [OF assms(1)] by (auto simp: destroyable_def)
  from destroy_ok [OF this] obtain s1 where s1: "destroy_root 1 s root [0..<256] = Some s1" "released root (own root s) s s1"
    by (auto simp: destroys_def numeral_2_eq_2)
  have k: "pm_ok (v_pm s1)" "unat root \<in> pmm_held (v_pm s1) - pmm_pinned (v_pm s1)" using s1(2) S(2-6) unfolding released_def by auto
  obtain b pm where f: "pmm_free_pages (v_pm s1) root 1 = Some (b, pm)" "pmm_held pm = pmm_held (v_pm s1) - {unat root}" by (rule free_page [OF k])
  have "pmm_held (v_pm s1) = pmm_held (v_pm s) - set (own root s)" using s1(2) unfolding released_def by blast
  then have "pmm_held pm = H" unfolding f(2) S(2) using S(5) by auto
  moreover have "mm_vm_destroy_user_space 1 s root = Some (s1\<lparr>v_pm := pm\<rparr>)" unfolding mm_vm_destroy_user_space_def s1(1) using f(1) assms(2) by simp
  ultimately show thesis by (intro that [of "s1\<lparr>v_pm := pm\<rparr>"]) simp_all
qed

text \<open>
  A fresh address space: a zeroed page in which the kernel's windows are copied from the kernel's own
  table. The copy changes upper-half entries only, and what it puts there are leaves.
\<close>

lemma high_index:
  assumes "pa < 2 ^ 38" obtains i where "i \<in> {256..<512}" "RV_KERNEL_HIGH_INDEX pa = of_nat i"
proof -
  have "unat (drop_bit 30 pa) = unat pa div 2 ^ 30" by (simp add: unat_drop_bit_eq) (simp add: drop_bit_eq_div)
  moreover have "unat pa < 2 ^ 38" using assms by (simp add: word_less_nat_alt)
  ultimately have "256 + unat (drop_bit 30 pa) \<in> {256..<512}" by auto
  moreover have "RV_KERNEL_HIGH_INDEX pa = of_nat (256 + unat (drop_bit 30 pa))" by (simp add: RV_KERNEL_HIGH_INDEX_def)
  ultimately show thesis by (rule that)
qed

lemma copy_kernel:
  assumes "frame root" "frame kroot" "kroot \<noteq> root" "\<forall>pa \<in> set maps. pa < 2 ^ 38"
    and "\<forall>pa \<in> set maps. rv_pte_is_leaf (ld64 m (ent kroot (RV_KERNEL_HIGH_INDEX pa)))"
    and "\<forall>i < 512. ld64 m (ent root (of_nat i)) = 0 \<or> 256 \<le> i \<and> rv_pte_is_leaf (ld64 m (ent root (of_nat i)))"
  shows "\<forall>i < 512. let e = ld64 (riscv64_copy_kernel_mappings maps root kroot m) (ent root (of_nat i))
                   in e = 0 \<or> 256 \<le> i \<and> rv_pte_is_leaf e"
  using assms
proof (induction maps arbitrary: m)
  case (Cons pa maps)
  obtain k where k: "k \<in> {256..<512}" "RV_KERNEL_HIGH_INDEX pa = of_nat k" by (rule high_index [of pa]) (use Cons.prems(4) in simp)
  let ?m = "st64 m (ent root (of_nat k)) (ld64 m (ent kroot (of_nat k)))"
  have keep: "ld64 ?m (ent kroot (RV_KERNEL_HIGH_INDEX b)) = ld64 m (ent kroot (RV_KERNEL_HIGH_INDEX b))" if "b \<in> set maps" for b
  proof -
    have "b < 2 ^ 38" using Cons.prems(4) that by simp
    then obtain j where j: "j \<in> {256..<512}" "RV_KERNEL_HIGH_INDEX b = of_nat j" by (rule high_index)
    show ?thesis unfolding j(2) using ld_st_ent [OF Cons.prems(1,2), of k j m] k(1) j(1) Cons.prems(3) by simp
  qed
  have new: "ld64 ?m (ent root (of_nat i)) = (if i = k then ld64 m (ent kroot (of_nat k)) else ld64 m (ent root (of_nat i)))" if "i < 512" for i
    using ld_st_ent [OF Cons.prems(1,1), of k i m] k(1) that by simp
  have "\<forall>i < 512. ld64 ?m (ent root (of_nat i)) = 0 \<or> 256 \<le> i \<and> rv_pte_is_leaf (ld64 ?m (ent root (of_nat i)))"
    using new Cons.prems(5,6) k by simp
  moreover have "\<forall>b \<in> set maps. rv_pte_is_leaf (ld64 ?m (ent kroot (RV_KERNEL_HIGH_INDEX b)))" using keep Cons.prems(5) by simp
  ultimately show ?case using Cons.IH [of ?m] Cons.prems(1-4) k(2) by (simp add: riscv64_copy_kernel_mappings_def)
qed (simp add: riscv64_copy_kernel_mappings_def Let_def)

lemma space_start:
  assumes "pm_ok pm" "pmm_alloc_pages pm 1 = Some (root, pm1)" "root \<noteq> 0" "frame kroot" "unat kroot \<in> pmm_held pm" "\<forall>pa \<in> set maps. pa < 2 ^ 38"
    and "mm_vm_verify_kernel_mappings maps \<lparr>v_mem = m, v_pm = pm1, v_sp = sp\<rparr> kroot"
  shows "space_ok (pmm_pinned pm) (pmm_held pm) root (mm_vm_init_user_pgd maps kroot root \<lparr>v_mem = memset m root 0 4096, v_pm = pm1, v_sp = sp\<rparr>)"
proof -
  note a = alloc_page [OF assms(1-3)]
  have k: "kroot \<noteq> root" using a assms(5) by auto
  let ?zm = "memset m root 0 4096" and ?m = "riscv64_copy_kernel_mappings maps root kroot (memset m root 0 4096)"
  have "rv_pte_is_leaf (ld64 ?zm (ent kroot (RV_KERNEL_HIGH_INDEX b)))" if b: "b \<in> set maps" for b
  proof -
    have "b < 2 ^ 38" using assms(6) b by simp
    then obtain j where j: "j \<in> {256..<512}" "RV_KERNEL_HIGH_INDEX b = of_nat j" by (rule high_index)
    have "rv_pte_is_leaf (ld64 m (ent kroot (RV_KERNEL_HIGH_INDEX b)))" using assms(7) b by (simp add: mm_vm_verify_kernel_mappings_def)
    then show ?thesis using k a j ld_memset_ent [OF assms(4), of root j m] by simp
  qed
  then have E: "\<forall>i < 512. ld64 ?m (ent root (of_nat i)) = 0 \<or> 256 \<le> i \<and> rv_pte_is_leaf (ld64 ?m (ent root (of_nat i)))"
    using copy_kernel [of root kroot maps ?zm] a k assms(4,6) ld_memset_ent [of root root _ m] by (simp add: Let_def)
  have none: "tab ?m root (i # p) = None" if "i < 512" for i p using E that by (auto simp: tab.simps table_pte_def Let_def)
  then have "tab ?m root p = (if p = [] then Some root else None)" if "path p" for p using that by (cases p) (auto simp: path_def)
  then have "tree_ok ?m root (pmm_held pm1)" using a by (auto simp: tree_ok_def split: if_splits)
  moreover have "high_ok ?m root" using E by (auto simp: high_ok_def table_pte_def)
  moreover have "ld64 ?m (ent root (of_nat i)) = 0" if "i \<in> set [0..<256]" for i using E [rule_format, of i] that by simp
  then have "owned 2 ?m root [0..<256] = [] \<and> shaped 2 ?m root [0..<256]" by (intro owned_empty) simp
  moreover have "pmm_pinned pm1 = pmm_pinned pm" using pmm.alloc_ready [of pm 1 root pm1] assms(1,2) by (simp add: pm_ok_def)
  moreover have "pmm_pinned pm \<subseteq> pmm_held pm" using pmm.pinned_held assms(1) by (simp add: pm_ok_def)
  ultimately show ?thesis using a by (simp add: space_ok_def mm_vm_init_user_pgd_def Let_def pt_ok_def)
qed


definition kpm :: pmm_t where
  "kpm = snd (the (pmm_alloc_pages pmm8 1))"

definition kspace :: vm_state where
  "kspace = mm_vm_init_user_pgd [0x80000000] 0x80000000 0x80001000
     \<lparr>v_mem = memset (st64 (\<lambda>_. 0) (ent 0x80000000 258) 0x200000CF) 0x80001000 0 4096,
      v_pm = snd (the (pmm_alloc_pages kpm 1)),
      v_sp = \<lparr>g_entries = [], g_buckets = [], g_free_head = 0, g_initialized = False\<rparr>\<rparr>"

lemma kpm_ok: "pm_ok kpm" "unat (0x80000000 :: u64) \<in> pmm_held kpm"
  using alloc_page [OF pmm8_ok pmm8_alloc] by (simp_all add: kpm_def)

lemma some_fst: "map_option fst x = Some a \<Longrightarrow> x = Some (a, snd (the x))"
  by (cases x) auto


end
