(* ===== verification/Linked_List.thy ===== *)
theory Linked_List
  imports Avatar_Prelude
begin

text \<open>
  The intrusive doubly linked lists of \<^verbatim>\<open>include/list.h\<close>: run queues and wait queues are built from
  the \<^verbatim>\<open>list_node_t\<close> members of tasks. Nodes live in a store that maps node addresses (natural
  numbers; NULL is \<open>None\<close>) to their two pointers, so that aliasing shows. An operation that follows a
  NULL pointer is \<open>None\<close>. The 32-bit counter is an integer: a list never has more nodes than memory.
\<close>

section \<open>Operations\<close>

record list_node_t =
  pre :: "nat option"
  nxt :: "nat option"

record list_t =
  l_first :: "nat option"
  l_last :: "nat option"
  l_count :: int

type_synonym nodes = "nat \<Rightarrow> list_node_t"

definition list_node_init :: "nodes \<Rightarrow> nat \<Rightarrow> nodes" where
  "list_node_init h n = h(n := \<lparr>pre = None, nxt = None\<rparr>)"

definition list_is_empty :: "list_t \<Rightarrow> bool" where
  "list_is_empty l \<longleftrightarrow> l_count l = 0"

definition list_init :: list_t where
  "list_init = \<lparr>l_first = None, l_last = None, l_count = 0\<rparr>"

definition list_insert_first :: "nodes \<Rightarrow> list_t \<Rightarrow> nat \<Rightarrow> (nodes \<times> list_t) option" where
  "list_insert_first h l n =
     (let h = h(n := \<lparr>pre = None, nxt = l_first l\<rparr>)
      in if l_count l = 0 then Some (h, l\<lparr>l_first := Some n, l_last := Some n, l_count := l_count l + 1\<rparr>)
         else case l_first l of
           None \<Rightarrow> None
         | Some f \<Rightarrow> Some (h(f := (h f)\<lparr>pre := Some n\<rparr>), l\<lparr>l_first := Some n, l_count := l_count l + 1\<rparr>))"

definition list_insert_last :: "nodes \<Rightarrow> list_t \<Rightarrow> nat \<Rightarrow> (nodes \<times> list_t) option" where
  "list_insert_last h l n =
     (let h = h(n := \<lparr>pre = l_last l, nxt = None\<rparr>)
      in if l_count l = 0 then Some (h, l\<lparr>l_first := Some n, l_last := Some n, l_count := l_count l + 1\<rparr>)
         else case l_last l of
           None \<Rightarrow> None
         | Some f \<Rightarrow> Some (h(f := (h f)\<lparr>nxt := Some n\<rparr>), l\<lparr>l_last := Some n, l_count := l_count l + 1\<rparr>))"

definition list_delete_first :: "nodes \<Rightarrow> list_t \<Rightarrow> (nat option \<times> nodes \<times> list_t) option" where
  "list_delete_first h l =
     (if l_count l = 0 then Some (None, h, l)
      else case l_first l of
        None \<Rightarrow> None
      | Some r \<Rightarrow>
          let l = l\<lparr>l_first := nxt (h r)\<rparr>;
              (h, l) = (case l_first l of None \<Rightarrow> (h, l\<lparr>l_last := None\<rparr>) | Some f \<Rightarrow> (h(f := (h f)\<lparr>pre := None\<rparr>), l))
          in Some (Some r, h(r := \<lparr>pre = None, nxt = None\<rparr>), l\<lparr>l_count := l_count l - 1\<rparr>))"

definition list_delete :: "nodes \<Rightarrow> list_t \<Rightarrow> nat \<Rightarrow> nodes \<times> list_t" where
  "list_delete h l n =
     (let (h, l) = (case pre (h n) of Some p \<Rightarrow> (h(p := (h p)\<lparr>nxt := nxt (h n)\<rparr>), l) | None \<Rightarrow> (h, l\<lparr>l_first := nxt (h n)\<rparr>));
          (h, l) = (case nxt (h n) of Some q \<Rightarrow> (h(q := (h q)\<lparr>pre := pre (h n)\<rparr>), l) | None \<Rightarrow> (h, l\<lparr>l_last := pre (h n)\<rparr>))
      in (h(n := \<lparr>pre = None, nxt = None\<rparr>), l\<lparr>l_count := l_count l - 1\<rparr>))"

text \<open>The search follows \<^verbatim>\<open>next\<close> pointers until NULL; on a cyclic chain it does not end.\<close>

partial_function (option) contains_loop :: "nodes \<Rightarrow> nat option \<Rightarrow> nat \<Rightarrow> bool option" where
  "contains_loop h cur node =
     (case cur of
        None \<Rightarrow> Some False
      | Some c \<Rightarrow> if c = node then Some True else contains_loop h (nxt (h c)) node)"

definition list_contains :: "nodes \<Rightarrow> list_t \<Rightarrow> nat \<Rightarrow> bool option" where
  "list_contains h l node = contains_loop h (l_first l) node"

section \<open>Chains\<close>

text \<open>\<open>dchain h p xs q\<close>: the nodes \<open>xs\<close> are linked in this order, after \<open>p\<close> and before \<open>q\<close>.\<close>

definition hd_or :: "nat list \<Rightarrow> nat option \<Rightarrow> nat option" where
  "hd_or xs q = (case xs of [] \<Rightarrow> q | x # _ \<Rightarrow> Some x)"

definition last_or :: "nat list \<Rightarrow> nat option \<Rightarrow> nat option" where
  "last_or xs p = (if xs = [] then p else Some (last xs))"

lemma hd_last_or [simp]:
  "hd_or [] q = q" "hd_or (x # xs) q = Some x" "hd_or (xs @ ys) q = hd_or xs (hd_or ys q)"
  "last_or [] p = p" "last_or (x # xs) p = last_or xs (Some x)" "last_or (xs @ ys) p = last_or ys (last_or xs p)"
  by (auto simp: hd_or_def last_or_def split: list.split)

fun dchain :: "nodes \<Rightarrow> nat option \<Rightarrow> nat list \<Rightarrow> nat option \<Rightarrow> bool" where
  "dchain h p [] q = True"
| "dchain h p (x # xs) q \<longleftrightarrow> pre (h x) = p \<and> nxt (h x) = hd_or xs q \<and> dchain h (Some x) xs q"

lemma dchain_append: "dchain h p (xs @ ys) q \<longleftrightarrow> dchain h p xs (hd_or ys q) \<and> dchain h (last_or xs p) ys q"
  by (induction xs arbitrary: p) auto

lemma dchain_frame [simp]: "n \<notin> set xs \<Longrightarrow> dchain (h(n := v)) p xs q = dchain h p xs q"
  by (induction xs arbitrary: p) auto

lemma dchain_pre:
  "dchain h p (x # xs) q \<Longrightarrow> distinct (x # xs) \<Longrightarrow> dchain (h(x := (h x)\<lparr>pre := p'\<rparr>)) p' (x # xs) q"
  by simp

lemma dchain_nxt:
  assumes "dchain h p (xs @ [x]) q" "distinct (xs @ [x])" shows "dchain (h(x := (h x)\<lparr>nxt := q'\<rparr>)) p (xs @ [x]) q'"
  using assms by (simp add: dchain_append)

text \<open>A list header and the store represent the sequence of nodes \<open>xs\<close>.\<close>

definition represents :: "nodes \<Rightarrow> list_t \<Rightarrow> nat list \<Rightarrow> bool" where
  "represents h l xs \<longleftrightarrow>
     l_first l = hd_or xs None \<and> l_last l = last_or xs None \<and> l_count l = int (length xs) \<and> distinct xs \<and> dchain h None xs None"

lemma represents_init: "represents h list_init []"
  by (simp add: represents_def list_init_def)

text \<open>A result \<open>r\<close> of an operation represents \<open>ys\<close>, and no node outside of \<open>S\<close> has changed.\<close>

definition result :: "nodes \<Rightarrow> nat set \<Rightarrow> nodes \<times> list_t \<Rightarrow> nat list \<Rightarrow> bool" where
  "result h S r ys \<longleftrightarrow> represents (fst r) (snd r) ys \<and> (\<forall>m. m \<notin> S \<longrightarrow> fst r m = h m)"

lemmas dchain_defs = result_def represents_def dchain_append

lemma insert_first_ok:
  "represents h l xs \<Longrightarrow> n \<notin> set xs \<Longrightarrow> \<exists>r. list_insert_first h l n = Some r \<and> result h (insert n (set xs)) r (n # xs)"
  by (cases xs) (auto simp: list_insert_first_def dchain_defs)

lemma insert_last_ok:
  "represents h l xs \<Longrightarrow> n \<notin> set xs \<Longrightarrow> \<exists>r. list_insert_last h l n = Some r \<and> result h (insert n (set xs)) r (xs @ [n])"
  by (cases xs rule: rev_cases) (auto simp: list_insert_last_def dchain_defs)

lemma delete_first_empty: "represents h l [] \<Longrightarrow> list_delete_first h l = Some (None, h, l)"
  by (simp add: list_delete_first_def represents_def)

lemma delete_first_ok:
  "represents h l (x # xs) \<Longrightarrow> \<exists>r. list_delete_first h l = Some (Some x, r) \<and> result h (set (x # xs)) r xs"
  by (cases xs) (auto simp: list_delete_first_def dchain_defs)

lemma delete_ok: "represents h l (xs @ x # ys) \<Longrightarrow> result h (set (xs @ x # ys)) (list_delete h l x) (xs @ ys)"
  by (cases xs rule: rev_cases; cases ys) (auto simp: list_delete_def dchain_defs)

lemma contains_loop_ok: "dchain h p xs None \<Longrightarrow> contains_loop h (hd_or xs None) n = Some (n \<in> set xs)"
proof (induction xs arbitrary: p)
  case Nil
  show ?case by (simp add: contains_loop.simps)
next
  case (Cons x xs)
  then show ?case by (auto simp: contains_loop.simps [of h "Some x"])
qed

text \<open>
  Inserting a node that is already the last one links it to itself: the counter counts it twice, and
  a search for any other node does not end.
\<close>

lemma contains_cycle: "nxt (h a) = Some a \<Longrightarrow> a \<noteq> n \<Longrightarrow> contains_loop h (Some a) n = None"
proof -
  have "contains_loop h c n = Some b \<Longrightarrow> \<forall>a. c = Some a \<longrightarrow> nxt (h a) = Some a \<longrightarrow> a = n" for c b
    by (rule contains_loop.raw_induct [of "\<lambda>h c n b. \<forall>a. c = Some a \<longrightarrow> nxt (h a) = Some a \<longrightarrow> a = n"])
      (auto split: option.splits if_splits)
  then show "nxt (h a) = Some a \<Longrightarrow> a \<noteq> n \<Longrightarrow> contains_loop h (Some a) n = None" by (cases "contains_loop h (Some a) n") auto
qed

lemma double_insert_diverges:
  assumes "represents h l [n]" "m \<noteq> n"
  shows "\<exists>h' l'. list_insert_last h l n = Some (h', l') \<and> l_count l' = 2 \<and> list_contains h' l' m = None"
  using assms contains_cycle [of "h(n := \<lparr>pre = Some n, nxt = Some n\<rparr>)" n m] by (simp add: list_insert_last_def represents_def list_contains_def)

text \<open>
  C39: The intrusive list implements the sequence of its nodes: inserting a node that is in no list at either
  end, removing the first node, removing any node and searching never follow a NULL pointer and give
  the sequences one expects, the search ends with the right answer, and no node outside of the list
  is written.
\<close>

theorem list_refines:
  assumes "represents h l xs"
  shows "(list_is_empty l \<longleftrightarrow> xs = []) \<and>
    (n \<notin> set xs \<longrightarrow> (\<exists>r. list_insert_first h l n = Some r \<and> result h (insert n (set xs)) r (n # xs))) \<and>
    (n \<notin> set xs \<longrightarrow> (\<exists>r. list_insert_last h l n = Some r \<and> result h (insert n (set xs)) r (xs @ [n]))) \<and>
    (case xs of [] \<Rightarrow> list_delete_first h l = Some (None, h, l)
     | y # ys \<Rightarrow> \<exists>r. list_delete_first h l = Some (Some y, r) \<and> result h (set xs) r ys) \<and>
    (n \<in> set xs \<longrightarrow> result h (set xs) (list_delete h l n) (remove1 n xs)) \<and>
    list_contains h l n = Some (n \<in> set xs)"
proof -
  have "list_is_empty l \<longleftrightarrow> xs = []" using assms by (simp add: list_is_empty_def represents_def)
  moreover have "result h (set xs) (list_delete h l n) (remove1 n xs)" if n: "n \<in> set xs"
  proof -
    obtain as bs where "xs = as @ n # bs" "n \<notin> set as" using n by (metis split_list_first)
    then show ?thesis using delete_ok [of h l as n bs] assms by (simp add: remove1_append)
  qed
  moreover have "list_contains h l n = Some (n \<in> set xs)" using assms contains_loop_ok [of h None xs n] by (simp add: list_contains_def represents_def)
  moreover have "case xs of [] \<Rightarrow> list_delete_first h l = Some (None, h, l)
     | y # ys \<Rightarrow> \<exists>r. list_delete_first h l = Some (Some y, r) \<and> result h (set xs) r ys"
    using assms delete_first_ok delete_first_empty by (cases xs) auto
  ultimately show ?thesis using assms insert_first_ok insert_last_ok by blast
qed

definition two_nodes :: "nodes \<times> list_t" where
  "two_nodes = the (list_insert_last (\<lambda>_. \<lparr>pre = None, nxt = None\<rparr>) \<lparr>l_first = Some 4, l_last = Some 4, l_count = 1\<rparr> 7)"

theorem list_refines_witness:
  "represents (fst two_nodes) (snd two_nodes) [4, 7] \<and> list_contains (fst two_nodes) (snd two_nodes) 7 = Some True \<and>
   result (fst two_nodes) {4, 7} (list_delete (fst two_nodes) (snd two_nodes) 4) [7]"
proof -
  have "represents (fst two_nodes) (snd two_nodes) [4, 7]" by (simp add: represents_def two_nodes_def list_insert_last_def)
  then show ?thesis using list_refines [of "fst two_nodes" "snd two_nodes" "[4, 7]" 7] list_refines [of "fst two_nodes" "snd two_nodes" "[4, 7]" 4] by simp
qed

end
