(* ===== verification/Sched.thy ===== *)
theory Sched
  imports Linked_List "HOL-Library.Monad_Syntax"
begin

text \<open>
  The scheduler of \<^verbatim>\<open>kernel/task/sched.c\<close> with the parts of \<^verbatim>\<open>task.c\<close>, \<^verbatim>\<open>preempt.c\<close> and \<^verbatim>\<open>itimer.c\<close>
  that change the state of tasks. A task pointer is an index: the pool is \<open>0 ..< TASK_MAX\<close>, and the
  idle task of CPU \<open>c\<close> is \<open>TASK_MAX + c\<close>. Run queues are the sequences that the intrusive lists
  represent. What a run-queue lock protects is one step; a step takes the number of the CPU that
  executes it. The switch of stacks and page tables is hardware; after \<open>sched_schedule\<close> the CPU
  continues in its new current task. A failed assertion is \<open>None\<close>.
\<close>

unbundle bit_operations_syntax

section \<open>State\<close>

datatype task_state_t = TASK_ALLOCATING | TASK_READY | TASK_RUNNING | TASK_BLOCKED | TASK_DEAD

abbreviation (input) TASK_MAX :: nat where
  "TASK_MAX \<equiv> 64"

abbreviation (input) AVATAR_MAX_CPUS :: nat where
  "AVATAR_MAX_CPUS \<equiv> 8"

abbreviation (input) CPU_AFFINITY_ANY :: u32 where
  "CPU_AFFINITY_ANY \<equiv> - 1"

record task_t =
  t_state :: task_state_t
  t_id :: u32
  t_parent_id :: u32
  cpu_affinity :: u32
  is_user_process :: bool
  pending_sigs :: u64
  itimer_expire_ns :: u64
  itimer_interval_ns :: u64
  preempt_count :: u32
  on_cpu :: bool
  wake_pending :: bool

record cpu_t =
  online :: bool
  current_task :: nat
  idle_task :: nat
  run_queue :: "nat list"
  need_resched :: bool
  irq_depth :: u32
  preempt_schedule_depth :: u32
  idle_ticks :: u64

text \<open>\<open>g_ipis\<close> lists the targets of the inter-processor interrupts that were sent.\<close>

record sched =
  g_tasks :: "nat \<Rightarrow> task_t"
  g_stack_used :: "nat \<Rightarrow> bool"
  g_cpus :: "nat \<Rightarrow> cpu_t"
  g_num_cpus :: u32
  g_rr_counter :: u32
  g_ipis :: "nat list"

definition task_upd :: "nat \<Rightarrow> (task_t \<Rightarrow> task_t) \<Rightarrow> sched \<Rightarrow> sched" where
  "task_upd t f s = s\<lparr>g_tasks := (g_tasks s)(t := f (g_tasks s t))\<rparr>"

definition cpu_upd :: "nat \<Rightarrow> (cpu_t \<Rightarrow> cpu_t) \<Rightarrow> sched \<Rightarrow> sched" where
  "cpu_upd c f s = s\<lparr>g_cpus := (g_cpus s)(c := f (g_cpus s c))\<rparr>"

definition num_cpus :: "sched \<Rightarrow> u32" where
  "num_cpus s = (if g_num_cpus s \<noteq> 0 then g_num_cpus s else 1)"

section \<open>Operations\<close>

definition sched_init :: "nat \<Rightarrow> nat \<Rightarrow> sched \<Rightarrow> sched" where
  "sched_init c idle s =
     task_upd idle (\<lambda>t. t\<lparr>on_cpu := True\<rparr>) (cpu_upd c (\<lambda>k. k\<lparr>idle_task := idle, current_task := idle\<rparr>) s)"

definition sched_resched_cpu :: "sched \<Rightarrow> nat \<Rightarrow> u32 \<Rightarrow> sched" where
  "sched_resched_cpu s me cpu_id =
     (if cpu_id \<ge> g_num_cpus s \<or> cpu_id \<ge> of_nat AVATAR_MAX_CPUS then s
      else if \<not> online (g_cpus s (unat cpu_id)) then s
      else let s = cpu_upd (unat cpu_id) (\<lambda>k. k\<lparr>need_resched := True\<rparr>) s
           in if unat cpu_id \<noteq> me then s\<lparr>g_ipis := g_ipis s @ [unat cpu_id]\<rparr> else s)"

definition task_kick :: "sched \<Rightarrow> nat \<Rightarrow> nat \<Rightarrow> sched" where
  "task_kick s me t =
     (if t_state (g_tasks s t) \<noteq> TASK_RUNNING then s
      else if cpu_affinity (g_tasks s t) \<ge> g_num_cpus s then s
      else sched_resched_cpu s me (cpu_affinity (g_tasks s t)))"

definition enqueue_target :: "sched \<Rightarrow> nat \<Rightarrow> u32 \<times> u32" where
  "enqueue_target s t =
     (let n = num_cpus s; a = cpu_affinity (g_tasks s t)
      in if n = 1 then (0, g_rr_counter s)
         else if a = CPU_AFFINITY_ANY then (g_rr_counter s mod n, g_rr_counter s + 1)
         else if a \<ge> n then (0, g_rr_counter s)
         else (a, g_rr_counter s))"

definition sched_enqueue :: "sched \<Rightarrow> nat \<Rightarrow> nat \<Rightarrow> sched" where
  "sched_enqueue s me t =
     (if t_state (g_tasks s t) = TASK_RUNNING then s
      else let (target, rr) = enqueue_target s t;
               s = task_upd t (\<lambda>k. k\<lparr>cpu_affinity := target\<rparr>) (s\<lparr>g_rr_counter := rr\<rparr>);
               s = cpu_upd (unat target) (\<lambda>k. k\<lparr>run_queue := run_queue k @ [t]\<rparr>) s
           in if num_cpus s = 1 then s else sched_resched_cpu s me target)"

definition sched_unblock :: "sched \<Rightarrow> nat \<Rightarrow> nat \<Rightarrow> sched" where
  "sched_unblock s me t =
     (let n = num_cpus s;
          target = (if cpu_affinity (g_tasks s t) < n then cpu_affinity (g_tasks s t) else 0)
      in if t_state (g_tasks s t) \<noteq> TASK_BLOCKED then s
         else let s = task_upd t (\<lambda>k. k\<lparr>t_state := TASK_READY\<rparr>) s
              in if on_cpu (g_tasks s t) then task_upd t (\<lambda>k. k\<lparr>wake_pending := True\<rparr>) s
                 else let s = cpu_upd (unat target) (\<lambda>k. k\<lparr>run_queue := run_queue k @ [t]\<rparr>) s
                      in if n > 1 then sched_resched_cpu s me target else s)"

primrec dequeue_loop :: "nat list \<Rightarrow> sched \<Rightarrow> nat \<Rightarrow> sched" where
  "dequeue_loop [] s t = s"
| "dequeue_loop (c # cs) s t =
     (if t \<in> set (run_queue (g_cpus s c)) then cpu_upd c (\<lambda>k. k\<lparr>run_queue := remove1 t (run_queue k)\<rparr>) s
      else dequeue_loop cs s t)"

definition sched_dequeue :: "sched \<Rightarrow> nat \<Rightarrow> sched" where
  "sched_dequeue s t =
     (let n = num_cpus s; a = cpu_affinity (g_tasks s t)
      in if n = 1 then dequeue_loop [0] s t
         else dequeue_loop ((if a < n then [unat a] else []) @ [0..<unat n]) s t)"

definition pick_next :: "sched \<Rightarrow> nat \<Rightarrow> nat \<times> sched" where
  "pick_next s c =
     (case run_queue (g_cpus s c) of
        [] \<Rightarrow> (idle_task (g_cpus s c), s)
      | t # ts \<Rightarrow> (if t < TASK_MAX then t else idle_task (g_cpus s c), cpu_upd c (\<lambda>k. k\<lparr>run_queue := ts\<rparr>) s))"

definition sched_schedule :: "sched \<Rightarrow> nat \<Rightarrow> sched option" where
  "sched_schedule s c =
     (if irq_depth (g_cpus s c) \<noteq> 0 then None
      else
        let prev = current_task (g_cpus s c);
            s = (if t_state (g_tasks s prev) = TASK_RUNNING \<and> prev \<noteq> idle_task (g_cpus s c)
                 then cpu_upd c (\<lambda>k. k\<lparr>run_queue := run_queue k @ [prev]\<rparr>) (task_upd prev (\<lambda>k. k\<lparr>t_state := TASK_READY\<rparr>) s)
                 else s);
            (nx, s) = pick_next s c
        in if nx = prev then Some (task_upd prev (\<lambda>k. k\<lparr>t_state := TASK_RUNNING\<rparr>) s)
           else
             let s = task_upd prev (\<lambda>k. k\<lparr>on_cpu := False\<rparr>) s;
                 s = (if wake_pending (g_tasks s prev)
                      then cpu_upd c (\<lambda>k. k\<lparr>run_queue := run_queue k @ [prev], need_resched := True\<rparr>)
                             (task_upd prev (\<lambda>k. k\<lparr>wake_pending := False, t_state := TASK_READY\<rparr>) s)
                      else s);
                 s = task_upd nx (\<lambda>k. k\<lparr>t_state := TASK_RUNNING, on_cpu := True\<rparr>) s
             in Some (cpu_upd c (\<lambda>k. k\<lparr>current_task := nx\<rparr>) s))"

definition sched_check_and_yield :: "sched \<Rightarrow> nat \<Rightarrow> (bool \<times> sched) option" where
  "sched_check_and_yield s c =
     (if need_resched (g_cpus s c) then
        if irq_depth (g_cpus s c) \<noteq> 0 then Some (False, s)
        else do { s \<leftarrow> sched_schedule (cpu_upd c (\<lambda>k. k\<lparr>need_resched := False\<rparr>) s) c; Some (True, s) }
      else Some (False, s))"

definition preemptible :: "sched \<Rightarrow> nat \<Rightarrow> bool" where
  "preemptible s c \<longleftrightarrow> irq_depth (g_cpus s c) = 0 \<and> preempt_count (g_tasks s (current_task (g_cpus s c))) = 0"

text \<open>
  Preemption inside the kernel: the nesting counter of the CPU is raised before the switch and
  lowered by the preempted task when it runs again, which is a step of its own,
  \<open>preempt_resume\<close>.
\<close>

definition preempt_switch :: "sched \<Rightarrow> nat \<Rightarrow> sched option" where
  "preempt_switch s c =
     sched_schedule (cpu_upd c (\<lambda>k. k\<lparr>need_resched := False, preempt_schedule_depth := preempt_schedule_depth k + 1\<rparr>) s) c"

definition preempt_resume :: "sched \<Rightarrow> nat \<Rightarrow> sched" where
  "preempt_resume s c = cpu_upd c (\<lambda>k. k\<lparr>preempt_schedule_depth := preempt_schedule_depth k - 1\<rparr>) s"

definition trap_preempt_kernel_side :: "sched \<Rightarrow> nat \<Rightarrow> (bool \<times> sched) option" where
  "trap_preempt_kernel_side s c =
     (let k = g_cpus s c
      in if is_user_process (g_tasks s (current_task k)) then Some (False, s)
         else if \<not> need_resched k \<or> \<not> preemptible s c \<or> preempt_schedule_depth k \<noteq> 0 then Some (False, s)
         else do { s \<leftarrow> preempt_switch s c; Some (True, s) })"

definition sched_check_and_yield_from_trap :: "sched \<Rightarrow> nat \<Rightarrow> bool \<Rightarrow> (bool \<times> sched) option" where
  "sched_check_and_yield_from_trap s c from_kernel =
     (if from_kernel then trap_preempt_kernel_side s c else sched_check_and_yield s c)"

definition preempt_disable :: "sched \<Rightarrow> nat \<Rightarrow> sched" where
  "preempt_disable s c = task_upd (current_task (g_cpus s c)) (\<lambda>k. k\<lparr>preempt_count := preempt_count k + 1\<rparr>) s"

definition preempt_enable :: "sched \<Rightarrow> nat \<Rightarrow> bool \<Rightarrow> sched option" where
  "preempt_enable s c irqs_on =
     (let cur = current_task (g_cpus s c);
          s = (if preempt_count (g_tasks s cur) > 0 then task_upd cur (\<lambda>k. k\<lparr>preempt_count := preempt_count k - 1\<rparr>) s else s);
          k = g_cpus s c
      in if preempt_count (g_tasks s cur) \<noteq> 0 \<or> irq_depth k \<noteq> 0 \<or> \<not> need_resched k \<or> preempt_schedule_depth k \<noteq> 0 \<or> \<not> irqs_on
         then Some s
         else preempt_switch s c)"

text \<open>Signals and interval timers, driven by the tick.\<close>

definition task_send_signal :: "sched \<Rightarrow> nat \<Rightarrow> int \<Rightarrow> sched" where
  "task_send_signal s t sig =
     (if sig < 1 \<or> sig > 64 then s
      else task_upd t (\<lambda>k. k\<lparr>pending_sigs := pending_sigs k OR push_bit (nat (sig - 1)) 1\<rparr>) s)"

definition itimer_one :: "nat \<Rightarrow> u64 \<Rightarrow> nat \<Rightarrow> sched \<Rightarrow> sched" where
  "itimer_one me now i s =
     (let t = g_tasks s i
      in if \<not> g_stack_used s i then s
         else if itimer_expire_ns t = 0 \<or> now < itimer_expire_ns t then s
         else if t_state t = TASK_DEAD \<or> t_state t = TASK_ALLOCATING
         then task_upd i (\<lambda>k. k\<lparr>itimer_expire_ns := 0, itimer_interval_ns := 0\<rparr>) s
         else let s = task_upd i (\<lambda>k. k\<lparr>itimer_expire_ns := (if itimer_interval_ns k \<noteq> 0 then now + itimer_interval_ns k else 0)\<rparr>) s;
                  s = task_send_signal s i 14
              in if t_state (g_tasks s i) = TASK_BLOCKED then sched_unblock s me i else s)"

definition itimer_tick :: "sched \<Rightarrow> nat \<Rightarrow> u64 \<Rightarrow> sched" where
  "itimer_tick s me now = fold (itimer_one me now) [0..<TASK_MAX] s"

definition sched_tick :: "sched \<Rightarrow> nat \<Rightarrow> u64 \<Rightarrow> sched" where
  "sched_tick s c now =
     (let s = cpu_upd c (\<lambda>k. k\<lparr>need_resched := True\<rparr>) s;
          s = (if current_task (g_cpus s c) = idle_task (g_cpus s c) then cpu_upd c (\<lambda>k. k\<lparr>idle_ticks := idle_ticks k + 1\<rparr>) s else s)
      in itimer_tick s c now)"

text \<open>
  The life of a task: slots of the pool, starting, blocking, exit and collection. \<open>zeroed\<close> is what
  \<^verbatim>\<open>memset\<close> leaves of a task, with the state and the affinity that \<open>task_alloc_slot\<close> sets. Freeing the
  page tables of a dead process is not part of this state.
\<close>

definition zeroed :: task_t where
  "zeroed = \<lparr>t_state = TASK_ALLOCATING, t_id = 0, t_parent_id = 0, cpu_affinity = CPU_AFFINITY_ANY, is_user_process = False,
     pending_sigs = 0, itimer_expire_ns = 0, itimer_interval_ns = 0, preempt_count = 0, on_cpu = False, wake_pending = False\<rparr>"

definition slot_is_reapable_orphan :: "sched \<Rightarrow> nat \<Rightarrow> bool" where
  "slot_is_reapable_orphan s i \<longleftrightarrow>
     g_stack_used s i \<and> t_state (g_tasks s i) = TASK_DEAD \<and>
     (t_parent_id (g_tasks s i) = 0 \<or>
      (case List.find (\<lambda>j. g_stack_used s j \<and> t_id (g_tasks s j) = t_parent_id (g_tasks s i)) [0..<TASK_MAX] of
         None \<Rightarrow> True | Some j \<Rightarrow> t_state (g_tasks s j) = TASK_DEAD))"

definition slot_take_and_free :: "sched \<Rightarrow> nat \<Rightarrow> sched" where
  "slot_take_and_free s i = s\<lparr>g_stack_used := (g_stack_used s)(i := False)\<rparr>"

primrec reap_orphans :: "nat \<Rightarrow> sched \<Rightarrow> sched" where
  "reap_orphans 0 s = s"
| "reap_orphans (Suc n) s =
     (case List.find (slot_is_reapable_orphan s) [0..<TASK_MAX] of
        None \<Rightarrow> s
      | Some v \<Rightarrow> reap_orphans n (slot_take_and_free (task_upd v (\<lambda>k. k\<lparr>t_state := TASK_ALLOCATING\<rparr>) s) v))"

definition task_alloc_slot :: "sched \<Rightarrow> nat option \<times> sched" where
  "task_alloc_slot s =
     (let s = reap_orphans TASK_MAX s
      in case List.find (\<lambda>i. \<not> g_stack_used s i) [0..<TASK_MAX] of
           None \<Rightarrow> (None, s)
         | Some i \<Rightarrow> (Some i, task_upd i (\<lambda>_. zeroed) (s\<lparr>g_stack_used := (g_stack_used s)(i := True)\<rparr>)))"

definition task_reap_dead :: "sched \<Rightarrow> nat \<Rightarrow> sched" where
  "task_reap_dead s t =
     (if t \<ge> TASK_MAX then s
      else if t_state (g_tasks s t) = TASK_DEAD
      then slot_take_and_free (task_upd t (\<lambda>k. k\<lparr>t_state := TASK_ALLOCATING\<rparr>) s) t
      else s)"

definition process_start :: "sched \<Rightarrow> nat \<Rightarrow> nat \<Rightarrow> sched" where
  "process_start s me t = sched_enqueue (task_upd t (\<lambda>k. k\<lparr>t_state := TASK_READY\<rparr>) s) me t"

definition task_create_affinity :: "sched \<Rightarrow> nat \<Rightarrow> u32 \<Rightarrow> u32 \<Rightarrow> nat option \<times> sched" where
  "task_create_affinity s me new_id affinity =
     (case task_alloc_slot s of
        (None, s) \<Rightarrow> (None, s)
      | (Some t, s) \<Rightarrow> (Some t, sched_enqueue (task_upd t (\<lambda>k. k\<lparr>t_id := new_id, t_state := TASK_READY, cpu_affinity := affinity\<rparr>) s) me t))"

definition task_set_cpu_affinity :: "sched \<Rightarrow> nat \<Rightarrow> nat \<Rightarrow> u32 \<Rightarrow> sched" where
  "task_set_cpu_affinity s me t cpu_id =
     sched_enqueue (task_upd t (\<lambda>k. k\<lparr>cpu_affinity := cpu_id\<rparr>) (sched_dequeue s t)) me t"

text \<open>
  Blocking and exit begin with a change of the task's own state; the switch to another task is the
  \<open>sched_schedule\<close> that follows, and other CPUs may act in between.
\<close>

definition task_block_mark :: "sched \<Rightarrow> nat \<Rightarrow> sched" where
  "task_block_mark s c = task_upd (current_task (g_cpus s c)) (\<lambda>k. k\<lparr>t_state := TASK_BLOCKED\<rparr>) s"

definition task_exit_mark :: "sched \<Rightarrow> nat \<Rightarrow> sched" where
  "task_exit_mark s c =
     (let cur = current_task (g_cpus s c) in sched_dequeue (task_upd cur (\<lambda>k. k\<lparr>t_state := TASK_DEAD\<rparr>) s) cur)"

definition exit_group_kill :: "sched \<Rightarrow> nat \<Rightarrow> sched" where
  "exit_group_kill s t =
     (if t_state (g_tasks s t) = TASK_DEAD \<or> t_state (g_tasks s t) = TASK_ALLOCATING then s
      else sched_dequeue (task_upd t (\<lambda>k. k\<lparr>t_state := TASK_DEAD\<rparr>) s) t)"

text \<open>Boot: an empty pool, and \<open>n\<close> CPUs that each run their idle task.\<close>

definition boot_idle :: "nat \<Rightarrow> task_t" where
  "boot_idle c = zeroed\<lparr>t_state := TASK_RUNNING, cpu_affinity := of_nat c, on_cpu := True\<rparr>"

definition sched_boot :: "nat \<Rightarrow> sched" where
  "sched_boot n =
     \<lparr>g_tasks = (\<lambda>t. if t < TASK_MAX then zeroed\<lparr>t_state := TASK_DEAD\<rparr> else if t < TASK_MAX + n then boot_idle (t - TASK_MAX) else zeroed),
      g_stack_used = (\<lambda>_. False),
      g_cpus = (\<lambda>c. \<lparr>online = c < n, current_task = TASK_MAX + c, idle_task = TASK_MAX + c, run_queue = [], need_resched = False,
                     irq_depth = 0, preempt_schedule_depth = 0, idle_ticks = 0\<rparr>),
      g_num_cpus = of_nat n, g_rr_counter = 0, g_ipis = []\<rparr>"

section \<open>Who is where\<close>

text \<open>
  The invariant. On each CPU the current task is the idle task or a pool task bound to the CPU; a run
  queue holds pool tasks that are ready, bound to this CPU and on no CPU, each once. A ready task is
  in the queue of its CPU, or still on a CPU with a wake-up pending; a running task is on a CPU.
\<close>

definition cpu_ok :: "sched \<Rightarrow> nat \<Rightarrow> bool" where
  "cpu_ok s c \<longleftrightarrow>
     (let k = g_cpus s c
      in idle_task k = TASK_MAX + c \<and>
         (current_task k = TASK_MAX + c \<or> current_task k < TASK_MAX \<and> cpu_affinity (g_tasks s (current_task k)) = of_nat c) \<and>
         distinct (run_queue k) \<and>
         (\<forall>t \<in> set (run_queue k). t < TASK_MAX \<and> t_state (g_tasks s t) = TASK_READY \<and> \<not> on_cpu (g_tasks s t) \<and>
            cpu_affinity (g_tasks s t) = of_nat c))"

definition task_ok :: "sched \<Rightarrow> nat \<Rightarrow> bool" where
  "task_ok s t \<longleftrightarrow>
     (let k = g_tasks s t; n = unat (g_num_cpus s)
      in (t_state k = TASK_READY \<longrightarrow>
            (if on_cpu k then wake_pending k else unat (cpu_affinity k) < n \<and> t \<in> set (run_queue (g_cpus s (unat (cpu_affinity k)))))) \<and>
         (t_state k = TASK_RUNNING \<longrightarrow> on_cpu k \<and> \<not> wake_pending k) \<and>
         (t_state k = TASK_ALLOCATING \<longrightarrow> \<not> on_cpu k) \<and>
         (t_state k = TASK_BLOCKED \<longrightarrow> unat (cpu_affinity k) < n))"

definition sched_ok :: "sched \<Rightarrow> bool" where
  "sched_ok s \<longleftrightarrow>
     0 < unat (g_num_cpus s) \<and> unat (g_num_cpus s) \<le> AVATAR_MAX_CPUS \<and>
     (\<forall>c < unat (g_num_cpus s). cpu_ok s c) \<and> (\<forall>t < TASK_MAX. task_ok s t) \<and>
     (\<forall>t. on_cpu (g_tasks s t) \<longleftrightarrow> (\<exists>c < unat (g_num_cpus s). current_task (g_cpus s c) = t)) \<and>
     (\<forall>t. wake_pending (g_tasks s t) \<longrightarrow> on_cpu (g_tasks s t) \<and> t < TASK_MAX)"

lemma upd_simps [simp]:
  "g_tasks (task_upd t f s) u = (if u = t then f (g_tasks s t) else g_tasks s u)" "g_cpus (task_upd t f s) = g_cpus s"
  "g_num_cpus (task_upd t f s) = g_num_cpus s" "g_stack_used (task_upd t f s) = g_stack_used s"
  "g_cpus (cpu_upd c g s) d = (if d = c then g (g_cpus s c) else g_cpus s d)" "g_tasks (cpu_upd c g s) = g_tasks s"
  "g_num_cpus (cpu_upd c g s) = g_num_cpus s" "g_stack_used (cpu_upd c g s) = g_stack_used s"
  by (auto simp: task_upd_def cpu_upd_def)

lemma num_cpus_upd [simp]: "num_cpus (task_upd t f s) = num_cpus s" "num_cpus (cpu_upd c g s) = num_cpus s" "num_cpus (s\<lparr>g_rr_counter := r\<rparr>) = num_cpus s"
  by (simp_all add: num_cpus_def task_upd_def cpu_upd_def)

text \<open>The invariant reads four fields of a task and three of a CPU.\<close>

definition tcore :: "task_t \<Rightarrow> task_state_t \<times> u32 \<times> bool \<times> bool" where
  "tcore k = (t_state k, cpu_affinity k, on_cpu k, wake_pending k)"

definition ccore :: "cpu_t \<Rightarrow> nat \<times> nat \<times> nat list" where
  "ccore k = (current_task k, idle_task k, run_queue k)"

definition same_core :: "sched \<Rightarrow> sched \<Rightarrow> bool" where
  "same_core s s' \<longleftrightarrow>
     (\<forall>t. tcore (g_tasks s' t) = tcore (g_tasks s t)) \<and> (\<forall>c. ccore (g_cpus s' c) = ccore (g_cpus s c)) \<and> g_num_cpus s' = g_num_cpus s"

lemmas core_defs = same_core_def tcore_def ccore_def

lemma same_core_refl [simp]: "same_core s s"
  by (simp add: same_core_def)

lemma same_coreD:
  assumes "same_core s s'"
  shows "t_state (g_tasks s' t) = t_state (g_tasks s t)" "cpu_affinity (g_tasks s' t) = cpu_affinity (g_tasks s t)"
    "on_cpu (g_tasks s' t) = on_cpu (g_tasks s t)" "wake_pending (g_tasks s' t) = wake_pending (g_tasks s t)"
    "current_task (g_cpus s' c) = current_task (g_cpus s c)" "idle_task (g_cpus s' c) = idle_task (g_cpus s c)"
    "run_queue (g_cpus s' c) = run_queue (g_cpus s c)" "g_num_cpus s' = g_num_cpus s"
  using assms by (simp_all add: core_defs)

lemma sched_ok_core:
  assumes "same_core s s'" "sched_ok s" shows "sched_ok s'"
  using assms(2) unfolding sched_ok_def cpu_ok_def task_ok_def Let_def same_coreD [OF assms(1)] .

lemma resched_core: "same_core s (sched_resched_cpu s me c)"
  by (auto simp: sched_resched_cpu_def core_defs Let_def)

lemma same_core_trans: "same_core s s' \<Longrightarrow> same_core s' s'' \<Longrightarrow> same_core s s''"
  by (simp add: same_core_def)

lemma sched_okD:
  assumes "sched_ok s"
  shows "0 < unat (g_num_cpus s)" "unat (g_num_cpus s) \<le> AVATAR_MAX_CPUS" "num_cpus s = g_num_cpus s"
    "\<And>c. c < unat (g_num_cpus s) \<Longrightarrow> cpu_ok s c" "\<And>t. t < TASK_MAX \<Longrightarrow> task_ok s t"
    "\<And>t. on_cpu (g_tasks s t) \<longleftrightarrow> (\<exists>c < unat (g_num_cpus s). current_task (g_cpus s c) = t)"
    "\<And>t. wake_pending (g_tasks s t) \<Longrightarrow> on_cpu (g_tasks s t) \<and> t < TASK_MAX"
  using assms by (auto simp: sched_ok_def num_cpus_def)

lemma cpu_num: "c < unat n \<Longrightarrow> unat n \<le> AVATAR_MAX_CPUS \<Longrightarrow> unat (of_nat c :: u32) = c"
  by (simp add: unat_of_nat take_bit_nat_eq_self)

text \<open>What holds of the queues and of the current tasks, spelled out.\<close>

lemma queued_once:
  assumes "sched_ok s" "c < unat (g_num_cpus s)" "t \<in> set (run_queue (g_cpus s c))"
  shows "t < TASK_MAX" "t_state (g_tasks s t) = TASK_READY" "\<not> on_cpu (g_tasks s t)" "unat (cpu_affinity (g_tasks s t)) = c"
  using sched_okD(4) [OF assms(1,2)] sched_okD(2) [OF assms(1)] assms(2,3) cpu_num [of c "g_num_cpus s"] by (auto simp: cpu_ok_def Let_def)

lemma current_where:
  assumes "sched_ok s" "c < unat (g_num_cpus s)" "current_task (g_cpus s c) = t"
  shows "t = TASK_MAX + c \<or> t < TASK_MAX \<and> unat (cpu_affinity (g_tasks s t)) = c"
  using sched_okD(4) [OF assms(1,2)] cpu_num [OF assms(2) sched_okD(2) [OF assms(1)]] assms(3) by (auto simp: cpu_ok_def Let_def)

lemma current_once:
  assumes "sched_ok s" "c < unat (g_num_cpus s)" "d < unat (g_num_cpus s)" "current_task (g_cpus s c) = t" "current_task (g_cpus s d) = t"
  shows "c = d"
  using current_where [OF assms(1,2,4)] current_where [OF assms(1,3,5)] by arith

lemma sched_okI:
  assumes "sched_ok s" "g_num_cpus s' = g_num_cpus s" "\<And>c. current_task (g_cpus s' c) = current_task (g_cpus s c)"
    "\<And>u. on_cpu (g_tasks s' u) = on_cpu (g_tasks s u)" "\<And>u. wake_pending (g_tasks s' u) \<Longrightarrow> on_cpu (g_tasks s u) \<and> u < TASK_MAX"
    "\<And>d. d < unat (g_num_cpus s) \<Longrightarrow> cpu_ok s' d" "\<And>u. u < TASK_MAX \<Longrightarrow> task_ok s' u"
  shows "sched_ok s'"
  using assms sched_okD(1,2,6) [OF assms(1)] unfolding sched_ok_def by simp

text \<open>A task that is in no queue and on no CPU is put into the queue of a CPU.\<close>

lemma enqueue_ok:
  assumes S: "sched_ok s" and t: "t < TASK_MAX" "\<not> on_cpu (g_tasks s t)" "t_state (g_tasks s t) \<noteq> TASK_READY" and c: "c < unat (g_num_cpus s)"
  shows "sched_ok (cpu_upd c (\<lambda>k. k\<lparr>run_queue := run_queue k @ [t]\<rparr>) (task_upd t (\<lambda>k. k\<lparr>t_state := TASK_READY, cpu_affinity := of_nat c\<rparr>) s))"
    (is "sched_ok ?s")
proof -
  have n: "unat (of_nat c :: u32) = c" by (rule cpu_num [OF c sched_okD(2) [OF S]])
  have notin: "t \<notin> set (run_queue (g_cpus s d))" if "d < unat (g_num_cpus s)" for d using queued_once(2) [OF S that] t(3) by blast
  have cur: "current_task (g_cpus s d) \<noteq> t" if "d < unat (g_num_cpus s)" for d using sched_okD(6) [OF S, of t] t(2) that by blast
  have "cpu_ok ?s d" if d: "d < unat (g_num_cpus s)" for d
    using sched_okD(4) [OF S d] notin [OF d] cur [OF d] t by (auto simp: cpu_ok_def Let_def)
  moreover have "task_ok ?s u" if u: "u < TASK_MAX" for u
    using sched_okD(5) [OF S u] c n t(2) by (auto simp: task_ok_def Let_def split: if_splits)
  moreover have "on_cpu (g_tasks ?s u) = on_cpu (g_tasks s u)" for u using t(2) by simp
  moreover have "wake_pending (g_tasks ?s u) \<Longrightarrow> on_cpu (g_tasks s u) \<and> u < TASK_MAX" for u using sched_okD(7) [OF S, of u] t(2) by (simp split: if_splits)
  ultimately show ?thesis by (intro sched_okI [OF S]) simp_all
qed

text \<open>A task that is on a CPU changes its state.\<close>

lemma mark_ok:
  assumes S: "sched_ok s" and t: "t < TASK_MAX" "on_cpu (g_tasks s t)"
    and f: "cpu_affinity (f (g_tasks s t)) = cpu_affinity (g_tasks s t)" "on_cpu (f (g_tasks s t))" "t_state (f (g_tasks s t)) \<noteq> TASK_ALLOCATING"
      "t_state (f (g_tasks s t)) = TASK_READY \<longrightarrow> wake_pending (f (g_tasks s t))" "t_state (f (g_tasks s t)) = TASK_RUNNING \<longrightarrow> \<not> wake_pending (f (g_tasks s t))"
  shows "sched_ok (task_upd t f s)" (is "sched_ok ?s")
proof -
  have notin: "t \<notin> set (run_queue (g_cpus s d))" if "d < unat (g_num_cpus s)" for d using queued_once(3) [OF S that] t(2) by blast
  obtain c where c: "c < unat (g_num_cpus s)" "current_task (g_cpus s c) = t" using sched_okD(6) [OF S, of t] t(2) by blast
  have a: "unat (cpu_affinity (g_tasks s t)) < unat (g_num_cpus s)" using current_where [OF S c] c(1) t(1) by auto
  have "cpu_ok ?s d" if d: "d < unat (g_num_cpus s)" for d
    using sched_okD(4) [OF S d] notin [OF d] f(1) by (auto simp: cpu_ok_def Let_def)
  moreover have "task_ok ?s u" if u: "u < TASK_MAX" for u using sched_okD(5) [OF S u] f a by (auto simp: task_ok_def Let_def)
  moreover have "on_cpu (g_tasks ?s u) = on_cpu (g_tasks s u)" for u using t(2) f(2) t(1) by simp
  moreover have "wake_pending (g_tasks ?s u) \<Longrightarrow> on_cpu (g_tasks s u) \<and> u < TASK_MAX" for u using sched_okD(7) [OF S, of u] t(2) f(2) t(1) by (simp split: if_splits)
  ultimately show ?thesis by (intro sched_okI [OF S]) simp_all
qed

text \<open>A task that is neither on a CPU nor ready is dead or being allocated afterwards.\<close>

lemma off_ok:
  assumes S: "sched_ok s" and t: "t < TASK_MAX" "\<not> on_cpu (g_tasks s t)" "t_state (g_tasks s t) \<noteq> TASK_READY"
    and f: "t_state (f (g_tasks s t)) \<in> {TASK_DEAD, TASK_ALLOCATING}" "\<not> on_cpu (f (g_tasks s t))" "\<not> wake_pending (f (g_tasks s t))"
  shows "sched_ok (task_upd t f s)" (is "sched_ok ?s")
proof -
  have notin: "t \<notin> set (run_queue (g_cpus s d))" if "d < unat (g_num_cpus s)" for d using queued_once(2) [OF S that] t(3) by blast
  have cur: "current_task (g_cpus s d) \<noteq> t" if "d < unat (g_num_cpus s)" for d using sched_okD(6) [OF S, of t] t(2) that by blast
  have "cpu_ok ?s d" if d: "d < unat (g_num_cpus s)" for d
    using sched_okD(4) [OF S d] notin [OF d] cur [OF d] by (auto simp: cpu_ok_def Let_def)
  moreover have "task_ok ?s u" if u: "u < TASK_MAX" for u using sched_okD(5) [OF S u] f by (auto simp: task_ok_def Let_def)
  moreover have "on_cpu (g_tasks ?s u) = on_cpu (g_tasks s u)" for u using t(2) f(2,3) by simp
  moreover have "wake_pending (g_tasks ?s u) \<Longrightarrow> on_cpu (g_tasks s u) \<and> u < TASK_MAX" for u using sched_okD(7) [OF S, of u] t(2) f(2,3) by (simp split: if_splits)
  ultimately show ?thesis by (intro sched_okI [OF S]) simp_all
qed

text \<open>A ready task that waits in a queue is taken out of it and dies.\<close>

lemma kill_queued_ok:
  assumes S: "sched_ok s" and t: "t < TASK_MAX" "\<not> on_cpu (g_tasks s t)" "t_state (g_tasks s t) = TASK_READY"
  shows "sched_ok (cpu_upd (unat (cpu_affinity (g_tasks s t))) (\<lambda>k. k\<lparr>run_queue := remove1 t (run_queue k)\<rparr>) (task_upd t (\<lambda>k. k\<lparr>t_state := TASK_DEAD\<rparr>) s))"
    (is "sched_ok ?s")
proof -
  let ?a = "unat (cpu_affinity (g_tasks s t))"
  have q: "t \<notin> set (run_queue (g_cpus s d))" if "d < unat (g_num_cpus s)" "d \<noteq> ?a" for d using queued_once(4) [OF S that(1)] that(2) by blast
  have dist: "distinct (run_queue (g_cpus s d))" if "d < unat (g_num_cpus s)" for d using sched_okD(4) [OF S that] by (simp add: cpu_ok_def Let_def)
  have cur: "current_task (g_cpus s d) \<noteq> t" if "d < unat (g_num_cpus s)" for d using sched_okD(6) [OF S, of t] t(2) that by blast
  have "cpu_ok ?s d" if d: "d < unat (g_num_cpus s)" for d
  proof (cases "d = ?a")
    case True
    then show ?thesis using sched_okD(4) [OF S d] cur [OF d] dist [OF d] by (simp add: cpu_ok_def Let_def)
  next
    case False
    then show ?thesis using sched_okD(4) [OF S d] q [OF d False] cur [OF d] by (auto simp: cpu_ok_def Let_def)
  qed
  moreover have "task_ok ?s u" if u: "u < TASK_MAX" for u using sched_okD(5) [OF S u] t by (auto simp: task_ok_def Let_def)
  moreover have "on_cpu (g_tasks ?s u) = on_cpu (g_tasks s u)" for u using t(2) by simp
  moreover have "wake_pending (g_tasks ?s u) \<Longrightarrow> on_cpu (g_tasks s u) \<and> u < TASK_MAX" for u using sched_okD(7) [OF S, of u] t(2) by (simp split: if_splits)
  ultimately show ?thesis by (intro sched_okI [OF S]) simp_all
qed

lemma enqueue_target_lt:
  assumes "num_cpus s = g_num_cpus s" "0 < unat (g_num_cpus s)" shows "unat (fst (enqueue_target s t)) < unat (g_num_cpus s)"
proof -
  have "unat (g_rr_counter s mod g_num_cpus s) < unat (g_num_cpus s)" using assms(2) by (simp add: unat_mod_distrib)
  then show ?thesis using assms by (auto simp: enqueue_target_def Let_def word_less_nat_alt not_le)
qed

lemma sched_enqueue_ok:
  assumes S: "sched_ok s" and t: "t < TASK_MAX" "\<not> on_cpu (g_tasks s t)" "t_state (g_tasks s t) \<noteq> TASK_READY"
  shows "sched_ok (sched_enqueue (task_upd t (\<lambda>k. k\<lparr>t_state := TASK_READY, cpu_affinity := a\<rparr>) s) me t)"
proof -
  let ?s = "task_upd t (\<lambda>k. k\<lparr>t_state := TASK_READY, cpu_affinity := a\<rparr>) s"
  obtain c rr where e: "enqueue_target ?s t = (c, rr)" by force
  have c: "unat c < unat (g_num_cpus s)" using enqueue_target_lt [of ?s t] e sched_okD(1,3) [OF S] by simp
  let ?r = "cpu_upd (unat c) (\<lambda>k. k\<lparr>run_queue := run_queue k @ [t]\<rparr>) (task_upd t (\<lambda>k. k\<lparr>cpu_affinity := c\<rparr>) (?s\<lparr>g_rr_counter := rr\<rparr>))"
  have "sched_ok ?r"
    by (rule sched_ok_core [OF _ enqueue_ok [OF S t c]]) (simp add: core_defs)
  moreover have "sched_enqueue ?s me t = (if num_cpus ?r = 1 then ?r else sched_resched_cpu ?r me c)"
    by (simp add: sched_enqueue_def e Let_def)
  ultimately show ?thesis using sched_ok_core [OF resched_core] by simp
qed

lemma sched_unblock_ok:
  assumes S: "sched_ok s" and t: "t < TASK_MAX" shows "sched_ok (sched_unblock s me t)"
proof (cases "t_state (g_tasks s t) = TASK_BLOCKED")
  case True
  have a: "unat (cpu_affinity (g_tasks s t)) < unat (g_num_cpus s)" using sched_okD(5) [OF S t] True by (simp add: task_ok_def Let_def)
  let ?a = "cpu_affinity (g_tasks s t)" and ?s = "task_upd t (\<lambda>k. k\<lparr>t_state := TASK_READY\<rparr>) s"
  show ?thesis
  proof (cases "on_cpu (g_tasks s t)")
    case oc: True
    have "sched_ok (task_upd t (\<lambda>k. k\<lparr>t_state := TASK_READY, wake_pending := True\<rparr>) s)" by (rule mark_ok [OF S t oc]) (use oc in simp_all)
    then have "sched_ok (task_upd t (\<lambda>k. k\<lparr>wake_pending := True\<rparr>) ?s)" by (rule sched_ok_core [rotated]) (simp add: core_defs)
    then show ?thesis using True oc by (simp add: sched_unblock_def Let_def)
  next
    case oc: False
    let ?r = "cpu_upd (unat ?a) (\<lambda>k. k\<lparr>run_queue := run_queue k @ [t]\<rparr>) ?s"
    have "sched_ok ?r" by (rule sched_ok_core [OF _ enqueue_ok [OF S t oc _ a]]) (use True in \<open>simp_all add: core_defs\<close>)
    moreover have "sched_unblock s me t = (if num_cpus s > 1 then sched_resched_cpu ?r me ?a else ?r)"
      using True oc a sched_okD(3) [OF S] by (simp add: sched_unblock_def Let_def word_less_nat_alt)
    ultimately show ?thesis using sched_ok_core [OF resched_core] by simp
  qed
qed (use S in \<open>simp add: sched_unblock_def Let_def\<close>)

lemma dequeue_none:
  assumes "\<And>d. d < unat (num_cpus s) \<Longrightarrow> t \<notin> set (run_queue (g_cpus s d))" shows "sched_dequeue s t = s"
proof -
  have l: "\<forall>c \<in> set cs. t \<notin> set (run_queue (g_cpus s c)) \<Longrightarrow> dequeue_loop cs s t = s" for cs by (induction cs) auto
  show ?thesis
  proof (cases "num_cpus s = 1")
    case True
    then show ?thesis using l [of "[0]"] assms [of 0] by (simp add: sched_dequeue_def)
  next
    case False
    let ?a = "cpu_affinity (g_tasks s t)"
    have "dequeue_loop ((if ?a < num_cpus s then [unat ?a] else []) @ [0..<unat (num_cpus s)]) s t = s"
      by (rule l) (use assms in \<open>auto simp: word_less_nat_alt\<close>)
    then show ?thesis using False by (simp add: sched_dequeue_def Let_def)
  qed
qed

lemma dequeue_one:
  assumes "t \<in> set (run_queue (g_cpus s (unat (cpu_affinity (g_tasks s t)))))" "unat (cpu_affinity (g_tasks s t)) < unat (num_cpus s)"
  shows "sched_dequeue s t = cpu_upd (unat (cpu_affinity (g_tasks s t))) (\<lambda>k. k\<lparr>run_queue := remove1 t (run_queue k)\<rparr>) s"
proof -
  have "unat (cpu_affinity (g_tasks s t)) = 0" if "num_cpus s = 1" using assms(2) that by simp
  then show ?thesis using assms by (auto simp: sched_dequeue_def Let_def word_less_nat_alt)
qed

lemma kill_ok:
  assumes S: "sched_ok s" and t: "t < TASK_MAX" "t_state (g_tasks s t) \<noteq> TASK_ALLOCATING"
  shows "sched_ok (sched_dequeue (task_upd t (\<lambda>k. k\<lparr>t_state := TASK_DEAD\<rparr>) s) t)" (is "sched_ok (sched_dequeue ?s t)")
proof (cases "t_state (g_tasks s t) = TASK_READY \<and> \<not> on_cpu (g_tasks s t)")
  case True
  have q: "unat (cpu_affinity (g_tasks s t)) < unat (g_num_cpus s)" "t \<in> set (run_queue (g_cpus s (unat (cpu_affinity (g_tasks s t)))))"
    using sched_okD(5) [OF S t(1)] True by (simp_all add: task_ok_def Let_def)
  then have "sched_dequeue ?s t = cpu_upd (unat (cpu_affinity (g_tasks s t))) (\<lambda>k. k\<lparr>run_queue := remove1 t (run_queue k)\<rparr>) ?s"
    using dequeue_one [of t ?s] sched_okD(3) [OF S] by simp
  then show ?thesis using kill_queued_ok [OF S t(1)] True by simp
next
  case False
  have "t \<notin> set (run_queue (g_cpus s d))" if "d < unat (g_num_cpus s)" for d using queued_once(2,3) [OF S that, of t] False by blast
  then have "sched_dequeue ?s t = ?s" using sched_okD(3) [OF S] by (intro dequeue_none) simp
  moreover have "sched_ok ?s"
  proof (cases "on_cpu (g_tasks s t)")
    case True
    then show ?thesis by (intro mark_ok [OF S t(1)]) simp_all
  next
    case oc: False
    have "\<not> wake_pending (g_tasks s t)" using sched_okD(7) [OF S, of t] oc by blast
    then show ?thesis using False oc by (intro off_ok [OF S t(1) oc]) simp_all
  qed
  ultimately show ?thesis by simp
qed

text \<open>
  A switch on CPU \<open>c\<close> from \<open>prev\<close> to \<open>nx\<close>, the head of the run queue or the idle task: \<open>prev\<close> leaves
  the CPU, and goes to the end of the queue if it was running or has been woken meanwhile.
\<close>

definition switched :: "sched \<Rightarrow> nat \<Rightarrow> nat \<Rightarrow> nat \<Rightarrow> bool \<Rightarrow> sched \<Rightarrow> bool" where
  "switched s c prev nx e s' \<longleftrightarrow>
     g_num_cpus s' = g_num_cpus s \<and>
     (\<forall>u. u \<noteq> prev \<and> u \<noteq> nx \<longrightarrow> tcore (g_tasks s' u) = tcore (g_tasks s u)) \<and>
     tcore (g_tasks s' nx) = (TASK_RUNNING, cpu_affinity (g_tasks s nx), True, wake_pending (g_tasks s nx)) \<and>
     tcore (g_tasks s' prev) = (if e then TASK_READY else t_state (g_tasks s prev), cpu_affinity (g_tasks s prev), False, False) \<and>
     (\<forall>d. d \<noteq> c \<longrightarrow> ccore (g_cpus s' d) = ccore (g_cpus s d)) \<and>
     ccore (g_cpus s' c) = (nx, idle_task (g_cpus s c), tl (run_queue (g_cpus s c)) @ (if e then [prev] else []))"

lemma next_off:
  assumes S: "sched_ok s" and c: "c < unat (g_num_cpus s)" and prev: "current_task (g_cpus s c) = prev" "nx \<noteq> prev"
    and q: "run_queue (g_cpus s c) = nx # q \<or> run_queue (g_cpus s c) = [] \<and> nx = TASK_MAX + c"
  shows "\<not> on_cpu (g_tasks s nx)" "\<not> wake_pending (g_tasks s nx)" "nx = TASK_MAX + c \<or> nx < TASK_MAX \<and> cpu_affinity (g_tasks s nx) = of_nat c"
proof -
  show off: "\<not> on_cpu (g_tasks s nx)"
  proof (cases "run_queue (g_cpus s c) = []")
    case True
    have "current_task (g_cpus s d) \<noteq> TASK_MAX + c" if "d < unat (g_num_cpus s)" for d
      using current_where [OF S that refl] prev q True by (cases "d = c") auto
    then show ?thesis using sched_okD(6) [OF S, of nx] q True by auto
  next
    case False
    then show ?thesis using queued_once(3) [OF S c, of nx] q by simp
  qed
  then show "\<not> wake_pending (g_tasks s nx)" using sched_okD(7) [OF S] by blast
  show "nx = TASK_MAX + c \<or> nx < TASK_MAX \<and> cpu_affinity (g_tasks s nx) = of_nat c"
    using q sched_okD(4) [OF S c] by (auto simp: cpu_ok_def Let_def)
qed

definition switching :: "sched \<Rightarrow> nat \<Rightarrow> nat \<Rightarrow> nat \<Rightarrow> bool \<Rightarrow> sched \<Rightarrow> bool" where
  "switching s c prev nx e s' \<longleftrightarrow>
     sched_ok s \<and> c < unat (g_num_cpus s) \<and> current_task (g_cpus s c) = prev \<and> nx \<noteq> prev \<and>
     (\<exists>q. run_queue (g_cpus s c) = nx # q \<or> run_queue (g_cpus s c) = [] \<and> nx = TASK_MAX + c) \<and>
     (e \<longleftrightarrow> prev < TASK_MAX \<and> (t_state (g_tasks s prev) = TASK_RUNNING \<or> wake_pending (g_tasks s prev))) \<and>
     switched s c prev nx e s'"

lemma switching_new:
  assumes "switching s c prev nx e s'"
  shows "\<And>u. u \<noteq> prev \<Longrightarrow> u \<noteq> nx \<Longrightarrow> tcore (g_tasks s' u) = tcore (g_tasks s u)" "\<And>d. d \<noteq> c \<Longrightarrow> ccore (g_cpus s' d) = ccore (g_cpus s d)"
    "t_state (g_tasks s' nx) = TASK_RUNNING" "cpu_affinity (g_tasks s' nx) = cpu_affinity (g_tasks s nx)" "on_cpu (g_tasks s' nx)"
    "wake_pending (g_tasks s' nx) = wake_pending (g_tasks s nx)" "t_state (g_tasks s' prev) = (if e then TASK_READY else t_state (g_tasks s prev))"
    "cpu_affinity (g_tasks s' prev) = cpu_affinity (g_tasks s prev)" "\<not> on_cpu (g_tasks s' prev)" "\<not> wake_pending (g_tasks s' prev)"
    "current_task (g_cpus s' c) = nx" "idle_task (g_cpus s' c) = idle_task (g_cpus s c)"
    "run_queue (g_cpus s' c) = tl (run_queue (g_cpus s c)) @ (if e then [prev] else [])" "g_num_cpus s' = g_num_cpus s"
  using assms by (simp_all add: switching_def switched_def tcore_def ccore_def)

lemma switching_old:
  assumes w: "switching s c prev nx e s'"
  shows "sched_ok s" "c < unat (g_num_cpus s)" "on_cpu (g_tasks s prev)"
    "\<And>d. d < unat (g_num_cpus s) \<Longrightarrow> current_task (g_cpus s d) = prev \<Longrightarrow> d = c"
    "\<not> on_cpu (g_tasks s nx)" "\<not> wake_pending (g_tasks s nx)" "nx = TASK_MAX + c \<or> nx < TASK_MAX \<and> cpu_affinity (g_tasks s nx) = of_nat c"
    "prev < TASK_MAX \<Longrightarrow> cpu_affinity (g_tasks s prev) = of_nat c" "idle_task (g_cpus s c) = TASK_MAX + c" "distinct (run_queue (g_cpus s c))"
    "\<And>t. t \<in> set (run_queue (g_cpus s c)) \<Longrightarrow> cpu_affinity (g_tasks s t) = of_nat c"
proof -
  obtain q where o: "sched_ok s" "c < unat (g_num_cpus s)" "current_task (g_cpus s c) = prev" "nx \<noteq> prev"
    "run_queue (g_cpus s c) = nx # q \<or> run_queue (g_cpus s c) = [] \<and> nx = TASK_MAX + c" using w unfolding switching_def by blast
  show "sched_ok s" "c < unat (g_num_cpus s)" by (fact o)+
  show "on_cpu (g_tasks s prev)" using sched_okD(6) [OF o(1), of prev] o(2,3) by blast
  show "\<And>d. d < unat (g_num_cpus s) \<Longrightarrow> current_task (g_cpus s d) = prev \<Longrightarrow> d = c" using current_once [OF o(1) _ o(2) _ o(3)] .
  show "\<not> on_cpu (g_tasks s nx)" "\<not> wake_pending (g_tasks s nx)" "nx = TASK_MAX + c \<or> nx < TASK_MAX \<and> cpu_affinity (g_tasks s nx) = of_nat c"
    using next_off [OF o] by blast+
  show "prev < TASK_MAX \<Longrightarrow> cpu_affinity (g_tasks s prev) = of_nat c" "idle_task (g_cpus s c) = TASK_MAX + c" "distinct (run_queue (g_cpus s c))"
    "\<And>t. t \<in> set (run_queue (g_cpus s c)) \<Longrightarrow> cpu_affinity (g_tasks s t) = of_nat c"
    using sched_okD(4) [OF o(1,2)] o(3) by (auto simp: cpu_ok_def Let_def)
qed

lemma switching_queue:
  assumes w: "switching s c prev nx e s'"
  shows "t < TASK_MAX \<Longrightarrow> t \<in> set (tl (run_queue (g_cpus s c))) \<longleftrightarrow> t \<in> set (run_queue (g_cpus s c)) \<and> t \<noteq> nx"
    and "t \<in> set (tl (run_queue (g_cpus s c))) \<Longrightarrow> t \<in> set (run_queue (g_cpus s c)) \<and> t \<noteq> nx \<and> t \<noteq> prev"
    and "d < unat (g_num_cpus s) \<Longrightarrow> d \<noteq> c \<Longrightarrow> t \<in> set (run_queue (g_cpus s d)) \<Longrightarrow> t \<noteq> nx \<and> t \<noteq> prev"
proof -
  note o = switching_old [OF w]
  obtain q where q: "run_queue (g_cpus s c) = nx # q \<or> run_queue (g_cpus s c) = [] \<and> nx = TASK_MAX + c" using w unfolding switching_def by blast
  show "t < TASK_MAX \<Longrightarrow> t \<in> set (tl (run_queue (g_cpus s c))) \<longleftrightarrow> t \<in> set (run_queue (g_cpus s c)) \<and> t \<noteq> nx" using q o(10) by auto
  show "t \<in> set (tl (run_queue (g_cpus s c))) \<Longrightarrow> t \<in> set (run_queue (g_cpus s c)) \<and> t \<noteq> nx \<and> t \<noteq> prev"
    using q o(3,10) queued_once(3) [OF o(1,2), of t] by auto
  show "d < unat (g_num_cpus s) \<Longrightarrow> d \<noteq> c \<Longrightarrow> t \<in> set (run_queue (g_cpus s d)) \<Longrightarrow> t \<noteq> nx \<and> t \<noteq> prev"
    using queued_once [OF o(1), of d t] o(3) q queued_once(4) [OF o(1,2), of nx] by auto
qed

lemma switching_cpu_ok:
  assumes w: "switching s c prev nx e s'" and d: "d < unat (g_num_cpus s)" shows "cpu_ok s' d"
proof (cases "d = c")
  case False
  note o = switching_old [OF w] and n = switching_new [OF w]
  have "current_task (g_cpus s d) \<noteq> prev" "current_task (g_cpus s d) \<noteq> nx" using o(4) [OF d] False d sched_okD(6) [OF o(1), of nx] o(5) by blast+
  then show ?thesis using sched_okD(4) [OF o(1) d] n(1) n(2) [OF False] switching_queue(3) [OF w d False] by (simp add: cpu_ok_def Let_def tcore_def ccore_def)
next
  case True
  note o = switching_old [OF w] and n = switching_new [OF w] and tlp = switching_queue(2) [OF w]
  have "cpu_ok s' c"
    unfolding cpu_ok_def Let_def n(11-13) o(9)
  proof (intro conjI ballI)
    show "nx = TASK_MAX + c \<or> nx < TASK_MAX \<and> cpu_affinity (g_tasks s' nx) = of_nat c" using o(7) n(4) by simp
    show "distinct (tl (run_queue (g_cpus s c)) @ (if e then [prev] else []))" using o(10) tlp by (auto simp: distinct_tl)
    fix t assume t: "t \<in> set (tl (run_queue (g_cpus s c)) @ (if e then [prev] else []))"
    have e: "e \<Longrightarrow> prev < TASK_MAX" using w by (simp add: switching_def)
    have "t = prev \<and> e \<or> t \<in> set (run_queue (g_cpus s c)) \<and> tcore (g_tasks s' t) = tcore (g_tasks s t)" using t tlp n(1) by (auto split: if_splits)
    then show "t < TASK_MAX" "t_state (g_tasks s' t) = TASK_READY" "\<not> on_cpu (g_tasks s' t)" "cpu_affinity (g_tasks s' t) = of_nat c"
      using n(7-9) e o(8) queued_once [OF o(1,2), of t] o(11) [of t] by (auto simp: tcore_def)
  qed simp
  then show ?thesis using True by simp
qed

lemma switching_task_ok:
  assumes w: "switching s c prev nx e s'" and u: "u < TASK_MAX" shows "task_ok s' u"
proof -
  note o = switching_old [OF w] and n = switching_new [OF w]
  have c: "unat (of_nat c :: u32) = c" by (rule cpu_num [OF o(2) sched_okD(2) [OF o(1)]])
  consider "u = nx" | "u = prev" | "u \<noteq> nx" "u \<noteq> prev" by blast
  then show ?thesis
  proof cases
    case 1
    then show ?thesis using n(3-6) o(6) by (simp add: task_ok_def Let_def)
  next
    case 2
    have "e \<longleftrightarrow> prev < TASK_MAX \<and> (t_state (g_tasks s prev) = TASK_RUNNING \<or> wake_pending (g_tasks s prev))" using w by (simp add: switching_def)
    then show ?thesis using 2 n(7-14) sched_okD(5) [OF o(1) u] o(2,3,8) c u by (auto simp: task_ok_def Let_def)
  next
    case 3
    have "u \<in> set (run_queue (g_cpus s' a))" if "u \<in> set (run_queue (g_cpus s a))" for a
      using that n(2) [of a] n(13) switching_queue(1) [OF w u] 3 by (cases "a = c") (simp_all add: ccore_def)
    then show ?thesis using sched_okD(5) [OF o(1) u] n(1) [OF 3(2,1)] n(14) by (simp add: task_ok_def Let_def tcore_def)
  qed
qed

lemma switching_on_cpu:
  assumes w: "switching s c prev nx e s'" shows "on_cpu (g_tasks s' u) \<longleftrightarrow> (\<exists>d < unat (g_num_cpus s). current_task (g_cpus s' d) = u)"
proof -
  note o = switching_old [OF w] and n = switching_new [OF w]
  have p: "current_task (g_cpus s c) = prev" "nx \<noteq> prev" using w by (simp_all add: switching_def)
  have cur: "current_task (g_cpus s' d) = (if d = c then nx else current_task (g_cpus s d))" for d using n(2) [of d] n(11) by (simp add: ccore_def)
  consider "u = nx" | "u = prev" | "u \<noteq> nx" "u \<noteq> prev" by blast
  then show ?thesis
  proof cases
    case 1
    then show ?thesis using n(5,11) o(2) by blast
  next
    case 2
    then show ?thesis using n(9) cur o(4) p(2) by metis
  next
    case 3
    have "on_cpu (g_tasks s' u) = on_cpu (g_tasks s u)" using n(1) [OF 3(2,1)] by (simp add: tcore_def)
    then show ?thesis using sched_okD(6) [OF o(1), of u] cur 3 p(1) by metis
  qed
qed

lemma switched_ok:
  assumes w: "switching s c prev nx e s'" shows "sched_ok s'"
proof -
  note o = switching_old [OF w] and n = switching_new [OF w]
  have "wake_pending (g_tasks s' u) \<Longrightarrow> on_cpu (g_tasks s' u) \<and> u < TASK_MAX" for u
    using sched_okD(7) [OF o(1), of u] n(1) [of u] n(6,10) o(6) by (cases "u = prev \<or> u = nx") (auto simp: tcore_def)
  then show ?thesis using sched_okD(1,2) [OF o(1)] n(14) switching_cpu_ok [OF w] switching_task_ok [OF w] switching_on_cpu [OF w] unfolding sched_ok_def by simp
qed

text \<open>The state of an idle task plays no role.\<close>

lemma idle_state_ok: "sched_ok s \<Longrightarrow> TASK_MAX \<le> t \<Longrightarrow> sched_ok (task_upd t (\<lambda>k. k\<lparr>t_state := x\<rparr>) s)"
proof (rule sched_okI)
  assume S: "sched_ok s" and t: "TASK_MAX \<le> t"
  fix d assume d: "d < unat (g_num_cpus s)"
  show "cpu_ok (task_upd t (\<lambda>k. k\<lparr>t_state := x\<rparr>) s) d" using sched_okD(4) [OF S d] t by (auto simp: cpu_ok_def Let_def)
next
  assume S: "sched_ok s" and t: "TASK_MAX \<le> t"
  fix u :: nat assume u: "u < TASK_MAX"
  show "task_ok (task_upd t (\<lambda>k. k\<lparr>t_state := x\<rparr>) s) u" using sched_okD(5) [OF S u] u t by (simp add: task_ok_def Let_def)
qed (auto dest: sched_okD(7) split: if_splits)

text \<open>What \<open>sched_schedule\<close> does: it switches, keeps the running task, or stays with the idle task.\<close>

definition switch_from :: "sched \<Rightarrow> nat \<Rightarrow> sched \<Rightarrow> bool" where
  "switch_from s c s' \<longleftrightarrow>
     (\<exists>nx q. let prev = current_task (g_cpus s c)
             in nx \<noteq> prev \<and> (run_queue (g_cpus s c) = nx # q \<or> run_queue (g_cpus s c) = [] \<and> nx = TASK_MAX + c) \<and>
                switched s c prev nx (prev < TASK_MAX \<and> (t_state (g_tasks s prev) = TASK_RUNNING \<or> wake_pending (g_tasks s prev))) s')"

lemmas schedule_defs = sched_schedule_def pick_next_def switched_def Let_def tcore_def ccore_def

lemma schedule_cases:
  assumes S: "sched_ok s" and c: "c < unat (g_num_cpus s)" and r: "sched_schedule s c = Some s'"
  shows "switch_from s c s' \<or> same_core s s' \<or> s' = task_upd (TASK_MAX + c) (\<lambda>k. k\<lparr>t_state := TASK_RUNNING\<rparr>) s"
proof -
  let ?prev = "current_task (g_cpus s c)" and ?q = "run_queue (g_cpus s c)"
  have idle: "idle_task (g_cpus s c) = TASK_MAX + c" and pool: "\<And>t. t \<in> set ?q \<Longrightarrow> t < TASK_MAX"
    using sched_okD(4) [OF S c] by (auto simp: cpu_ok_def Let_def)
  have notin: "?prev \<notin> set ?q" using queued_once(3) [OF S c, of ?prev] sched_okD(6) [OF S, of ?prev] c by blast
  have wp: "wake_pending (g_tasks s ?prev) \<Longrightarrow> ?prev < TASK_MAX" using sched_okD(7) [OF S] by blast
  have wi: "\<not> wake_pending (g_tasks s ?prev)" if "?prev = TASK_MAX + c" using wp that by linarith
  have run: "t_state (g_tasks s ?prev) = TASK_RUNNING \<Longrightarrow> ?prev < TASK_MAX \<Longrightarrow> \<not> wake_pending (g_tasks s ?prev)"
    using sched_okD(5) [OF S, of ?prev] by (simp add: task_ok_def Let_def)
  have r0: "irq_depth (g_cpus s c) = 0" using r by (simp add: sched_schedule_def split: if_splits)
  consider (A) "?prev < TASK_MAX" "t_state (g_tasks s ?prev) = TASK_RUNNING" "\<not> wake_pending (g_tasks s ?prev)"
    | (B) "?prev < TASK_MAX" "t_state (g_tasks s ?prev) \<noteq> TASK_RUNNING" "wake_pending (g_tasks s ?prev)"
    | (C) "?prev < TASK_MAX" "t_state (g_tasks s ?prev) \<noteq> TASK_RUNNING" "\<not> wake_pending (g_tasks s ?prev)"
    | (D) "?prev = TASK_MAX + c" "\<not> wake_pending (g_tasks s ?prev)" using current_where [OF S c refl] run wi by blast
  note kinds = this
  show ?thesis
  proof (cases ?q)
    case Nil
    from kinds show ?thesis
    proof cases
      case A
      then have "same_core s s'" using r r0 Nil idle by (simp add: sched_schedule_def pick_next_def Let_def) (auto simp: core_defs split: if_splits)
      then show ?thesis by simp
    next
      case D
      then show ?thesis using r r0 Nil idle by (simp add: sched_schedule_def pick_next_def Let_def)
    qed (use r r0 Nil idle in \<open>simp add: schedule_defs switch_from_def; auto\<close>)+
  next
    case (Cons nx q)
    have nx: "nx \<noteq> ?prev" "nx < TASK_MAX" using notin pool [of nx] Cons by auto
    from kinds have "switched s c ?prev nx (?prev < TASK_MAX \<and> (t_state (g_tasks s ?prev) = TASK_RUNNING \<or> wake_pending (g_tasks s ?prev))) s'"
      by cases (use r r0 Cons nx idle in \<open>simp add: sched_schedule_def pick_next_def Let_def; auto simp: switched_def tcore_def ccore_def\<close>)+
    then have "switch_from s c s'" unfolding switch_from_def Let_def using Cons nx(1) by blast
    then show ?thesis by blast
  qed
qed

lemma schedule_ok:
  assumes S: "sched_ok s" and c: "c < unat (g_num_cpus s)" and r: "sched_schedule s c = Some s'"
  shows "sched_ok s'"
  using schedule_cases [OF assms]
proof (elim disjE)
  assume "switch_from s c s'"
  then obtain nx e where "switching s c (current_task (g_cpus s c)) nx e s'" unfolding switch_from_def switching_def Let_def using S c by blast
  then show ?thesis by (rule switched_ok)
next
  assume "same_core s s'"
  then show ?thesis using S by (rule sched_ok_core)
next
  assume "s' = task_upd (TASK_MAX + c) (\<lambda>k. k\<lparr>t_state := TASK_RUNNING\<rparr>) s"
  then show ?thesis using idle_state_ok [OF S, of "TASK_MAX + c"] by simp
qed

section \<open>Runs of the scheduler\<close>

text \<open>
  A task is live if it is on a CPU or has a state other than dead or being allocated. Live tasks have
  a slot. Slots are collected and used again; \<open>settled\<close> says that no dead task is still on its CPU.
\<close>

definition live :: "sched \<Rightarrow> nat \<Rightarrow> bool" where
  "live s t \<longleftrightarrow> on_cpu (g_tasks s t) \<or> t_state (g_tasks s t) \<notin> {TASK_DEAD, TASK_ALLOCATING}"

definition settled :: "sched \<Rightarrow> bool" where
  "settled s \<longleftrightarrow> (\<forall>t < TASK_MAX. t_state (g_tasks s t) = TASK_DEAD \<longrightarrow> \<not> on_cpu (g_tasks s t))"

definition sched_inv :: "sched \<Rightarrow> bool" where
  "sched_inv s \<longleftrightarrow> sched_ok s \<and> (\<forall>t < TASK_MAX. live s t \<longrightarrow> g_stack_used s t)"

text \<open>
  The steps: any CPU schedules, is interrupted, preempts or changes its preemption count; its current
  task blocks or exits; a wake-up, a kick or a kill for any task comes from any CPU; tasks are
  created, prepared, started and collected. A slot is allocated or collected only when no dead task
  is still on its CPU, which the code does not check (see below).
\<close>

inductive sched_step :: "sched \<Rightarrow> sched \<Rightarrow> bool" where
  schedule: "c < unat (g_num_cpus s) \<Longrightarrow> sched_schedule s c = Some s' \<Longrightarrow> sched_step s s'"
| block: "c < unat (g_num_cpus s) \<Longrightarrow> current_task (g_cpus s c) < TASK_MAX \<Longrightarrow> sched_step s (task_block_mark s c)"
| exit: "c < unat (g_num_cpus s) \<Longrightarrow> current_task (g_cpus s c) < TASK_MAX \<Longrightarrow> sched_step s (task_exit_mark s c)"
| unblock: "t < TASK_MAX \<Longrightarrow> sched_step s (sched_unblock s me t)"
| kill: "t < TASK_MAX \<Longrightarrow> sched_step s (exit_group_kill s t)"
| kick: "sched_step s (task_kick s me t)"
| tick: "c < unat (g_num_cpus s) \<Longrightarrow> sched_step s (sched_tick s c now)"
| irq: "sched_step s (cpu_upd c (\<lambda>k. k\<lparr>irq_depth := d\<rparr>) s)"
| trap: "c < unat (g_num_cpus s) \<Longrightarrow> sched_check_and_yield_from_trap s c from_kernel = Some (b, s') \<Longrightarrow> sched_step s s'"
| resume: "sched_step s (preempt_resume s c)"
| disable: "sched_step s (preempt_disable s c)"
| enable: "c < unat (g_num_cpus s) \<Longrightarrow> preempt_enable s c irqs_on = Some s' \<Longrightarrow> sched_step s s'"
| alloc: "settled s \<Longrightarrow> sched_step s (snd (task_alloc_slot s))"
| create: "settled s \<Longrightarrow> sched_step s (snd (task_create_affinity s me new_id a))"
| reap: "t_state (g_tasks s t) = TASK_DEAD \<longrightarrow> \<not> on_cpu (g_tasks s t) \<Longrightarrow> sched_step s (task_reap_dead s t)"
| prepare: "sched_step s (task_upd t (\<lambda>k. k\<lparr>t_id := i, t_parent_id := p, is_user_process := u, itimer_expire_ns := e, itimer_interval_ns := v\<rparr>) s)"
| start: "t < TASK_MAX \<Longrightarrow> g_stack_used s t \<Longrightarrow> t_state (g_tasks s t) = TASK_ALLOCATING \<Longrightarrow> sched_step s (process_start s me t)"

lemma sched_inv_step:
  assumes "sched_inv s" "sched_ok s'" "g_stack_used s' = g_stack_used s" "\<And>t. t < TASK_MAX \<Longrightarrow> live s' t \<Longrightarrow> live s t"
  shows "sched_inv s'"
  using assms by (auto simp: sched_inv_def)

lemma sched_inv_core: "sched_inv s \<Longrightarrow> same_core s s' \<Longrightarrow> g_stack_used s' = g_stack_used s \<Longrightarrow> sched_inv s'"
  by (rule sched_inv_step) (auto simp: sched_inv_def live_def same_coreD sched_ok_core)

lemma resched_used [simp]: "g_stack_used (sched_resched_cpu s me c) = g_stack_used s"
  by (simp add: sched_resched_cpu_def Let_def)

lemma dequeue_tasks [simp]: "g_tasks (sched_dequeue s t) = g_tasks s" "g_stack_used (sched_dequeue s t) = g_stack_used s"
proof -
  have "g_tasks (dequeue_loop cs s t) = g_tasks s \<and> g_stack_used (dequeue_loop cs s t) = g_stack_used s" for cs by (induction cs) auto
  then show "g_tasks (sched_dequeue s t) = g_tasks s" "g_stack_used (sched_dequeue s t) = g_stack_used s" by (simp_all add: sched_dequeue_def Let_def)
qed

lemma resched_tasks [simp]: "g_tasks (sched_resched_cpu s me c) = g_tasks s"
  by (simp add: sched_resched_cpu_def Let_def)

lemma schedule_used: "sched_schedule s c = Some s' \<Longrightarrow> g_stack_used s' = g_stack_used s"
  by (auto simp: sched_schedule_def pick_next_def Let_def split: if_splits list.splits)

lemma schedule_inv:
  assumes I: "sched_inv s" and c: "c < unat (g_num_cpus s)" and r: "sched_schedule s c = Some s'" shows "sched_inv s'"
proof (rule sched_inv_step [OF I])
  have S: "sched_ok s" using I by (simp add: sched_inv_def)
  show "sched_ok s'" by (rule schedule_ok [OF S c r])
  show "g_stack_used s' = g_stack_used s" by (rule schedule_used [OF r])
  fix t :: nat assume t: "t < TASK_MAX" "live s' t"
  show "live s t" using schedule_cases [OF S c r]
  proof (elim disjE)
    assume "switch_from s c s'"
    then obtain nx q e where w: "switched s c (current_task (g_cpus s c)) nx e s'" "run_queue (g_cpus s c) = nx # q \<or> nx = TASK_MAX + c"
      unfolding switch_from_def Let_def by blast
    have "live s (current_task (g_cpus s c))" using sched_okD(6) [OF S] c by (auto simp: live_def)
    moreover have "live s nx" if "nx < TASK_MAX" using w(2) that queued_once(2) [OF S c, of nx] by (auto simp: live_def)
    ultimately show "live s t" using w(1) t by (cases "t = nx \<or> t = current_task (g_cpus s c)") (auto simp: switched_def tcore_def live_def)
  next
    assume "same_core s s'"
    then show "live s t" using t by (simp add: live_def same_coreD)
  qed (use t in \<open>simp add: live_def\<close>)
qed

lemma unblock_inv:
  assumes I: "sched_inv s" and t: "t < TASK_MAX" shows "sched_inv (sched_unblock s me t)"
proof (rule sched_inv_step [OF I])
  show "sched_ok (sched_unblock s me t)" using I t by (simp add: sched_inv_def sched_unblock_ok)
  show "g_stack_used (sched_unblock s me t) = g_stack_used s" by (simp add: sched_unblock_def Let_def)
qed (auto simp: live_def sched_unblock_def Let_def split: if_splits)

lemma tick_inv:
  assumes "sched_inv s" shows "sched_inv (sched_tick s c now)"
proof -
  have one: "sched_inv (itimer_one me now i s)" if I: "sched_inv s" and i: "i < TASK_MAX" for me i s
  proof -
    let ?u = "task_send_signal (task_upd i (\<lambda>k. k\<lparr>itimer_expire_ns := (if itimer_interval_ns k \<noteq> 0 then now + itimer_interval_ns k else 0)\<rparr>) s) i 14"
    let ?z = "task_upd i (\<lambda>k. k\<lparr>itimer_expire_ns := 0, itimer_interval_ns := 0\<rparr>) s"
    have "sched_inv ?u" by (rule sched_inv_core [OF I]) (simp_all add: core_defs task_send_signal_def)
    moreover have "sched_inv ?z" by (rule sched_inv_core [OF I]) (simp_all add: core_defs)
    ultimately show ?thesis using I unblock_inv [of ?u i me] i by (simp add: itimer_one_def Let_def)
  qed
  have "sched_inv (fold (itimer_one c now) xs s)" if "sched_inv s" "\<forall>i \<in> set xs. i < TASK_MAX" for xs s
    using that by (induction xs arbitrary: s) (simp_all add: one)
  moreover have "sched_inv (let s = cpu_upd c (\<lambda>k. k\<lparr>need_resched := True\<rparr>) s
      in if current_task (g_cpus s c) = idle_task (g_cpus s c) then cpu_upd c (\<lambda>k. k\<lparr>idle_ticks := idle_ticks k + 1\<rparr>) s else s)"
    by (rule sched_inv_core [OF assms]) (simp_all add: core_defs Let_def)
  ultimately show ?thesis by (simp add: sched_tick_def itimer_tick_def Let_def)
qed

lemma mark_inv:
  assumes I: "sched_inv s" and t: "t < TASK_MAX" "t_state (g_tasks s t) \<noteq> TASK_ALLOCATING"
  shows "sched_inv (sched_dequeue (task_upd t (\<lambda>k. k\<lparr>t_state := TASK_DEAD\<rparr>) s) t)"
proof (rule sched_inv_step [OF I])
  show "sched_ok (sched_dequeue (task_upd t (\<lambda>k. k\<lparr>t_state := TASK_DEAD\<rparr>) s) t)" using I t by (simp add: sched_inv_def kill_ok)
qed (auto simp: live_def split: if_splits)

lemma current_live:
  assumes "sched_ok s" "c < unat (g_num_cpus s)" "current_task (g_cpus s c) < TASK_MAX"
  shows "on_cpu (g_tasks s (current_task (g_cpus s c)))" "t_state (g_tasks s (current_task (g_cpus s c))) \<noteq> TASK_ALLOCATING"
proof -
  show oc: "on_cpu (g_tasks s (current_task (g_cpus s c)))" using sched_okD(6) [OF assms(1)] assms(2) by blast
  show "t_state (g_tasks s (current_task (g_cpus s c))) \<noteq> TASK_ALLOCATING" using sched_okD(5) [OF assms(1,3)] oc by (auto simp: task_ok_def Let_def)
qed

lemma block_inv:
  assumes I: "sched_inv s" and c: "c < unat (g_num_cpus s)" "current_task (g_cpus s c) < TASK_MAX" shows "sched_inv (task_block_mark s c)"
proof (rule sched_inv_step [OF I])
  have S: "sched_ok s" using I by (simp add: sched_inv_def)
  show "sched_ok (task_block_mark s c)" unfolding task_block_mark_def
    by (rule mark_ok [OF S c(2) current_live(1) [OF S c]]) (use current_live(1) [OF S c] in simp_all)
qed (use current_live [OF _ c] I in \<open>auto simp: task_block_mark_def live_def sched_inv_def split: if_splits\<close>)

lemma preempt_switch_inv: "sched_inv s \<Longrightarrow> c < unat (g_num_cpus s) \<Longrightarrow> preempt_switch s c = Some s' \<Longrightarrow> sched_inv s'"
  unfolding preempt_switch_def by (rule schedule_inv [rotated 2], assumption, rule sched_inv_core) (simp_all add: core_defs)

lemma yield_inv:
  assumes I: "sched_inv s" and c: "c < unat (g_num_cpus s)" and r: "sched_check_and_yield_from_trap s c k = Some (b, s')" shows "sched_inv s'"
proof -
  have "sched_inv (cpu_upd c (\<lambda>k. k\<lparr>need_resched := False\<rparr>) s)" by (rule sched_inv_core [OF I]) (simp_all add: core_defs)
  then have y: "sched_inv s'" if "sched_schedule (cpu_upd c (\<lambda>k. k\<lparr>need_resched := False\<rparr>) s) c = Some s'" for s'
    using schedule_inv that c by simp
  show ?thesis using r I y preempt_switch_inv [OF I c]
    by (auto simp: sched_check_and_yield_from_trap_def sched_check_and_yield_def trap_preempt_kernel_side_def Let_def split: if_splits Option.bind_splits)
qed

lemma enable_inv:
  assumes I: "sched_inv s" and c: "c < unat (g_num_cpus s)" and r: "preempt_enable s c b = Some s'" shows "sched_inv s'"
proof -
  let ?cur = "current_task (g_cpus s c)"
  let ?s = "if preempt_count (g_tasks s ?cur) > 0 then task_upd ?cur (\<lambda>k. k\<lparr>preempt_count := preempt_count k - 1\<rparr>) s else s"
  have "sched_inv ?s" by (rule sched_inv_core [OF I]) (simp_all add: core_defs)
  moreover have "c < unat (g_num_cpus ?s)" using c by simp
  ultimately show ?thesis using r preempt_switch_inv [of ?s c s'] unfolding preempt_enable_def Let_def by (simp split: if_splits)
qed

text \<open>Collecting a dead task that has left its CPU, and taking a slot.\<close>

definition collected :: "sched \<Rightarrow> nat \<Rightarrow> sched" where
  "collected s t = slot_take_and_free (task_upd t (\<lambda>k. k\<lparr>t_state := TASK_ALLOCATING\<rparr>) s) t"

lemma collected_fields [simp]:
  "g_tasks (collected s t) = g_tasks (task_upd t (\<lambda>k. k\<lparr>t_state := TASK_ALLOCATING\<rparr>) s)"
  "g_stack_used (collected s t) = (g_stack_used s)(t := False)"
  by (simp_all add: collected_def slot_take_and_free_def)

lemma collected_inv:
  assumes I: "sched_inv s" and t: "t < TASK_MAX" "t_state (g_tasks s t) = TASK_DEAD" "\<not> on_cpu (g_tasks s t)"
  shows "sched_inv (collected s t)"
proof -
  have S: "sched_ok s" using I by (simp add: sched_inv_def)
  have w: "\<not> wake_pending (g_tasks s t)" using sched_okD(7) [OF S, of t] t(3) by blast
  have "sched_ok (task_upd t (\<lambda>k. k\<lparr>t_state := TASK_ALLOCATING\<rparr>) s)" using t w by (intro off_ok [OF S]) simp_all
  then have "sched_ok (collected s t)" by (rule sched_ok_core [rotated]) (simp add: core_defs collected_def slot_take_and_free_def)
  then show ?thesis using I t by (auto simp: sched_inv_def live_def)
qed

lemma reap_orphans_inv:
  "sched_inv s \<Longrightarrow> settled s \<Longrightarrow> sched_inv (reap_orphans n s)"
proof (induction n arbitrary: s)
  case (Suc n)
  show ?case
  proof (cases "List.find (slot_is_reapable_orphan s) [0..<TASK_MAX]")
    case (Some v)
    then have v: "v < TASK_MAX" "t_state (g_tasks s v) = TASK_DEAD" by (auto simp: find_Some_iff slot_is_reapable_orphan_def)
    have "\<not> on_cpu (g_tasks s v)" using Suc.prems(2) v by (simp add: settled_def)
    then have "sched_inv (collected s v)" "settled (collected s v)" using collected_inv [OF Suc.prems(1)] v Suc.prems(2) by (simp_all add: settled_def)
    then show ?thesis using Suc.IH Some by (simp add: collected_def)
  qed (use Suc.prems in simp)
qed simp

text \<open>As many rounds as there are slots collect every orphan.\<close>

lemma reap_orphans_done:
  "card {i. i < TASK_MAX \<and> g_stack_used s i \<and> t_state (g_tasks s i) = TASK_DEAD} \<le> n \<Longrightarrow> i < TASK_MAX \<Longrightarrow>
   \<not> slot_is_reapable_orphan (reap_orphans n s) i"
proof (induction n arbitrary: s)
  case 0
  then have "{i. i < TASK_MAX \<and> g_stack_used s i \<and> t_state (g_tasks s i) = TASK_DEAD} = {}" by simp
  then show ?case using 0(2) by (auto simp: slot_is_reapable_orphan_def)
next
  case (Suc n)
  show ?case
  proof (cases "List.find (slot_is_reapable_orphan s) [0..<TASK_MAX]")
    case None
    then have "\<not> slot_is_reapable_orphan s i" using Suc.prems(2) by (simp add: find_None_iff)
    then show ?thesis using None by simp
  next
    case (Some v)
    then have v: "v < TASK_MAX" "g_stack_used s v" "t_state (g_tasks s v) = TASK_DEAD" by (auto simp: find_Some_iff slot_is_reapable_orphan_def)
    let ?D = "\<lambda>s. {i. i < TASK_MAX \<and> g_stack_used s i \<and> t_state (g_tasks s i) = TASK_DEAD}"
    have "?D (collected s v) = ?D s - {v}" by auto
    moreover have "v \<in> ?D s" using v by simp
    ultimately have "card (?D (collected s v)) \<le> n" using Suc.prems(1) by simp
    then show ?thesis using Suc.IH [OF _ Suc.prems(2)] Some by (simp add: collected_def)
  qed
qed

lemma no_orphan_left: "i < TASK_MAX \<Longrightarrow> \<not> slot_is_reapable_orphan (reap_orphans TASK_MAX s) i"
proof -
  have "card {i. i < TASK_MAX \<and> g_stack_used s i \<and> t_state (g_tasks s i) = TASK_DEAD} \<le> card {..<TASK_MAX}" by (intro card_mono) auto
  then show "i < TASK_MAX \<Longrightarrow> ?thesis" by (intro reap_orphans_done) simp_all
qed

lemma alloc_inv:
  assumes "sched_inv s" "settled s"
  shows "sched_inv (snd (task_alloc_slot s))"
    and "fst (task_alloc_slot s) = Some t \<Longrightarrow> t < TASK_MAX \<and> g_stack_used (snd (task_alloc_slot s)) t \<and> g_tasks (snd (task_alloc_slot s)) t = zeroed"
proof -
  let ?s = "reap_orphans TASK_MAX s"
  have I: "sched_inv ?s" by (rule reap_orphans_inv [OF assms])
  have "sched_inv (task_upd i (\<lambda>_. zeroed) (?s\<lparr>g_stack_used := (g_stack_used ?s)(i := True)\<rparr>))" if i: "i < TASK_MAX" "\<not> g_stack_used ?s i" for i
  proof -
    have "\<not> live ?s i" using I i by (auto simp: sched_inv_def)
    then have "sched_ok (task_upd i (\<lambda>_. zeroed) ?s)" using I i(1) by (intro off_ok) (auto simp: live_def zeroed_def sched_inv_def)
    then have "sched_ok (task_upd i (\<lambda>_. zeroed) (?s\<lparr>g_stack_used := (g_stack_used ?s)(i := True)\<rparr>))" by (rule sched_ok_core [rotated]) (simp add: core_defs)
    then show ?thesis using I by (auto simp: sched_inv_def live_def zeroed_def)
  qed
  then show "sched_inv (snd (task_alloc_slot s))" using I by (auto simp: task_alloc_slot_def Let_def find_Some_iff split: option.splits)
  show "fst (task_alloc_slot s) = Some t \<Longrightarrow> t < TASK_MAX \<and> g_stack_used (snd (task_alloc_slot s)) t \<and> g_tasks (snd (task_alloc_slot s)) t = zeroed"
  proof (cases "List.find (\<lambda>i. \<not> g_stack_used ?s i) [0..<TASK_MAX]")
    case (Some i)
    then have "i < TASK_MAX" by (auto simp: find_Some_iff)
    then show "fst (task_alloc_slot s) = Some t \<Longrightarrow> ?thesis" using Some by (auto simp: task_alloc_slot_def Let_def)
  qed (simp add: task_alloc_slot_def Let_def)
qed

lemma enqueue_inv:
  assumes I: "sched_inv s" and t: "t < TASK_MAX" "g_stack_used s t" "\<not> on_cpu (g_tasks s t)" "t_state (g_tasks s t) \<noteq> TASK_READY"
  shows "sched_inv (sched_enqueue (task_upd t (\<lambda>k. k\<lparr>t_state := TASK_READY, cpu_affinity := a\<rparr>) s) me t)"
proof -
  have "sched_ok (sched_enqueue (task_upd t (\<lambda>k. k\<lparr>t_state := TASK_READY, cpu_affinity := a\<rparr>) s) me t)"
    using I t by (intro sched_enqueue_ok) (simp_all add: sched_inv_def)
  then show ?thesis using I t by (auto simp: sched_inv_def live_def sched_enqueue_def Let_def split: prod.splits)
qed

lemma sched_step_inv: "sched_step s s' \<Longrightarrow> sched_inv s \<Longrightarrow> sched_inv s'"
proof (induction rule: sched_step.induct)
  case (exit c s)
  have "sched_ok s" using exit.prems by (simp add: sched_inv_def)
  then show ?case using mark_inv [OF exit.prems exit.hyps(2)] current_live(2) exit.hyps by (simp add: task_exit_mark_def Let_def)
next
  case (kick s me t)
  show ?case unfolding task_kick_def by (rule sched_inv_core [OF kick.prems]) (simp_all add: resched_core)
next
  case (create s me new_id a)
  show ?case
  proof (cases "fst (task_alloc_slot s)")
    case None
    then show ?thesis using alloc_inv(1) [OF create.prems create.hyps] by (cases "task_alloc_slot s") (simp add: task_create_affinity_def)
  next
    case (Some t)
    let ?u = "snd (task_alloc_slot s)" and ?v = "task_upd t (\<lambda>k. k\<lparr>t_id := new_id\<rparr>) (snd (task_alloc_slot s))"
    have u: "sched_inv ?u" "t < TASK_MAX" "g_stack_used ?u t" "g_tasks ?u t = zeroed" using alloc_inv [OF create.prems create.hyps] Some by blast+
    have v: "sched_inv ?v" by (rule sched_inv_core [OF u(1)]) (simp_all add: core_defs)
    have "snd (task_create_affinity s me new_id a) = sched_enqueue (task_upd t (\<lambda>k. k\<lparr>t_state := TASK_READY, cpu_affinity := a\<rparr>) ?v) me t"
      using Some by (cases "task_alloc_slot s") (simp add: task_create_affinity_def task_upd_def)
    then show ?thesis using enqueue_inv [OF v u(2)] u(3,4) by (simp add: zeroed_def)
  qed
next
  case (reap s t)
  then show ?case using collected_inv [OF reap.prems, of t] by (auto simp: task_reap_dead_def collected_def)
next
  case (start t s me)
  have off: "\<not> on_cpu (g_tasks s t)" using start.prems sched_okD(5) [of s t] start.hyps by (auto simp: sched_inv_def task_ok_def Let_def)
  have "process_start s me t = sched_enqueue (task_upd t (\<lambda>k. k\<lparr>t_state := TASK_READY, cpu_affinity := cpu_affinity (g_tasks s t)\<rparr>) s) me t"
    by (simp add: process_start_def task_upd_def)
  then show ?case using enqueue_inv [OF start.prems start.hyps(1,2) off] start.hyps(3) by simp
next
  case (irq s c d)
  show ?case by (rule sched_inv_core [OF irq.prems]) (simp_all add: core_defs)
next
  case (resume s c)
  show ?case by (rule sched_inv_core [OF resume.prems]) (simp_all add: core_defs preempt_resume_def)
next
  case (disable s c)
  show ?case by (rule sched_inv_core [OF disable.prems]) (simp_all add: core_defs preempt_disable_def)
next
  case (prepare s t i p u e v)
  show ?case by (rule sched_inv_core [OF prepare.prems]) (simp_all add: core_defs)
next
  case (kill t s)
  then show ?case using mark_inv by (auto simp: exit_group_kill_def)
qed (auto intro: schedule_inv block_inv unblock_inv tick_inv yield_inv enable_inv alloc_inv)

lemma sched_boot_inv: "0 < n \<Longrightarrow> n \<le> AVATAR_MAX_CPUS \<Longrightarrow> sched_inv (sched_boot n)"
proof -
  assume n: "0 < n" "n \<le> AVATAR_MAX_CPUS"
  have u: "unat (of_nat n :: u32) = n" using n by (simp add: unat_of_nat take_bit_nat_eq_self)
  have e: "\<exists>c < n. TASK_MAX + c = t" if "t < TASK_MAX + n" "\<not> t < TASK_MAX" for t using that by (intro exI [of _ "t - TASK_MAX"]) simp
  show ?thesis using n u
    by (auto simp: sched_inv_def sched_ok_def cpu_ok_def task_ok_def live_def Let_def sched_boot_def boot_idle_def zeroed_def intro: e split: if_splits)
qed

lemma resched_num [simp]: "g_num_cpus (sched_resched_cpu s me c) = g_num_cpus s"
  by (simp add: sched_resched_cpu_def Let_def)

lemma dequeue_num [simp]: "g_num_cpus (sched_dequeue s t) = g_num_cpus s"
proof -
  have "g_num_cpus (dequeue_loop cs s t) = g_num_cpus s" for cs by (induction cs) auto
  then show ?thesis by (simp add: sched_dequeue_def Let_def)
qed

lemma unblock_num [simp]: "g_num_cpus (sched_unblock s me t) = g_num_cpus s"
  by (simp add: sched_unblock_def Let_def)

lemma enqueue_num [simp]: "g_num_cpus (sched_enqueue s me t) = g_num_cpus s"
  by (simp add: sched_enqueue_def Let_def split: prod.splits)

lemma schedule_num: "sched_schedule s c = Some s' \<Longrightarrow> g_num_cpus s' = g_num_cpus s"
  by (auto simp: sched_schedule_def pick_next_def Let_def split: if_splits list.splits)

lemma tick_num [simp]: "g_num_cpus (sched_tick s c now) = g_num_cpus s"
proof -
  have "g_num_cpus (itimer_one me now i s) = g_num_cpus s" for me i s by (simp add: itimer_one_def task_send_signal_def Let_def)
  then have "g_num_cpus (fold (itimer_one c now) xs s) = g_num_cpus s" for xs s by (induction xs arbitrary: s) simp_all
  then show ?thesis by (simp add: sched_tick_def itimer_tick_def Let_def)
qed

lemma alloc_num [simp]: "g_num_cpus (snd (task_alloc_slot s)) = g_num_cpus s"
proof -
  have "g_num_cpus (reap_orphans n s) = g_num_cpus s" for n by (induction n arbitrary: s) (simp_all add: slot_take_and_free_def split: option.split)
  then show ?thesis by (simp add: task_alloc_slot_def Let_def split: option.split)
qed

lemma create_num [simp]: "g_num_cpus (snd (task_create_affinity s me i a)) = g_num_cpus s"
  using alloc_num [of s] by (cases "task_alloc_slot s") (simp add: task_create_affinity_def split: option.split)

lemma sched_step_num: "sched_step s s' \<Longrightarrow> g_num_cpus s' = g_num_cpus s"
proof (induction rule: sched_step.induct)
  case (trap c s k b s')
  then show ?case by (auto simp: sched_check_and_yield_from_trap_def sched_check_and_yield_def trap_preempt_kernel_side_def preempt_switch_def Let_def
        dest: schedule_num split: if_splits Option.bind_splits)
next
  case (enable c s b s')
  then show ?case by (auto simp: preempt_enable_def preempt_switch_def Let_def dest: schedule_num split: if_splits)
qed (auto simp: schedule_num task_block_mark_def task_exit_mark_def exit_group_kill_def task_kick_def preempt_resume_def preempt_disable_def
    task_reap_dead_def slot_take_and_free_def process_start_def Let_def)

lemma sched_run_inv:
  assumes "sched_step\<^sup>*\<^sup>* (sched_boot n) s" "0 < n" "n \<le> AVATAR_MAX_CPUS" shows "sched_ok s \<and> unat (g_num_cpus s) = n"
proof -
  have "unat (g_num_cpus (sched_boot n)) = n" using assms(3) by (simp add: sched_boot_def unat_of_nat take_bit_nat_eq_self)
  note b = this sched_boot_inv [OF assms(2,3)]
  have "sched_inv s \<and> unat (g_num_cpus s) = n"
    using assms(1) by (induction rule: rtranclp_induct) (use b sched_step_inv sched_step_num in auto)
  then show ?thesis by (simp add: sched_inv_def)
qed


text \<open>Two CPUs, a task created for the first one, which then schedules.\<close>

definition one_task :: sched where
  "one_task = the (sched_schedule (snd (task_create_affinity (sched_boot 2) 0 1 0)) 0)"


text \<open>
  Why collection needs the guard: a task that has marked itself dead is collected by another CPU
  before it has left its own, its slot goes to a new task for the other CPU, and both CPUs run in the
  same slot, on the same stack.
\<close>

lemma reap_while_running:
  "let s = task_reap_dead (task_exit_mark one_task 0) 0;
       s = the (sched_schedule (snd (task_create_affinity s 1 2 1)) 1)
   in current_task (g_cpus s 0) = 0 \<and> current_task (g_cpus s 1) = 0"
  by code_simp

text \<open>A wake-up that arrives before a kill revives the killed task when it leaves its CPU.\<close>

lemma killed_task_revives:
  "let s = exit_group_kill (sched_unblock (task_block_mark one_task 0) 1 0) 0
   in t_state (g_tasks s 0) = TASK_DEAD \<and>
      (let s = the (sched_schedule s 0) in t_state (g_tasks s 0) = TASK_READY \<and> run_queue (g_cpus s 0) = [0])"
  by code_simp

text \<open>
  After one preemption inside the kernel, no further one happens on this CPU before the preempted
  task runs again.
\<close>

lemma preemption_blocks_itself:
  assumes "trap_preempt_kernel_side s c = Some (True, s')"
  shows "trap_preempt_kernel_side s' c = Some (False, s')"
proof -
  have d: "preempt_schedule_depth (g_cpus s c) = 0" and p: "preempt_switch s c = Some s'"
    using assms by (auto simp: trap_preempt_kernel_side_def Let_def split: if_splits Option.bind_splits)
  have "preempt_schedule_depth (g_cpus v' c) = preempt_schedule_depth (g_cpus v c)" if "sched_schedule v c = Some v'" for v v'
    using that by (auto simp: sched_schedule_def pick_next_def Let_def split: if_splits list.splits)
  from this [OF p [unfolded preempt_switch_def]] have "preempt_schedule_depth (g_cpus s' c) = 1" using d by simp
  then show ?thesis by (simp add: trap_preempt_kernel_side_def Let_def)
qed

end
