(* ===== verification/Spec2Isabelle.thy ===== *)
theory Spec2Isabelle
  imports Kmalloc Shared_Page Vpl011 Riscv_Vm Vgic Fd_Ops Sv39_Space Sched
begin

text \<open>
  Verification of the Avatar kernel, an operating system kernel and hypervisor in C for AArch64,
  RISC-V and x86-64. The theories model parts of the kernel by definitions that follow the C
  functions one by one, under their C names, and prove what the rest of the kernel relies on.

  \<^bold>\<open>Conventions.\<close> A C structure is a record, an enumeration a datatype, a machine integer a word of
  its width (\<open>u8\<close> to \<open>u64\<close>), or an integer where the C value only counts objects. State is passed
  explicitly. NULL is 0 or \<open>None\<close>. A failed assertion stops the kernel, and so does the model: its
  result is \<open>None\<close>. A loop is structural recursion, a function with a termination proof, or a
  partial function that is then shown to return. Code that holds a lock over all its accesses is one
  atomic step; where it gives the lock up, the interleaving is explicit. A call that blocks is a
  sequence of passes, each of which ends where the task sleeps. Logging is left out.

  \<^bold>\<open>Memory.\<close> \<open>Bitmap\<close> (\<^verbatim>\<open>include/bitmap.h\<close>, \<^verbatim>\<open>lib/bitmap.c\<close>) is the allocation bitmap with its two
  searches, which are shown to return and to agree. \<open>Pmm\<close> (\<^verbatim>\<open>kernel/mm/pmm.c\<close>) is the physical page
  allocator on top of it: allocation and release are exact, and reserved memory, the kernel image
  first of all, is never handed out. Its contract is the locale \<open>page_allocator\<close>, interpreted on
  \<open>pmm_alloc_pages\<close> and \<open>pmm_free_pages\<close>, which the clients use: \<open>Kmalloc\<close> (\<^verbatim>\<open>kernel/mm/kmalloc.c\<close>), the
  heap with its headers in byte-addressed \<open>Memory\<close>; \<open>Shared_Page\<close> (\<^verbatim>\<open>kernel/mm/shared_page.c\<close>), the
  hash table of reference counts, which refines a map; and \<open>Sv39\<close> with \<open>Sv39_Space\<close>
  (\<^verbatim>\<open>kernel/mm/riscv64/vmm.c\<close>), the RISC-V page tables, whose mapping operation refines an update of
  the map from virtual pages to entries, and whose address spaces give back on destruction exactly
  what they took. The recursion \<open>rv_destroy_table\<close> takes the number of levels below the table as a
  bound; 1 is enough for the call from \<open>mm_vm_destroy_user_space\<close>, as \<open>destroy_ok\<close> shows.

  \<^bold>\<open>Tasks.\<close> \<open>Linked_List\<close> (\<^verbatim>\<open>include/list.h\<close>) shows that the intrusive lists implement sequences.
  \<open>Sched\<close> (\<^verbatim>\<open>kernel/task/sched.c\<close>, \<^verbatim>\<open>preempt.c\<close>, \<^verbatim>\<open>itimer.c\<close> and the task states of \<^verbatim>\<open>task.c\<close>) is the
  scheduler of up to eight CPUs as a step relation; the theorem says that no task is in two places
  and no ready task is lost, whatever the order of wake-ups, blocking, preemption and exit. The
  collection of orphans runs at most once per slot, and \<open>no_orphan_left\<close> shows that this is enough.
  The relation lets a slot be collected only when its task has left its CPU; the code does not
  check this, and \<open>reap_while_running\<close> shows what follows.

  \<^bold>\<open>Descriptors.\<close> \<open>Ring\<close> is the byte queue that pipes and consoles share; its contract is the locale
  \<open>byte_fifo\<close>, interpreted for each size in use. \<open>Pipe\<close> (\<^verbatim>\<open>kernel/syscall/fs/pipe.c\<close>) delivers bytes in
  order and loses no wake-up. \<open>Fd_Pool\<close> (\<^verbatim>\<open>fd_pool.c\<close>, the file objects of \<^verbatim>\<open>kernel/fs/vfs/vfs.c\<close>),
  \<open>Epoll\<close> (\<^verbatim>\<open>kernel/syscall/io/epoll.c\<close>) and \<open>Fd_Ops\<close> (\<^verbatim>\<open>file_ops.c\<close> and the descriptor loops of fork,
  spawn, exit and exec) share one state: reference counts equal the number of descriptors in every
  run, end of file and broken pipes are reported exactly when the last descriptor of the other end
  is gone, a write to a watched pipe wakes the task that waits in \<^verbatim>\<open>epoll_pwait\<close>, and creating a pipe
  is all or nothing.

  \<^bold>\<open>Virtual machines.\<close> \<open>Vdev\<close> holds the MMIO bus (\<^verbatim>\<open>kernel/vmm/mmio_bus.c\<close>) and the contract of the
  pools of device slots, the locale \<open>vdev_pool\<close>, which gives isolation between guests to every device
  that is interpreted in it. \<open>Vplic\<close>, \<open>Vuart16550\<close>, \<open>Vpl011\<close> and \<open>Vgic\<close> (\<^verbatim>\<open>kernel/vmm/vdev\<close>) are the
  devices; \<open>Bits\<close> has the bit tricks of the interrupt controllers. \<open>Riscv_Vm\<close>
  (\<^verbatim>\<open>kernel/vmm/riscv64/hext_run.c\<close>) composes bus, console and interrupt controller and follows a
  console byte to the interrupt of the guest.

  \<^bold>\<open>Parameters.\<close> Code outside of the modelled files is an argument of the definitions that use it: the
  offset of the kernel's linear map, the allocator behind open files, the state of the UART, the
  events of files other than pipes, the current time.

  \<^bold>\<open>Not modelled.\<close> Assembly, boot code, context switches, translation caches and device registers are
  hardware. The drivers under \<^verbatim>\<open>driver\<close> consist of accesses to such registers. The network stack
  (lwip) and the file system (lwext4) are third-party code, and the sockets, the pseudo file systems
  and most of \<^verbatim>\<open>vfs.c\<close> are glue to them. The page tables of AArch64 and x86-64 repeat the structure of
  the RISC-V ones with other entry formats. The world switch of the hypervisor
  (\<^verbatim>\<open>kernel/vmm/x86_64\<close>, \<^verbatim>\<open>kernel/vmm/aarch64\<close>, most of \<^verbatim>\<open>hext_run.c\<close>) is system-register code. Program
  loaders, memory-mapping system calls, terminals, signals, mutexes, futexes and path handling are
  within reach of the same methods and are not covered here.
\<close>

end
